(* ===== verification/Prelude.thy ===== *)
theory Prelude
  imports "HOL-Library.Word" "HOL-Library.AList"
begin

unbundle bit_operations_syntax

section \<open>Shared types, errors and byte-order arithmetic\<close>

text \<open>
  What every component shares: Go's integer and byte-slice types, the errors of the
  program as values, the state-and-error functions in which the stateful methods are
  written (a method either returns a value or an error, and changes its receiver in both
  cases), run-time panics, and the little- and big-endian layouts of package
  \<^verbatim>\<open>encoding/binary\<close>.  A Go string and a Go \<^verbatim>\<open>[]byte\<close> are both lists of bytes; a nil
  slice and an empty slice are the same value.
\<close>

type_synonym byte = "8 word"
type_synonym u16 = "16 word"
type_synonym u32 = "32 word"
type_synonym u64 = "64 word"
type_synonym bytes = "byte list"

text \<open>A Go string literal as its bytes.\<close>

definition strlit :: "string \<Rightarrow> bytes" where
  "strlit s = map (\<lambda>c. of_nat (of_char c)) s"

subsection \<open>Errors and methods\<close>

text \<open>
  \<open>GoPanic\<close> is a run-time panic (index out of range, \<^verbatim>\<open>make\<close> with a bad size); it is not
  a returned error, so wrapping with \<^verbatim>\<open>fmt.Errorf("...: %v", err)\<close> leaves it alone.
\<close>

datatype go_error =
    EOF
  | UnexpectedEOF
  | Msg string
  | MsgArgs string "int list"
  | Wrap string go_error
  | GoPanic string

type_synonym 'a res = "go_error + 'a"
type_synonym ('s, 'a) gom = "'s \<Rightarrow> 'a res \<times> 's"

definition ret :: "'a \<Rightarrow> ('s, 'a) gom" where
  "ret x s = (Inr x, s)"

definition fail :: "go_error \<Rightarrow> ('s, 'a) gom" where
  "fail e s = (Inl e, s)"

definition bnd :: "('s, 'a) gom \<Rightarrow> ('a \<Rightarrow> ('s, 'b) gom) \<Rightarrow> ('s, 'b) gom" where
  "bnd m f s = (case m s of (Inl e, s') \<Rightarrow> (Inl e, s') | (Inr x, s') \<Rightarrow> f x s')"

definition wrapErr :: "string \<Rightarrow> ('s, 'a) gom \<Rightarrow> ('s, 'a) gom" where
  "wrapErr msg m s = (case m s of
     (Inl (GoPanic p), s') \<Rightarrow> (Inl (GoPanic p), s')
   | (Inl e, s') \<Rightarrow> (Inl (Wrap msg e), s')
   | (Inr x, s') \<Rightarrow> (Inr x, s'))"

text \<open>A call whose error is thrown away; a panic is not an error.\<close>

definition ignoreErr :: "'a \<Rightarrow> ('s, 'a) gom \<Rightarrow> ('s, 'a) gom" where
  "ignoreErr dflt m s = (case m s of
     (Inl (GoPanic p), s') \<Rightarrow> (Inl (GoPanic p), s')
   | (Inl e, s') \<Rightarrow> (Inr dflt, s')
   | (Inr x, s') \<Rightarrow> (Inr x, s'))"

named_theorems gom_simps \<open>evaluation of the method combinators\<close>
named_theorems runs_simps \<open>results of the readers on the bytes their writers produce\<close>

lemma ret_apply [gom_simps]: "ret x s = (Inr x, s)"
  by (simp add: ret_def)

lemma fail_apply [gom_simps]: "fail e s = (Inl e, s)"
  by (simp add: fail_def)

lemma bnd_Inr: "m s = (Inr x, s') \<Longrightarrow> bnd m f s = f x s'"
  by (simp add: bnd_def)

lemma bnd_Inl: "m s = (Inl e, s') \<Longrightarrow> bnd m f s = (Inl e, s')"
  by (simp add: bnd_def)

lemma bnd_ret [gom_simps]: "bnd (ret x) f s = f x s"
  by (simp add: bnd_def ret_def)

lemma bnd_fail [gom_simps]: "bnd (fail e) f s = (Inl e, s)"
  by (simp add: bnd_def fail_def)

lemma bnd_eq_Inr_iff:
  "bnd m f s = (Inr y, s'') \<longleftrightarrow> (\<exists>x s'. m s = (Inr x, s') \<and> f x s' = (Inr y, s''))"
  by (auto simp: bnd_def split: prod.splits sum.splits)

lemma bnd_InrE:
  assumes "bnd m f s = (Inr y, s'')"
  obtains x s' where "m s = (Inr x, s')" "f x s' = (Inr y, s'')"
  using assms by (auto simp: bnd_eq_Inr_iff)

lemma bnd_assoc: "bnd (bnd m f) g = bnd m (\<lambda>x. bnd (f x) g)"
  by (rule ext) (auto simp: bnd_def split: prod.splits sum.splits)

lemma bnd_cong [fundef_cong]:
  assumes "m s = m' s'" and "\<And>x t. m' s' = (Inr x, t) \<Longrightarrow> f x t = g x t" and "s = s'"
  shows "bnd m f s = bnd m' g s'"
  using assms by (auto simp: bnd_def split: prod.splits sum.splits)

lemma wrapErr_Inr [simp]: "m s = (Inr x, s') \<Longrightarrow> wrapErr msg m s = (Inr x, s')"
  by (simp add: wrapErr_def)

lemma wrapErr_eq_Inr_iff [simp]: "wrapErr msg m s = (Inr x, s') \<longleftrightarrow> m s = (Inr x, s')"
  by (auto simp: wrapErr_def split: prod.splits sum.splits go_error.splits)

lemma snd_wrapErr [simp]: "snd (wrapErr msg m s) = snd (m s)"
  by (auto simp: wrapErr_def split: prod.splits sum.splits go_error.splits)

lemma snd_ignoreErr [simp]: "snd (ignoreErr x m s) = snd (m s)"
  by (auto simp: ignoreErr_def split: prod.splits sum.splits go_error.splits)

text \<open>A counted loop that appends one element per iteration and stops at the first error.\<close>

fun readN :: "nat \<Rightarrow> ('s, 'a) gom \<Rightarrow> ('s, 'a list) gom" where
  "readN 0 m = ret []"
| "readN (Suc n) m = bnd m (\<lambda>x. bnd (readN n m) (\<lambda>xs. ret (x # xs)))"

text \<open>A counted loop without an accumulated result other than the threaded value.\<close>

fun loopN :: "nat \<Rightarrow> ('a \<Rightarrow> ('s, 'a) gom) \<Rightarrow> 'a \<Rightarrow> ('s, 'a) gom" where
  "loopN 0 step x = ret x"
| "loopN (Suc n) step x = bnd (step x) (loopN n step)"

text \<open>
  \<^verbatim>\<open>make([]T, len, cap)\<close>: a negative size, or one whose memory exceeds the address space of
  the runtime (\<open>2 ^ 48\<close> bytes on linux/amd64), is a panic.
\<close>

definition maxAlloc :: int where
  "maxAlloc = 2 ^ 48"

definition makeslice :: "int \<Rightarrow> int \<Rightarrow> ('s, unit) gom" where
  "makeslice elemSize n =
     (if n < 0 \<or> maxAlloc < n * elemSize then fail (GoPanic ''makeslice: size out of range'')
      else ret ())"

lemma makeslice_ok: "0 \<le> n \<Longrightarrow> n * e \<le> maxAlloc \<Longrightarrow> makeslice e n s = (Inr (), s)"
  by (simp add: makeslice_def ret_def)

lemma makeslice_state: "makeslice e n s = (r, s') \<Longrightarrow> s' = s"
  by (auto simp: makeslice_def ret_def fail_def split: if_splits)

subsection \<open>Byte order\<close>

text \<open>
  \<^verbatim>\<open>binary.LittleEndian.PutUintN\<close> and \<^verbatim>\<open>UintN\<close> and their big-endian twins, on the value of
  the integer; \<open>n\<close> is the number of bytes.
\<close>

fun le_bytes :: "nat \<Rightarrow> nat \<Rightarrow> bytes" where
  "le_bytes 0 x = []"
| "le_bytes (Suc n) x = of_nat (x mod 256) # le_bytes n (x div 256)"

fun le_val :: "bytes \<Rightarrow> nat" where
  "le_val [] = 0"
| "le_val (b # bs) = unat b + 256 * le_val bs"

definition be_bytes :: "nat \<Rightarrow> nat \<Rightarrow> bytes" where
  "be_bytes n x = rev (le_bytes n x)"

definition be_val :: "bytes \<Rightarrow> nat" where
  "be_val bs = le_val (rev bs)"

lemma le_bytes_numeral:
  "le_bytes (numeral k) x = of_nat (x mod 256) # le_bytes (pred_numeral k) (x div 256)"
  by (simp only: numeral_eq_Suc [of k] le_bytes.simps)

lemma length_le_bytes [simp]: "length (le_bytes n x) = n"
  by (induction n arbitrary: x) auto

lemma length_be_bytes [simp]: "length (be_bytes n x) = n"
  by (simp add: be_bytes_def)

lemma unat_bound: "unat (x :: 'a::len word) < 2 ^ LENGTH('a)"
  by (fact unsigned_less)

lemma unat_byte_less [simp]: "unat (b :: byte) < 256"
  using unat_bound [of b] by simp

lemma unat_of_nat_byte [simp]: "unat (of_nat (x mod 256) :: byte) = x mod 256"
  by (simp add: unat_of_nat)

lemma le_val_le_bytes: "le_val (le_bytes n x) = x mod 256 ^ n"
  by (induction n arbitrary: x) (simp_all add: mod_mult2_eq)

lemma be_val_be_bytes: "be_val (be_bytes n x) = x mod 256 ^ n"
  by (simp add: be_val_def be_bytes_def le_val_le_bytes)

lemma le_val_bound: "le_val bs < 256 ^ length bs"
proof (induction bs)
  case (Cons b bs)
  have "unat b + 256 * le_val bs < 256 * 256 ^ length bs"
    using unat_byte_less [of b] Cons by linarith
  then show ?case by simp
qed simp

lemma le_bytes_le_val: "length bs = n \<Longrightarrow> le_bytes n (le_val bs) = bs"
proof (induction bs arbitrary: n)
  case (Cons b bs)
  have "unat b < 256" using unat_bound [of b] by simp
  with Cons show ?case by (cases n) auto
qed simp

lemma take_le_bytes: "k \<le> n \<Longrightarrow> take k (le_bytes n x) = le_bytes k x"
proof (induction k arbitrary: n x)
  case (Suc k)
  then show ?case by (cases n) auto
qed simp

lemma le_val_append: "le_val (xs @ ys) = le_val xs + 256 ^ length xs * le_val ys"
  by (induction xs) (simp_all add: algebra_simps)

lemma le_val_le_bytes_u16 [simp]: "le_val (le_bytes 2 (unat (x :: u16))) = unat x"
  using unat_bound [of x] by (simp add: le_val_le_bytes)

lemma le_val_le_bytes_u32 [simp]: "le_val (le_bytes 4 (unat (x :: u32))) = unat x"
  using unat_bound [of x] by (simp add: le_val_le_bytes)

lemma le_val_le_bytes_u64 [simp]: "le_val (le_bytes 8 (unat (x :: u64))) = unat x"
  using unat_bound [of x] by (simp add: le_val_le_bytes)

lemma be_val_be_bytes_u32 [simp]: "be_val (be_bytes 4 (unat (x :: u32))) = unat x"
  using unat_bound [of x] by (simp add: be_val_be_bytes)

lemma be_val_be_bytes_u64 [simp]: "be_val (be_bytes 8 (unat (x :: u64))) = unat x"
  using unat_bound [of x] by (simp add: be_val_be_bytes)

subsection \<open>Words of eight bits\<close>

lemma unat_and_mask: "unat (w AND mask n) = unat (w :: 'a::len word) mod 2 ^ n"
  by (simp only: take_bit_eq_mask [symmetric] unsigned_take_bit_eq) (simp only: take_bit_eq_mod)

lemma unat_drop_bit: "unat (drop_bit n w) = unat (w :: 'a::len word) div 2 ^ n"
  unfolding unsigned_drop_bit_eq
  using unat_bound [of w] by (simp add: take_bit_eq_mod drop_bit_eq_div div_le_dividend le_less_trans)

lemma byte_masks: "(0x3f :: byte) = mask 6" "(0x1f :: byte) = mask 5" "(0x0f :: byte) = mask 4"
  by (simp_all add: mask_eq_exp_minus_1)

lemma unat_or_disjoint:
  fixes x y :: "'a::len word"
  assumes "x AND y = 0"
  shows "unat (x OR y) = unat x + unat y"
proof -
  have "unat x AND unat y = 0"
    using assms by (metis unsigned_0 unsigned_and_eq)
  then show ?thesis
    by (simp add: unsigned_or_eq disjunctive_add_eq_or)
qed

end
