(* ===== verification/Strconv.thy ===== *)
theory Strconv
  imports Prelude
begin

section \<open>Decimal integers (package strconv, and the encodability tests of core)\<close>

text \<open>
  The decimal formatter and parser of Go's standard library (\<^verbatim>\<open>strconv.Itoa\<close>,
  \<^verbatim>\<open>FormatInt\<close> and \<^verbatim>\<open>ParseInt\<close> with base 10) and, on top of them, the two tests of
  \<^verbatim>\<open>core/string.go\<close> and \<^verbatim>\<open>core/ziplist.go\<close> that decide whether a string may be stored as
  an integer.  The lemmas give the two directions of the round trip: a formatted integer
  parses back, and a string that passes the test is exactly the decimal form of its value.
\<close>

fun digits :: "nat \<Rightarrow> bytes" where
  "digits n = (if n < 10 then [of_nat (48 + n)] else digits (n div 10) @ [of_nat (48 + n mod 10)])"

declare digits.simps [simp del]

definition itoa :: "int \<Rightarrow> bytes" where
  "itoa i = (if i < 0 then 45 # digits (nat (- i)) else digits (nat i))"

definition isDigit :: "byte \<Rightarrow> bool" where
  "isDigit c \<longleftrightarrow> 48 \<le> unat c \<and> unat c \<le> 57"

fun digitsVal :: "nat \<Rightarrow> bytes \<Rightarrow> nat" where
  "digitsVal a [] = a"
| "digitsVal a (c # cs) = digitsVal (10 * a + (unat c - 48)) cs"

text \<open>\<^verbatim>\<open>strconv.ParseInt(s, 10, bits)\<close>; \<open>None\<close> is a syntax or a range error.\<close>

definition parseInt :: "nat \<Rightarrow> bytes \<Rightarrow> int option" where
  "parseInt bits s = (case s of [] \<Rightarrow> None | c # cs \<Rightarrow>
     (let neg = (c = 45);
          ds = (if c = 43 \<or> c = 45 then cs else s);
          un = int (digitsVal 0 ds)
      in if ds = [] \<or> \<not> list_all isDigit ds then None
         else if \<not> neg \<and> 2 ^ (bits - 1) \<le> un then None
         else if neg \<and> 2 ^ (bits - 1) < un then None
         else Some (if neg then - un else un)))"

text \<open>
  The tests of the encoder.  The source ranges over the runes of the string and accepts
  every Unicode digit, but then lets \<open>ParseInt\<close> reject what is not an ASCII digit, so a
  string with a byte outside \<open>0..9\<close> is refused either way.
\<close>

definition isEncodableUint32 :: "bytes \<Rightarrow> int option" where
  "isEncodableUint32 s =
     (if s = [] then None
      else if hd s = 48 \<and> 1 < length s then None
      else if \<not> list_all isDigit s then None
      else parseInt 32 s)"

definition isEncodableUint64 :: "bytes \<Rightarrow> int option" where
  "isEncodableUint64 s =
     (if s = [] then None
      else if hd s = 48 \<and> 1 < length s then None
      else if \<not> list_all isDigit s then None
      else parseInt 64 s)"

subsection \<open>Digits\<close>

lemma digits_small: "n < 10 \<Longrightarrow> digits n = [of_nat (48 + n)]"
  by (simp add: digits.simps)

lemma digits_large: "10 \<le> n \<Longrightarrow> digits n = digits (n div 10) @ [of_nat (48 + n mod 10)]"
  by (subst digits.simps) simp

lemma digits_nonempty [simp]: "digits n \<noteq> []"
  by (cases "n < 10") (auto simp: digits_small digits_large)

lemma unat_of_digit: "d < 10 \<Longrightarrow> unat (of_nat (48 + d) :: byte) = 48 + d"
  by (simp add: unat_of_nat del: of_nat_add)

lemma isDigit_of_digit: "d < 10 \<Longrightarrow> isDigit (of_nat (48 + d))"
  by (simp add: isDigit_def unat_of_digit del: of_nat_add)

lemma list_all_digits: "list_all isDigit (digits n)"
proof (induction n rule: digits.induct)
  case (1 n)
  then show ?case
    by (cases "n < 10") (simp_all add: digits_small digits_large isDigit_of_digit del: of_nat_add)
qed

lemma digitsVal_append: "digitsVal a (xs @ ys) = digitsVal (digitsVal a xs) ys"
  by (induction xs arbitrary: a) auto

lemma digitsVal_digits: "digitsVal 0 (digits n) = n"
proof (induction n rule: digits.induct)
  case (1 n)
  then show ?case
    by (cases "n < 10")
      (simp_all add: digits_small digits_large digitsVal_append unat_of_digit del: of_nat_add)
qed

lemma digitsVal_ge: "a * 10 ^ length cs \<le> digitsVal a cs"
proof (induction cs arbitrary: a)
  case (Cons c cs)
  have "a * 10 ^ length (c # cs) \<le> (10 * a + (unat c - 48)) * 10 ^ length cs"
    by simp
  also have "\<dots> \<le> digitsVal (10 * a + (unat c - 48)) cs" by (rule Cons)
  finally show ?case by simp
qed simp

lemma of_digit_value: "isDigit c \<Longrightarrow> of_nat (48 + (unat c - 48)) = c"
  by (auto simp: isDigit_def word_unat_eq_iff unat_of_nat simp del: of_nat_add)

text \<open>A digit string without a superfluous leading zero is the formatted form of its value.\<close>

lemma digits_digitsVal:
  "s \<noteq> [] \<Longrightarrow> list_all isDigit s \<Longrightarrow> \<not> (hd s = 48 \<and> 1 < length s) \<Longrightarrow> digits (digitsVal 0 s) = s"
proof (induction s rule: rev_induct)
  case (snoc c t)
  have c: "isDigit c" and small: "unat c - 48 < 10"
    using snoc.prems by (auto simp: isDigit_def)
  show ?case
  proof (cases "t = []")
    case True
    then show ?thesis
      using small of_digit_value [OF c] by (simp add: digits_small del: of_nat_add)
  next
    case False
    then have lead: "hd t \<noteq> 48" and t: "list_all isDigit t" using snoc.prems by auto
    have "1 \<le> digitsVal 0 t"
    proof (cases t)
      case (Cons d ds)
      with lead t have "1 \<le> unat d - 48"
        by (auto simp: isDigit_def word_unat_eq_iff)
      then have "1 * 1 \<le> (unat d - 48) * 10 ^ length ds" by (intro mult_le_mono) auto
      also have "\<dots> \<le> digitsVal (unat d - 48) ds" by (rule digitsVal_ge)
      finally show ?thesis using Cons by simp
    qed (use False in simp)
    then have "digits (digitsVal 0 (t @ [c])) = digits (digitsVal 0 t) @ [c]"
      using small of_digit_value [OF c] by (simp add: digitsVal_append digits_large del: of_nat_add)
    with snoc.IH False t lead show ?thesis by auto
  qed
qed simp

lemma hd_digits: "10 \<le> n \<Longrightarrow> hd (digits n) \<noteq> 48"
proof (induction n rule: digits.induct)
  case (1 n)
  show ?case
  proof (cases "n div 10 < 10")
    case True
    with "1.prems" have "digits n = [of_nat (48 + n div 10), of_nat (48 + n mod 10)]"
      by (simp add: digits_large digits_small del: of_nat_add)
    moreover have "unat (of_nat (48 + n div 10) :: byte) \<noteq> unat (48 :: byte)"
      using True "1.prems" by (subst unat_of_digit) auto
    ultimately show ?thesis by (metis list.sel(1))
  next
    case False
    with 1 show ?thesis by (simp add: digits_large del: of_nat_add)
  qed
qed

subsection \<open>The round trips\<close>

lemma hd_digits_isDigit: "isDigit (hd (digits n))"
  using list_all_digits [of n] digits_nonempty [of n] by (cases "digits n") auto

lemma parseInt_digits: "int n < 2 ^ (bits - 1) \<Longrightarrow> parseInt bits (digits n) = Some (int n)"
proof -
  assume n: "int n < 2 ^ (bits - 1)"
  obtain c cs where s: "digits n = c # cs" by (cases "digits n") auto
  have "isDigit c" using hd_digits_isDigit [of n] s by simp
  then have c: "c \<noteq> 43" "c \<noteq> 45" by (auto simp: isDigit_def)
  have "list_all isDigit (c # cs)" and "digitsVal 0 (c # cs) = n"
    using list_all_digits [of n] digitsVal_digits [of n] s by simp_all
  with n c s show ?thesis by (simp add: parseInt_def Let_def)
qed

lemma parseInt_itoa:
  assumes "- (2 ^ (bits - 1)) \<le> i" and "i < 2 ^ (bits - 1)"
  shows "parseInt bits (itoa i) = Some i"
proof (cases "i < 0")
  case True
  have "list_all isDigit (digits (nat (- i)))" and "digitsVal 0 (digits (nat (- i))) = nat (- i)"
    by (simp_all add: list_all_digits digitsVal_digits)
  with True assms show ?thesis by (simp add: parseInt_def itoa_def Let_def)
next
  case False
  with assms show ?thesis by (simp add: itoa_def parseInt_digits)
qed

lemma parseInt_of_digits:
  assumes "s \<noteq> []" and "list_all isDigit s" and "parseInt bits s = Some i"
  shows "i = int (digitsVal 0 s)" and "0 \<le> i" and "i < 2 ^ (bits - 1)"
proof -
  obtain c cs where s: "s = c # cs" using assms(1) by (cases s) auto
  with assms(2) have "c \<noteq> 43" "c \<noteq> 45" by (auto simp: isDigit_def)
  with s assms(3) show "i = int (digitsVal 0 s)" "i < 2 ^ (bits - 1)"
    by (auto simp: parseInt_def Let_def split: if_splits)
  then show "0 \<le> i" by simp
qed

lemma isEncodableUint64_Some:
  assumes "isEncodableUint64 s = Some i"
  shows "itoa i = s" and "0 \<le> i" and "i < 2 ^ 63"
proof -
  have *: "s \<noteq> []" "\<not> (hd s = 48 \<and> 1 < length s)" "list_all isDigit s" "parseInt 64 s = Some i"
    using assms by (auto simp: isEncodableUint64_def split: if_splits)
  have i: "i = int (digitsVal 0 s)" and "i < 2 ^ (64 - 1)"
    using parseInt_of_digits [OF *(1) *(3) *(4)] by simp_all
  show "itoa i = s" using i digits_digitsVal [OF *(1) *(3) *(2)] by (simp add: itoa_def)
  show "0 \<le> i" using i by simp
  show "i < 2 ^ 63" using \<open>i < 2 ^ (64 - 1)\<close> by simp
qed

lemma isEncodableUint32_Some:
  assumes "isEncodableUint32 s = Some i"
  shows "itoa i = s" and "0 \<le> i" and "i < 2 ^ 31"
proof -
  have *: "s \<noteq> []" "\<not> (hd s = 48 \<and> 1 < length s)" "list_all isDigit s" "parseInt 32 s = Some i"
    using assms by (auto simp: isEncodableUint32_def split: if_splits)
  have i: "i = int (digitsVal 0 s)" and "i < 2 ^ (32 - 1)"
    using parseInt_of_digits [OF *(1) *(3) *(4)] by simp_all
  show "itoa i = s" using i digits_digitsVal [OF *(1) *(3) *(2)] by (simp add: itoa_def)
  show "0 \<le> i" using i by simp
  show "i < 2 ^ 31" using \<open>i < 2 ^ (32 - 1)\<close> by simp
qed

lemma digits_no_leading_zero: "\<not> (hd (digits n) = 48 \<and> 1 < length (digits n))"
  by (cases "n < 10") (auto simp: digits_small hd_digits)

lemma isEncodableUint64_itoa:
  assumes "0 \<le> i" and "i < 2 ^ 63"
  shows "isEncodableUint64 (itoa i) = Some i"
proof -
  have "parseInt 64 (itoa i) = Some i"
    using assms by (intro parseInt_itoa) auto
  then show ?thesis
    using assms digits_no_leading_zero [of "nat i"]
    by (auto simp: isEncodableUint64_def itoa_def list_all_digits)
qed

lemma digits_inj: "digits m = digits n \<Longrightarrow> m = n"
  by (metis digitsVal_digits)

lemma itoa_inj: "itoa i = itoa j \<longleftrightarrow> i = j"
proof
  assume eq: "itoa i = itoa j"
  have minus: "hd (digits n) \<noteq> 45" for n using hd_digits_isDigit [of n] by (auto simp: isDigit_def)
  have head: "hd (itoa k) = 45 \<longleftrightarrow> k < 0" for k using minus by (simp add: itoa_def)
  from eq head [of i] head [of j] have sign: "i < 0 \<longleftrightarrow> j < 0" by simp
  show "i = j"
  proof (cases "i < 0")
    case True
    with sign eq have "nat (- i) = nat (- j)" by (auto simp: itoa_def dest: digits_inj)
    with True sign show ?thesis by simp
  next
    case False
    with sign eq have "nat i = nat j" by (auto simp: itoa_def dest: digits_inj)
    with False sign show ?thesis by simp
  qed
qed simp

end
