(* ===== verification/Reader.thy ===== *)
theory Reader
  imports Strconv
begin

section \<open>Byte sources: the decoder's input and a cursor into a buffer\<close>

text \<open>
  \<^verbatim>\<open>core/utils.go\<close>: the two kinds of reader of the decoder.  The methods of
  \<^verbatim>\<open>Decoder\<close> read from a stream (\<open>input\<close> is what is left of it, \<open>readCount\<close> what
  \<^verbatim>\<open>GetReadCount\<close> reports); the functions over packed buffers read from a byte slice at a
  cursor.  The 8-byte scratch slice \<^verbatim>\<open>dec.buffer\<close> is always filled immediately before it
  is read, so \<open>dec_readFull\<close> returns the bytes instead of keeping them in the state.

  The locale \<open>byte_source\<close> is the contract both readers share; its lemmas compose
  statements "on the bytes \<open>bs\<close> the method returns \<open>x\<close>" (\<open>parses\<close>) and "the method only
  moves forward" (\<open>advances\<close>) along \<open>bnd\<close> and the counted loops.
\<close>

subsection \<open>The readers\<close>

record dstate =
  input :: bytes
  readCount :: nat
  valkey :: bool
  rdbVersion :: int

definition dec_readByte :: "(dstate, byte) gom" where
  "dec_readByte d = (case input d of
     [] \<Rightarrow> (Inl EOF, d)
   | b # bs \<Rightarrow> (Inr b, d\<lparr>input := bs, readCount := readCount d + 1\<rparr>))"

definition dec_readFull :: "nat \<Rightarrow> (dstate, bytes) gom" where
  "dec_readFull n d =
     (if length (input d) < n
      then (Inl (if input d = [] then EOF else UnexpectedEOF), d\<lparr>input := []\<rparr>)
      else (Inr (take n (input d)), d\<lparr>input := drop n (input d), readCount := readCount d + n\<rparr>))"

definition buf_readBytes :: "bytes \<Rightarrow> nat \<Rightarrow> (nat, bytes) gom" where
  "buf_readBytes buf sz cursor =
     (if length buf < cursor + sz then (Inl (Msg ''cursor out of range''), cursor)
      else (Inr (take sz (drop cursor buf)), cursor + sz))"

definition buf_readByte :: "bytes \<Rightarrow> (nat, byte) gom" where
  "buf_readByte buf cursor =
     (if length buf \<le> cursor then (Inl (Msg ''cursor out of range''), cursor)
      else (Inr (buf ! cursor), cursor + 1))"

text \<open>
  The index expression \<^verbatim>\<open>buf[*cursor]; *cursor++\<close>, which panics out of range, and the bare
  \<^verbatim>\<open>*cursor += n\<close>.
\<close>

definition buf_index :: "bytes \<Rightarrow> (nat, byte) gom" where
  "buf_index buf cursor =
     (if length buf \<le> cursor then (Inl (GoPanic ''index out of range''), cursor)
      else (Inr (buf ! cursor), cursor + 1))"

definition buf_skip :: "nat \<Rightarrow> (nat, unit) gom" where
  "buf_skip n cursor = (Inr (), cursor + n)"

text \<open>The 16-bit count in the header of a ziplist: \<^verbatim>\<open>buf[cursor+8:cursor+10]\<close>.\<close>

definition readZipListLength :: "bytes \<Rightarrow> (nat, nat) gom" where
  "readZipListLength buf cursor =
     (if length buf < cursor + 10 then (Inl (GoPanic ''slice bounds out of range''), cursor)
      else (Inr (le_val (take 2 (drop (cursor + 8) buf))), cursor + 10))"

text \<open>Run a buffer reader from cursor 0 inside a decoder method; the cursor is then dropped.\<close>

definition onBuf :: "(nat, 'a) gom \<Rightarrow> ('s, 'a) gom" where
  "onBuf m s = (fst (m 0), s)"

subsection \<open>The contract of a byte source\<close>

definition parses :: "('s \<Rightarrow> bytes \<Rightarrow> bool) \<Rightarrow> (nat \<Rightarrow> 's \<Rightarrow> 's) \<Rightarrow> ('s, 'a) gom \<Rightarrow> bytes \<Rightarrow> 'a \<Rightarrow> bool" where
  "parses at adv m bs x \<longleftrightarrow>
     (\<forall>s tail. at s (bs @ tail) \<longrightarrow> m s = (Inr x, adv (length bs) s))"

definition advances :: "('s \<Rightarrow> bytes \<Rightarrow> bool) \<Rightarrow> ('s, 'a) gom \<Rightarrow> bool" where
  "advances at m \<longleftrightarrow>
     (\<forall>s r. at s r \<longrightarrow> (\<exists>n \<le> length r. at (snd (m s)) (drop n r)))"

locale byte_source =
  fixes at :: "'s \<Rightarrow> bytes \<Rightarrow> bool"
    and adv :: "nat \<Rightarrow> 's \<Rightarrow> 's"
  assumes at_adv: "at s r \<Longrightarrow> n \<le> length r \<Longrightarrow> at (adv n s) (drop n r)"
    and adv_adv: "adv m (adv n s) = adv (n + m) s"
    and adv_0: "adv 0 s = s"
begin

lemma at_append: "at s (bs @ tail) \<Longrightarrow> at (adv (length bs) s) tail"
  using at_adv [of s "bs @ tail" "length bs"] by simp

lemma parses_apply: "parses at adv m bs x \<Longrightarrow> at s (bs @ tail) \<Longrightarrow> m s = (Inr x, adv (length bs) s)"
  by (auto simp: parses_def)

lemma parses_ret: "parses at adv (ret x) [] x"
  by (simp add: parses_def ret_def adv_0)

lemma parses_bnd:
  assumes "parses at adv m bs x" and "parses at adv (f x) bs' y"
  shows "parses at adv (bnd m f) (bs @ bs') y"
  unfolding parses_def
proof (intro allI impI)
  fix s tail
  assume s: "at s ((bs @ bs') @ tail)"
  then have m: "m s = (Inr x, adv (length bs) s)"
    using parses_apply [OF assms(1), of s "bs' @ tail"] by simp
  have "at (adv (length bs) s) (bs' @ tail)" using s by (intro at_append) simp
  then have "f x (adv (length bs) s) = (Inr y, adv (length bs') (adv (length bs) s))"
    by (rule parses_apply [OF assms(2)])
  with m show "bnd m f s = (Inr y, adv (length (bs @ bs')) s)"
    by (simp add: bnd_Inr adv_adv)
qed

lemma parses_bnd_ret:
  assumes "parses at adv m bs x" and "y = f x"
  shows "parses at adv (bnd m (\<lambda>x. ret (f x))) bs y"
  using parses_bnd [OF assms(1) parses_ret, of f] assms(2) by simp

lemma parses_pure: "(\<And>s. m s = (Inr x, s)) \<Longrightarrow> parses at adv m [] x"
  by (simp add: parses_def adv_0)

lemma parses_wrapErr: "parses at adv m bs x \<Longrightarrow> parses at adv (wrapErr msg m) bs x"
  by (auto simp: parses_def)

lemma parses_readN:
  assumes "list_all2 (\<lambda>bs x. parses at adv m bs x) bss xs"
  shows "parses at adv (readN (length xs) m) (concat bss) xs"
  using assms
proof (induction bss xs rule: list_all2_induct)
  case Nil
  then show ?case by (simp add: parses_ret)
next
  case (Cons bs bss x xs)
  have "parses at adv (bnd (readN (length xs) m) (\<lambda>xs. ret (x # xs))) (concat bss) (x # xs)"
    using Cons by (intro parses_bnd_ret) auto
  with Cons.hyps(1) show ?case by (auto intro!: parses_bnd)
qed

lemma parses_loopN:
  assumes "\<And>i acc. i < length bss \<Longrightarrow> acc = fold f (take i xs) a \<Longrightarrow>
             parses at adv (step acc) (bss ! i) (f (xs ! i) acc)"
    and "length bss = length xs"
  shows "parses at adv (loopN (length xs) step a) (concat bss) (fold f xs a)"
  using assms
proof (induction xs arbitrary: bss a)
  case Nil
  then show ?case by (simp add: parses_ret)
next
  case (Cons x xs)
  then obtain b bs where b: "bss = b # bs" by (cases bss) auto
  have hd: "parses at adv (step a) b (f x a)"
    using Cons.prems(1) [of 0 a] b by simp
  have "parses at adv (loopN (length xs) step (f x a)) (concat bs) (fold f xs (f x a))"
  proof (rule Cons.IH)
    fix i acc
    assume "i < length bs" "acc = fold f (take i xs) (f x a)"
    then show "parses at adv (step acc) (bs ! i) (f (xs ! i) acc)"
      using Cons.prems(1) [of "Suc i" acc] b by simp
  qed (use Cons.prems b in simp)
  with hd b show ?case by (simp add: parses_bnd)
qed

lemma advances_apply:
  "advances at m \<Longrightarrow> at s r \<Longrightarrow> m s = (x, s') \<Longrightarrow> \<exists>n \<le> length r. at s' (drop n r)"
  unfolding advances_def by (metis snd_conv)

lemma advances_pure: "(\<And>s. snd (m s) = s) \<Longrightarrow> advances at m"
  unfolding advances_def by (metis drop0 le0)

lemma advances_ret: "advances at (ret x)"
  by (rule advances_pure) (simp add: ret_def)

lemma advances_fail: "advances at (fail e)"
  by (rule advances_pure) (simp add: fail_def)

lemma advances_bnd:
  assumes "advances at m" and "\<And>x. advances at (f x)"
  shows "advances at (bnd m f)"
  unfolding advances_def
proof (intro allI impI)
  fix s r
  assume s: "at s r"
  obtain v s' where m: "m s = (v, s')" by (cases "m s")
  obtain n where n: "n \<le> length r" "at s' (drop n r)"
    using advances_apply [OF assms(1) s m] by auto
  show "\<exists>n \<le> length r. at (snd (bnd m f s)) (drop n r)"
  proof (cases v)
    case (Inl e)
    with m n show ?thesis by (auto simp: bnd_def)
  next
    case (Inr x)
    obtain w s'' where f: "f x s' = (w, s'')" by (cases "f x s'")
    obtain k where "k \<le> length (drop n r)" "at s'' (drop k (drop n r))"
      using advances_apply [OF assms(2) n(2) f] by auto
    with n have "n + k \<le> length r" "at s'' (drop (n + k) r)"
      by (auto simp: add.commute)
    with m f Inr show ?thesis by (auto simp: bnd_def)
  qed
qed

lemma advances_ignoreErr: "advances at m \<Longrightarrow> advances at (ignoreErr x m)"
  by (simp add: advances_def)

lemma advances_wrapErr: "advances at m \<Longrightarrow> advances at (wrapErr msg m)"
  by (simp add: advances_def)

lemma advances_readN: "advances at m \<Longrightarrow> advances at (readN n m)"
  by (induction n) (auto intro!: advances_bnd advances_ret)

lemma advances_loopN: "(\<And>x. advances at (step x)) \<Longrightarrow> advances at (loopN n step x)"
  by (induction n arbitrary: x) (auto intro!: advances_bnd advances_ret)

lemma advances_makeslice: "advances at (makeslice e n)"
  by (rule advances_pure) (simp add: makeslice_def ret_def fail_def)

lemma advances_onBuf: "advances at (onBuf m)"
  by (rule advances_pure) (simp add: onBuf_def)

lemma advances_if:
  "advances at m \<Longrightarrow> advances at m' \<Longrightarrow> advances at (if b then m else m')"
  by simp

lemma advances_case_option:
  "(\<And>x. advances at (f x)) \<Longrightarrow> advances at m \<Longrightarrow>
   advances at (case opt of None \<Rightarrow> m | Some x \<Rightarrow> f x)"
  by (cases opt) auto

lemma advances_case_prod:
  "(\<And>x y. advances at (f x y)) \<Longrightarrow> advances at (case p of (x, y) \<Rightarrow> f x y)"
  by (cases p) auto

lemmas advances_intros =
  advances_bnd advances_ret advances_fail advances_wrapErr advances_readN advances_loopN
  advances_makeslice advances_onBuf advances_ignoreErr advances_if advances_case_option advances_case_prod

end

text \<open>
  A source with an encoder and a decoder of items: the law is that an item that satisfies
  \<open>ok\<close> is read back from its bytes; the client lemma is that a counted loop reads a whole
  sequence back.
\<close>

locale item_codec = byte_source at adv
  for at :: "'s \<Rightarrow> bytes \<Rightarrow> bool" and adv :: "nat \<Rightarrow> 's \<Rightarrow> 's" +
  fixes enc :: "'a \<Rightarrow> bytes"
    and dec :: "('s, 'a) gom"
    and ok :: "'a \<Rightarrow> bool"
  assumes item: "ok x \<Longrightarrow> parses at adv dec (enc x) x"
begin

lemma items: "list_all ok xs \<Longrightarrow> parses at adv (readN (length xs) dec) (concat (map enc xs)) xs"
  by (rule parses_readN) (auto simp: list_all2_conv_all_nth list_all_length item)

end

subsection \<open>The decoder's stream is a byte source\<close>

definition dec_adv :: "nat \<Rightarrow> dstate \<Rightarrow> dstate" where
  "dec_adv n d = d\<lparr>input := drop n (input d), readCount := readCount d + n\<rparr>"

abbreviation dec_at :: "dstate \<Rightarrow> bytes \<Rightarrow> bool" where
  "dec_at d r \<equiv> input d = r"

abbreviation "dparses \<equiv> parses dec_at dec_adv"
abbreviation "dadvances \<equiv> advances dec_at"

interpretation src: byte_source dec_at dec_adv
  by unfold_locales (simp_all add: dec_adv_def add.commute add.left_commute)

lemma input_dec_adv [simp]: "input (dec_adv n d) = drop n (input d)"
  by (simp add: dec_adv_def)

lemma dec_adv_fields [simp]:
  "readCount (dec_adv n d) = readCount d + n" "valkey (dec_adv n d) = valkey d"
  "rdbVersion (dec_adv n d) = rdbVersion d"
  by (simp_all add: dec_adv_def)

lemma dec_readByte_Cons: "input d = b # bs \<Longrightarrow> dec_readByte d = (Inr b, dec_adv 1 d)"
  by (simp add: dec_readByte_def dec_adv_def)

lemma dec_readByte_parses: "dparses dec_readByte [b] b"
  by (simp add: parses_def dec_readByte_Cons)

lemma dec_readFull_parses: "length bs = n \<Longrightarrow> dparses (dec_readFull n) bs bs"
  by (auto simp: parses_def dec_readFull_def dec_adv_def)

lemma dec_readByte_Inr:
  "dec_readByte d = (Inr b, d') \<Longrightarrow> input d \<noteq> [] \<and> b = hd (input d) \<and> d' = dec_adv 1 d"
  by (cases "input d") (auto simp: dec_readByte_def dec_adv_def)

lemma dec_readByte_advances: "dadvances dec_readByte"
proof -
  have "\<exists>n \<le> length (input d). input (snd (dec_readByte d)) = drop n (input d)" for d
    by (cases "input d") (auto simp: dec_readByte_def intro: exI [of _ 1])
  then show ?thesis by (simp add: advances_def)
qed

lemma dec_readFull_advances: "dadvances (dec_readFull n)"
  by (auto simp: advances_def dec_readFull_def not_less intro: exI [of _ "length _"])

lemma advances_length: "dadvances m \<Longrightarrow> m d = (x, d') \<Longrightarrow> length (input d') \<le> length (input d)"
  by (auto dest: src.advances_apply [OF _ refl])

lemmas dec_advances = src.advances_intros dec_readByte_advances dec_readFull_advances

subsection \<open>A cursor into a buffer is a byte source\<close>

abbreviation buf_at :: "bytes \<Rightarrow> nat \<Rightarrow> bytes \<Rightarrow> bool" where
  "buf_at buf c r \<equiv> c \<le> length buf \<and> drop c buf = r"

abbreviation (input) buf_adv :: "nat \<Rightarrow> nat \<Rightarrow> nat" where
  "buf_adv n c \<equiv> c + n"

abbreviation "bparses buf \<equiv> parses (buf_at buf) buf_adv"

interpretation buf: byte_source "buf_at buf" buf_adv for buf
  by unfold_locales (auto simp: add.commute)

lemma buf_at_length: "buf_at buf c (bs @ tail) \<Longrightarrow> length buf = c + length bs + length tail"
proof -
  assume "buf_at buf c (bs @ tail)"
  then have "length (drop c buf) = length bs + length tail" "c \<le> length buf" by simp_all
  then show ?thesis by simp
qed

lemma buf_at_nth: "buf_at buf c (b # tail) \<Longrightarrow> c < length buf \<and> buf ! c = b"
  using buf_at_length [of c buf "[b]" tail] by (auto dest: nth_via_drop)

lemma buf_at_take: "buf_at buf c (bs @ tail) \<Longrightarrow> take (length bs) (drop c buf) = bs"
  by auto

lemma buf_readByte_parses: "bparses buf (buf_readByte buf) [b] b"
  by (auto simp: parses_def buf_readByte_def dest: nth_via_drop)

lemma buf_index_parses: "bparses buf (buf_index buf) [b] b"
  by (auto simp: parses_def buf_index_def dest: nth_via_drop)

lemma buf_readBytes_parses:
  assumes "length bs = n"
  shows "bparses buf (buf_readBytes buf n) bs bs"
  unfolding parses_def
proof (intro allI impI)
  fix c tail
  assume c: "buf_at buf c (bs @ tail)"
  then show "buf_readBytes buf n c = (Inr bs, buf_adv (length bs) c)"
    using buf_at_length [OF c] buf_at_take [OF c] assms by (simp add: buf_readBytes_def)
qed

lemma buf_skip_parses: "length bs = n \<Longrightarrow> bparses buf (buf_skip n) bs ()"
  by (simp add: parses_def buf_skip_def)

lemma onBuf_parses: "bparses buf m buf x \<Longrightarrow> onBuf m s = (Inr x, s)"
  by (simp add: parses_def onBuf_def)

end
