(* ===== verification/Crc64.thy ===== *)
theory Crc64
  imports Prelude
begin

unbundle bit_operations_syntax

section \<open>The checksum (crc64jones)\<close>

text \<open>
  \<^verbatim>\<open>crc64jones/crc64.go\<close>: the bit reflection of the polynomial, the byte table of Go's
  \<^verbatim>\<open>hash/crc64.MakeTable\<close>, the slicing-by-8 tables, the update loop with its three paths
  (slicing with the precomputed Jones tables, slicing with tables built on the fly, one
  byte at a time) and the digest.  The specification is the bit-serial register
  \<open>crcBit\<close>; every path of \<open>update\<close> is shown to compute it, so the checksum of a file
  does not depend on how the writes were cut into chunks.
\<close>

type_synonym table = "u64 list"

fun reflectLoop :: "nat \<Rightarrow> u64 \<Rightarrow> u64 \<Rightarrow> u64" where
  "reflectLoop 0 poly x = x"
| "reflectLoop (Suc n) poly x =
     (let poly' = drop_bit 1 poly in reflectLoop n poly' (push_bit 1 x OR (poly' AND 1)))"

definition reflect :: "u64 \<Rightarrow> u64" where
  "reflect poly = reflectLoop 63 poly (poly AND 1)"

definition Jones :: u64 where
  "Jones = 0xad93d23594c935a9"

text \<open>\<^verbatim>\<open>crc64.MakeTable\<close>: eight shifts of the register for every byte.\<close>

definition crcBit :: "u64 \<Rightarrow> u64 \<Rightarrow> u64" where
  "crcBit poly c = (if c AND 1 = 1 then drop_bit 1 c XOR poly else drop_bit 1 c)"

definition makeTable :: "u64 \<Rightarrow> table" where
  "makeTable poly = map (\<lambda>i. (crcBit poly ^^ 8) (of_nat i)) [0..<256]"

definition jonesTable :: table where
  "jonesTable = makeTable (reflect Jones)"

definition tabStep :: "table \<Rightarrow> u64 \<Rightarrow> u64" where
  "tabStep t crc = t ! unat (crc AND 0xff) XOR drop_bit 8 crc"

definition makeSlicingBy8Table :: "table \<Rightarrow> table list" where
  "makeSlicingBy8Table t = map (\<lambda>j. map (\<lambda>i. (tabStep t ^^ j) (t ! i)) [0..<256]) [0..<8]"

definition slicing8TableJones :: "table list" where
  "slicing8TableJones = makeSlicingBy8Table jonesTable"

text \<open>Eight bytes as one little-endian word, as the update loop assembles it.\<close>

definition word8 :: "bytes \<Rightarrow> u64" where
  "word8 p = ucast (p ! 0) OR push_bit 8 (ucast (p ! 1)) OR push_bit 16 (ucast (p ! 2)) OR
     push_bit 24 (ucast (p ! 3)) OR push_bit 32 (ucast (p ! 4)) OR push_bit 40 (ucast (p ! 5)) OR
     push_bit 48 (ucast (p ! 6)) OR push_bit 56 (ucast (p ! 7))"

definition slicingStep :: "table list \<Rightarrow> u64 \<Rightarrow> bytes \<Rightarrow> u64" where
  "slicingStep h crc0 p =
     (let crc = crc0 XOR word8 p
      in h ! 7 ! unat (crc AND 0xff) XOR
         h ! 6 ! unat (drop_bit 8 crc AND 0xff) XOR
         h ! 5 ! unat (drop_bit 16 crc AND 0xff) XOR
         h ! 4 ! unat (drop_bit 24 crc AND 0xff) XOR
         h ! 3 ! unat (drop_bit 32 crc AND 0xff) XOR
         h ! 2 ! unat (drop_bit 40 crc AND 0xff) XOR
         h ! 1 ! unat (drop_bit 48 crc AND 0xff) XOR
         h ! 0 ! unat (drop_bit 56 crc))"

function slicingLoop :: "table list \<Rightarrow> u64 \<Rightarrow> bytes \<Rightarrow> u64 \<times> bytes" where
  "slicingLoop h crc p =
     (if 8 < length p then slicingLoop h (slicingStep h crc p) (drop 8 p) else (crc, p))"
  by pat_completeness auto
termination by (relation "measure (\<lambda>(h, crc, p). length p)") auto

declare slicingLoop.simps [simp del]

fun bytewise :: "table \<Rightarrow> u64 \<Rightarrow> bytes \<Rightarrow> u64" where
  "bytewise tab crc [] = crc"
| "bytewise tab crc (v # p) = bytewise tab (tab ! unat (ucast crc XOR v) XOR drop_bit 8 crc) p"

definition helperTable :: "table \<Rightarrow> bytes \<Rightarrow> table list option" where
  "helperTable tab p =
     (if tab = slicing8TableJones ! 0 then Some slicing8TableJones
      else if 2048 \<le> length p then Some (makeSlicingBy8Table tab)
      else None)"

lemma slicingLoop_short: "length (snd (slicingLoop h crc p)) \<le> 8"
proof (induction h crc p rule: slicingLoop.induct)
  case (1 h crc p)
  then show ?case by (cases "8 < length p") (simp_all add: slicingLoop.simps [of h crc p])
qed

function update :: "u64 \<Rightarrow> table \<Rightarrow> bytes \<Rightarrow> u64" where
  "update crc tab p =
     (if 64 \<le> length p
      then (case helperTable tab p of
              None \<Rightarrow> bytewise tab crc p
            | Some h \<Rightarrow> update (fst (slicingLoop h crc p)) tab (snd (slicingLoop h crc p)))
      else bytewise tab crc p)"
  by pat_completeness auto
termination
proof (relation "measure (\<lambda>(crc, tab, p). length p)", goal_cases)
  case (2 crc tab p h)
  then show ?case using slicingLoop_short [of h crc p] by simp
qed simp

declare update.simps [simp del]

text \<open>The digest: \<^verbatim>\<open>New\<close>, \<^verbatim>\<open>Write\<close>, \<^verbatim>\<open>Sum64\<close>, \<^verbatim>\<open>Sum\<close>, \<^verbatim>\<open>Reset\<close> and \<^verbatim>\<open>Checksum\<close>.\<close>

record digest =
  crc :: u64
  tab :: table

definition newDigest :: digest where
  "newDigest = \<lparr>crc = 0, tab = jonesTable\<rparr>"

definition digestWrite :: "digest \<Rightarrow> bytes \<Rightarrow> digest" where
  "digestWrite d p = d\<lparr>crc := update (crc d) (tab d) p\<rparr>"

definition digestReset :: "digest \<Rightarrow> digest" where
  "digestReset d = d\<lparr>crc := 0\<rparr>"

definition digestSum :: "digest \<Rightarrow> bytes \<Rightarrow> bytes" where
  "digestSum d inp = (let s = crc d in
     inp @ map (\<lambda>k. ucast (drop_bit (8 * k) s)) [0..<8])"

definition checksum :: "bytes \<Rightarrow> table \<Rightarrow> u64" where
  "checksum data t = update 0 t data"

subsection \<open>The bit-serial register is linear\<close>

abbreviation shiftN :: "u64 \<Rightarrow> nat \<Rightarrow> u64 \<Rightarrow> u64" where
  "shiftN poly n \<equiv> crcBit poly ^^ n"

lemma and_1_iff_bit: "(c AND 1 = (1 :: u64)) = bit c 0"
  by (simp add: and_one_eq bit_0 mod_2_eq_odd)

lemma crcBit_bit: "crcBit poly c = drop_bit 1 c XOR (if bit c 0 then poly else 0)"
  unfolding crcBit_def and_1_iff_bit by simp

lemma crcBit_xor: "crcBit poly (a XOR b) = crcBit poly a XOR crcBit poly b"
  unfolding crcBit_bit bit_xor_iff drop_bit_xor
  by (rule bit_word_eqI) (simp add: bit_xor_iff, blast)

lemma shiftN_xor: "shiftN poly n (a XOR b) = shiftN poly n a XOR shiftN poly n b"
  by (induction n) (simp_all add: crcBit_xor)

lemma shiftN_add: "shiftN poly n (shiftN poly m c) = shiftN poly (n + m) c"
  by (simp add: funpow_add)

lemma shiftN_low_zero: "(\<And>i. i < n \<Longrightarrow> \<not> bit c i) \<Longrightarrow> shiftN poly n c = drop_bit n c"
proof (induction n arbitrary: c)
  case (Suc n)
  have "\<not> bit c 0" by (rule Suc.prems) simp
  then have "crcBit poly c = drop_bit 1 c" by (simp add: crcBit_def and_1_iff_bit)
  moreover have "shiftN poly n (drop_bit 1 c) = drop_bit n (drop_bit 1 c)"
    by (rule Suc.IH) (use Suc.prems in \<open>simp add: bit_drop_bit_eq\<close>)
  ultimately show ?case
    by (simp add: funpow_swap1 [symmetric] del: funpow.simps) (simp add: funpow_swap1)
qed simp

lemma shiftN_push: "shiftN poly n (push_bit n (ucast (v :: byte))) = ucast v" if "n \<le> 56" for n
proof -
  have "shiftN poly n (push_bit n (ucast v)) = drop_bit n (push_bit n (ucast v))"
    by (rule shiftN_low_zero) (simp add: bit_push_bit_iff)
  also have "\<dots> = ucast v"
    using that by (intro bit_word_eqI) (auto simp: bit_simps dest: bit_imp_le_length)
  finally show ?thesis .
qed

lemma ff_mask: "(0xff :: u64) = mask 8"
  by (simp add: mask_eq_exp_minus_1)

lemma shiftN_byte: "shiftN poly 8 y = shiftN poly 8 (y AND 0xff) XOR drop_bit 8 y"
proof -
  have y: "y = (y AND mask 8) XOR push_bit 8 (drop_bit 8 y)"
    by (intro bit_word_eqI) (auto simp: bit_simps)
  have "shiftN poly 8 (push_bit 8 (drop_bit 8 y)) = drop_bit 8 (push_bit 8 (drop_bit 8 y))"
    by (rule shiftN_low_zero) (simp add: bit_push_bit_iff)
  also have "\<dots> = drop_bit 8 y"
    by (intro bit_word_eqI) (auto simp: bit_simps dest: bit_imp_le_length)
  finally show ?thesis
    using shiftN_xor [of 8 poly "y AND mask 8" "push_bit 8 (drop_bit 8 y)"] y
    by (simp only: ff_mask)
qed

subsection \<open>Tables\<close>

lemma makeTable_nth: "i < 256 \<Longrightarrow> makeTable poly ! i = shiftN poly 8 (of_nat i)"
  by (simp add: makeTable_def)

lemma unat_and_ff: "unat (c AND (0xff :: u64)) < 256"
  by (simp only: ff_mask unat_and_mask) simp

lemma makeTable_and: "makeTable poly ! unat (c AND 0xff) = shiftN poly 8 (c AND 0xff)"
  using unat_and_ff [of c] by (simp add: makeTable_nth)

lemma tabStep_makeTable: "tabStep (makeTable poly) c = shiftN poly 8 c"
  unfolding tabStep_def makeTable_and by (rule shiftN_byte [symmetric])

lemma tabStep_funpow: "(tabStep (makeTable poly) ^^ j) c = shiftN poly (8 * j) c"
proof -
  have "tabStep (makeTable poly) = shiftN poly 8" by (rule ext) (rule tabStep_makeTable)
  then show ?thesis by (simp add: funpow_mult)
qed

lemma slicing_nth:
  assumes "j < 8" "i < 256"
  shows "makeSlicingBy8Table (makeTable poly) ! j ! i = shiftN poly (8 * Suc j) (of_nat i)"
  using assms by (simp add: makeSlicingBy8Table_def tabStep_funpow makeTable_nth shiftN_add add.commute)

subsection \<open>Every path of the update computes the register\<close>

definition crcByte :: "u64 \<Rightarrow> u64 \<Rightarrow> byte \<Rightarrow> u64" where
  "crcByte poly c v = shiftN poly 8 (c XOR ucast v)"

lemma low_byte_xor: "ucast (ucast c XOR v) = (c XOR ucast (v :: byte)) AND (0xff :: u64)"
  unfolding ff_mask by (rule bit_word_eqI) (auto simp: bit_simps dest: bit_imp_le_length)

lemma drop_byte_xor: "drop_bit 8 (c XOR ucast (v :: byte)) = drop_bit 8 (c :: u64)"
  by (rule bit_word_eqI) (auto simp: bit_simps dest: bit_imp_le_length)

lemma tab_byte: "makeTable poly ! unat (ucast c XOR v :: byte) XOR drop_bit 8 c = crcByte poly c v"
proof -
  have "makeTable poly ! unat (ucast c XOR v :: byte) = shiftN poly 8 (of_nat (unat (ucast c XOR v :: byte)))"
    by (rule makeTable_nth) simp
  also have "\<dots> = shiftN poly 8 ((c XOR ucast v) AND 0xff)"
    by (simp only: of_nat_unat low_byte_xor)
  finally show ?thesis
    unfolding crcByte_def shiftN_byte [of poly "c XOR ucast v"] by (simp only: drop_byte_xor)
qed

lemma bytewise_fold: "bytewise (makeTable poly) c p = foldl (crcByte poly) c p"
  by (induction p arbitrary: c) (simp_all add: tab_byte)

text \<open>Eight shifts, with the contribution of the low byte split off.\<close>

lemma shiftN_split:
  "shiftN poly (8 * Suc k) y = shiftN poly (8 * Suc k) (y AND 0xff) XOR shiftN poly (8 * k) (drop_bit 8 y)"
proof -
  have "shiftN poly (8 * Suc k) y = shiftN poly (8 * k) (shiftN poly 8 y)"
    by (simp add: shiftN_add add.commute)
  also have "\<dots> = shiftN poly (8 * k) (shiftN poly 8 (y AND 0xff)) XOR shiftN poly (8 * k) (drop_bit 8 y)"
    by (simp only: shiftN_byte [of poly y] shiftN_xor)
  finally show ?thesis by (simp add: shiftN_add add.commute)
qed

lemma slicing_and:
  "j < 8 \<Longrightarrow> makeSlicingBy8Table (makeTable poly) ! j ! unat (c AND 0xff) = shiftN poly (8 * Suc j) (c AND 0xff)"
  using unat_and_ff [of c] by (simp add: slicing_nth)

lemma top_byte_and: "drop_bit 56 (y :: u64) AND 0xff = drop_bit 56 y"
  unfolding ff_mask by (rule bit_word_eqI) (auto simp: bit_simps dest: bit_imp_le_length)

lemma drop_64: "drop_bit 64 (y :: u64) = 0"
  by (rule bit_word_eqI) (auto simp: bit_simps dest: bit_imp_le_length)

lemma shiftN_64_bytes:
  "shiftN poly 64 y =
     shiftN poly 64 (y AND 0xff) XOR
     shiftN poly 56 (drop_bit 8 y AND 0xff) XOR
     shiftN poly 48 (drop_bit 16 y AND 0xff) XOR
     shiftN poly 40 (drop_bit 24 y AND 0xff) XOR
     shiftN poly 32 (drop_bit 32 y AND 0xff) XOR
     shiftN poly 24 (drop_bit 40 y AND 0xff) XOR
     shiftN poly 16 (drop_bit 48 y AND 0xff) XOR
     shiftN poly 8 (drop_bit 56 y)"
  using shiftN_split [of 7 poly y] shiftN_split [of 6 poly "drop_bit 8 y"]
    shiftN_split [of 5 poly "drop_bit 16 y"] shiftN_split [of 4 poly "drop_bit 24 y"]
    shiftN_split [of 3 poly "drop_bit 32 y"] shiftN_split [of 2 poly "drop_bit 40 y"]
    shiftN_split [of 1 poly "drop_bit 48 y"]
  by (simp add: ac_simps numeral_2_eq_2 [symmetric] del: funpow.simps)

lemma slicingStep_eq:
  "slicingStep (makeSlicingBy8Table (makeTable poly)) c p = shiftN poly 64 (c XOR word8 p)"
proof -
  have top: "makeSlicingBy8Table (makeTable poly) ! 0 ! unat (drop_bit 56 y) = shiftN poly 8 (drop_bit 56 y)"
    for y :: u64
    using slicing_and [of 0 poly "drop_bit 56 y"] by (simp add: top_byte_and)
  show ?thesis
    by (subst shiftN_64_bytes) (simp add: slicingStep_def Let_def top slicing_and)
qed

text \<open>Eight bytes fed one at a time.\<close>

fun leWord :: "bytes \<Rightarrow> u64" where
  "leWord [] = 0"
| "leWord (b # bs) = ucast b XOR push_bit 8 (leWord bs)"

lemma leWord_bits: "bit (leWord bs) i \<Longrightarrow> i < 8 * length bs"
proof (induction bs arbitrary: i)
  case (Cons b bs)
  then show ?case
    by (cases "i < 8") (auto simp: bit_simps dest: bit_imp_le_length Cons.IH)
qed simp

lemma leWord_Cons_or: "leWord (b # bs) = ucast b OR push_bit 8 (leWord bs)"
  by (rule bit_word_eqI) (auto simp: bit_simps dest: bit_imp_le_length)

lemma word8_eq: "length p = 8 \<Longrightarrow> word8 p = leWord p"
proof -
  assume "length p = 8"
  then obtain a b c d e f g h where "p = [a, b, c, d, e, f, g, h]"
    by (auto simp: length_Suc_conv eval_nat_numeral)
  then show ?thesis
    by (simp add: word8_def leWord_Cons_or push_bit_or del: leWord.simps(2))
qed

lemma word8_take: "8 \<le> length p \<Longrightarrow> word8 p = leWord (take 8 p)"
  using word8_eq [of "take 8 p"] by (simp add: word8_def)

lemma shiftN_push_leWord:
  assumes "length bs \<le> 7"
  shows "shiftN poly 8 (push_bit 8 (leWord bs)) = leWord bs"
proof -
  have "shiftN poly 8 (push_bit 8 (leWord bs)) = drop_bit 8 (push_bit 8 (leWord bs))"
    by (rule shiftN_low_zero) (simp add: bit_push_bit_iff)
  also have "\<dots> = leWord bs"
  proof (rule bit_word_eqI)
    fix n
    show "bit (drop_bit 8 (push_bit 8 (leWord bs))) n = bit (leWord bs) n"
      using leWord_bits [of bs n] assms by (auto simp: bit_simps)
  qed
  finally show ?thesis .
qed

lemma foldl_crcByte_leWord:
  "length bs \<le> 8 \<Longrightarrow> foldl (crcByte poly) c bs = shiftN poly (8 * length bs) (c XOR leWord bs)"
proof (induction bs arbitrary: c)
  case (Cons b bs)
  have "foldl (crcByte poly) c (b # bs) = shiftN poly (8 * length bs) (crcByte poly c b XOR leWord bs)"
    using Cons by simp
  also have "crcByte poly c b XOR leWord bs = shiftN poly 8 (c XOR leWord (b # bs))"
    using Cons.prems
    by (simp add: crcByte_def shiftN_xor shiftN_push_leWord xor.assoc del: funpow.simps)
  finally show ?case by (simp add: shiftN_add add.commute)
qed simp

lemma slicingStep_fold:
  "8 \<le> length p \<Longrightarrow>
   slicingStep (makeSlicingBy8Table (makeTable poly)) c p = foldl (crcByte poly) c (take 8 p)"
  by (simp add: slicingStep_eq foldl_crcByte_leWord word8_take)

lemma slicingLoop_fold:
  "slicingLoop (makeSlicingBy8Table (makeTable poly)) c p = (c', p') \<Longrightarrow>
   foldl (crcByte poly) c' p' = foldl (crcByte poly) c p"
proof (induction "makeSlicingBy8Table (makeTable poly)" c p rule: slicingLoop.induct)
  case (1 c p)
  show ?case
  proof (cases "8 < length p")
    case True
    with 1 have "foldl (crcByte poly) c' p' =
        foldl (crcByte poly) (foldl (crcByte poly) c (take 8 p)) (drop 8 p)"
      by (simp add: slicingLoop.simps [of _ c p] slicingStep_fold)
    then show ?thesis by (simp flip: foldl_append)
  next
    case False
    with "1.prems" show ?thesis by (simp add: slicingLoop.simps [of _ c p])
  qed
qed

lemma slicingJones_0: "slicing8TableJones ! 0 = jonesTable"
  by (simp add: slicing8TableJones_def makeSlicingBy8Table_def jonesTable_def makeTable_def
      del: upt_rec_numeral)

lemma helperTable_Some:
  "helperTable (makeTable poly) p = Some h \<Longrightarrow> h = makeSlicingBy8Table (makeTable poly)"
  by (auto simp: helperTable_def slicing8TableJones_def [symmetric] slicingJones_0
      split: if_splits)

lemma update_fold: "update c (makeTable poly) p = foldl (crcByte poly) c p"
proof (induction c "makeTable poly" p rule: update.induct)
  case (1 c p)
  show ?case
  proof (cases "64 \<le> length p")
    case True
    show ?thesis
    proof (cases "helperTable (makeTable poly) p")
      case None
      with True show ?thesis by (simp add: update.simps [of c _ p] bytewise_fold)
    next
      case (Some h)
      obtain c' p' where loop: "slicingLoop h c p = (c', p')" by fastforce
      have "update c (makeTable poly) p = foldl (crcByte poly) c' p'"
        using "1.hyps" [OF True Some] True Some loop by (simp add: update.simps [of c _ p])
      also have "\<dots> = foldl (crcByte poly) c p"
        using slicingLoop_fold loop helperTable_Some [OF Some] by simp
      finally show ?thesis .
    qed
  next
    case False
    then show ?thesis by (simp add: update.simps [of c _ p] bytewise_fold)
  qed
qed

lemma update_append:
  "update (update c (makeTable poly) p) (makeTable poly) q = update c (makeTable poly) (p @ q)"
  by (simp add: update_fold)

subsection \<open>The digest\<close>

definition jones_digest :: "digest \<Rightarrow> bool" where
  "jones_digest d \<longleftrightarrow> tab d = jonesTable"

lemma jones_newDigest [simp]: "jones_digest newDigest"
  by (simp add: jones_digest_def newDigest_def)

lemma digestWrite_tab [simp]: "tab (digestWrite d p) = tab d"
  by (simp add: digestWrite_def)

lemma jones_digestWrite [simp]: "jones_digest (digestWrite d p) = jones_digest d"
  by (simp add: jones_digest_def)

lemma digestWrite_append:
  "jones_digest d \<Longrightarrow> digestWrite (digestWrite d p) q = digestWrite d (p @ q)"
  by (simp add: digestWrite_def jones_digest_def jonesTable_def update_append)

lemma digestWrite_Nil: "jones_digest d \<Longrightarrow> digestWrite d [] = d"
  by (simp add: digestWrite_def jones_digest_def jonesTable_def update_fold)

subsection \<open>Evaluation\<close>

lemma reflectLoop_numeral: "reflectLoop (numeral k) poly x =
    (let poly' = drop_bit 1 poly in reflectLoop (pred_numeral k) poly' (push_bit 1 x OR (poly' AND 1)))"
  by (simp add: numeral_eq_Suc)

lemma reflect_Jones: "reflect Jones = 0x95ac9329ac4bc9b5"
  by (simp add: reflect_def Jones_def reflectLoop_numeral)

lemma crcByte_iter: "crcByte poly c v = crcBit poly (crcBit poly (crcBit poly (crcBit poly
    (crcBit poly (crcBit poly (crcBit poly (crcBit poly (c XOR ucast v))))))))"
  by (simp add: crcByte_def numeral_eq_Suc)

subsection \<open>Properties\<close>

text \<open>
  C34: \<open>update\<close> computes the bit-serial CRC register of the polynomial on every one of its
  paths (precomputed slicing tables, tables built on the fly, one byte at a time): each
  byte is added to the low end of the register, which is then shifted eight times.
\<close>

theorem update_is_bit_serial:
  "update c (makeTable poly) p = foldl (\<lambda>c v. (crcBit poly ^^ 8) (c XOR ucast v)) c p"
  by (simp only: update_fold crcByte_def [abs_def])

text \<open>
  The digest does not depend on how the bytes were cut into writes: after any sequence
  of writes to a new digest the register is the checksum of the concatenation.
\<close>

theorem digest_chunks:
  "crc (foldl digestWrite newDigest chunks) = checksum (concat chunks) jonesTable"
proof -
  have "jones_digest d \<Longrightarrow> foldl digestWrite d chunks = digestWrite d (concat chunks)" for d
    by (induction chunks arbitrary: d) (simp_all add: digestWrite_append digestWrite_Nil)
  then have "foldl digestWrite newDigest chunks = digestWrite newDigest (concat chunks)" by simp
  then show ?thesis by (simp add: digestWrite_def checksum_def newDigest_def)
qed

text \<open>
  The checksum of the nine bytes \<^verbatim>\<open>123456789\<close>, the check value the package comment gives
  for the Jones polynomial.  The register starts at zero, although the same comment lists
  an initial value of all ones.
\<close>

theorem checksum_check_value:
  "checksum (strlit ''123456789'') jonesTable = 0xe9c6d914c4b8d9ca"
proof -
  have "strlit ''123456789'' = [49, 50, 51, 52, 53, 54, 55, 56, 57]"
    by (simp add: strlit_def)
  then show ?thesis
    unfolding checksum_def jonesTable_def update_fold reflect_Jones
    by (simp add: crcByte_iter crcBit_def)
qed

end
