(* ===== verification/Lzf.thy ===== *)
theory Lzf
  imports Prelude
begin

section \<open>LZF compression (lzf/lzf.go)\<close>

text \<open>
  \<open>Decompress\<close> keeps the part of the output array that has been written
  (\<^verbatim>\<open>output[:outputIndex]\<close>; a back reference only reads from it) and the part of the
  input not yet consumed.  \<open>Compress\<close> keeps the whole output array, of the length of the
  input, the hash table and the loop's indices; a write outside the output array and a
  read outside the input are panics.  The theorem is that whatever \<open>Compress\<close> returns
  decompresses to its input, and that on inputs of two bytes or more it never panics and never
  returns more than it was given.
\<close>

definition maxOff :: nat where "maxOff = 2 ^ 13"
definition maxLit :: nat where "maxLit = 2 ^ 5"
definition maxRef :: nat where "maxRef = 2 ^ 8 + 2 ^ 3"
definition htabLog :: nat where "htabLog = 14"

definition errInsufficientBuffer :: go_error where
  "errInsufficientBuffer = Msg ''insufficient buffer''"
definition errDataCorruption :: go_error where
  "errDataCorruption = Msg ''data corruption''"

subsection \<open>Decompression\<close>

text \<open>The byte-by-byte copy of a back reference, whose source may overlap its target.\<close>

fun copyRef :: "nat \<Rightarrow> nat \<Rightarrow> bytes \<Rightarrow> bytes" where
  "copyRef 0 r out = out"
| "copyRef (Suc n) r out = copyRef n (Suc r) (out @ [out ! r])"

definition backRef :: "nat \<Rightarrow> nat \<Rightarrow> nat \<Rightarrow> bytes \<Rightarrow> bytes res" where
  "backRef outLen len off out =
     (let r = int (length out) - int off - 1
      in if outLen < length out + len + 2 then Inl errDataCorruption
         else if r < 0 then Inl errDataCorruption
         else Inr (copyRef (len + 2) (nat r) out))"

function decompressLoop :: "nat \<Rightarrow> bytes \<Rightarrow> bytes \<Rightarrow> bytes res" where
  "decompressLoop outLen [] out = Inr out"
| "decompressLoop outLen (c # inp) out =
     (let ctrl = unat c in
      if ctrl < 32 then
        (if outLen < length out + (ctrl + 1) then Inl errInsufficientBuffer
         else if length inp < ctrl + 1 then Inl errDataCorruption
         else decompressLoop outLen (drop (ctrl + 1) inp) (out @ take (ctrl + 1) inp))
      else
        (let len = ctrl div 32; high = ctrl mod 32 * 256 in
         case inp of
           [] \<Rightarrow> Inl errDataCorruption
         | b # inp' \<Rightarrow>
             if len = 7 then
               (case inp' of
                  [] \<Rightarrow> Inl errDataCorruption
                | b' # inp'' \<Rightarrow>
                    (case backRef outLen (len + unat b) (high + unat b') out of
                       Inl e \<Rightarrow> Inl e
                     | Inr out' \<Rightarrow> decompressLoop outLen inp'' out'))
             else
               (case backRef outLen len (high + unat b) out of
                  Inl e \<Rightarrow> Inl e
                | Inr out' \<Rightarrow> decompressLoop outLen inp' out')))"
  by pat_completeness auto
termination by (relation "measure (\<lambda>(n, inp, out). length inp)") auto

definition Decompress :: "bytes \<Rightarrow> int \<Rightarrow> int \<Rightarrow> bytes res" where
  "Decompress inp inLen outLen =
     (if inLen < 0 \<or> int (length inp) < inLen then Inl (GoPanic ''slice bounds out of range'')
      else if outLen < 0 \<or> maxAlloc < outLen then Inl (GoPanic ''makeslice: size out of range'')
      else if inLen = 0 then Inr []
      else decompressLoop (nat outLen) (take (nat inLen) inp) [])"

subsection \<open>Compression\<close>

record lzst =
  htab :: "nat \<Rightarrow> u32"
  outBuf :: bytes
  ii :: nat
  oi :: nat
  lit :: nat
  hval :: u32

definition setOut :: "int \<Rightarrow> byte \<Rightarrow> (lzst, unit) gom" where
  "setOut i v s =
     (if 0 \<le> i \<and> i < int (length (outBuf s)) then (Inr (), s\<lparr>outBuf := (outBuf s)[nat i := v]\<rparr>)
      else (Inl (GoPanic ''index out of range''), s))"

definition hslot :: "u32 \<Rightarrow> nat" where
  "hslot h = unat ((drop_bit (24 - htabLog) h - h * 5) AND mask htabLog)"

text \<open>An index expression on the input panics out of range.\<close>

definition inAt :: "bytes \<Rightarrow> nat \<Rightarrow> (lzst, byte) gom" where
  "inAt inp i s = (if i < length inp then Inr (inp ! i) else Inl (GoPanic ''index out of range''), s)"

definition getHval :: "bytes \<Rightarrow> nat \<Rightarrow> (lzst, u32) gom" where
  "getHval inp i = bnd (inAt inp i) (\<lambda>a. bnd (inAt inp (i + 1)) (\<lambda>b. ret (push_bit 8 (ucast a) OR ucast b)))"

definition nextHval :: "u32 \<Rightarrow> byte \<Rightarrow> u32" where
  "nextHval h b = push_bit 8 h OR ucast b"

text \<open>The comparisons of the match test, left to right; a difference ends it.\<close>

definition sameAt :: "bytes \<Rightarrow> nat \<Rightarrow> nat \<Rightarrow> (lzst, bool) gom" where
  "sameAt inp i j = bnd (inAt inp i) (\<lambda>a. bnd (inAt inp j) (\<lambda>b. ret (a = b)))"

definition andAlso :: "(lzst, bool) gom \<Rightarrow> (lzst, bool) gom \<Rightarrow> (lzst, bool) gom" where
  "andAlso m n = bnd m (\<lambda>x. if x then n else ret False)"

definition candidate :: "bytes \<Rightarrow> u32 \<Rightarrow> u32 \<Rightarrow> nat \<Rightarrow> (lzst, bool) gom" where
  "candidate inp off r i =
     (if unat off < maxOff \<and> 0 < r
      then andAlso (sameAt inp (unat r) i)
        (andAlso (sameAt inp (unat (r + 1)) (i + 1)) (sameAt inp (unat (r + 2)) (i + 2)))
      else ret False)"

text \<open>The inner loop that extends a match of three bytes.\<close>

function matchLen :: "bytes \<Rightarrow> nat \<Rightarrow> nat \<Rightarrow> nat \<Rightarrow> nat \<Rightarrow> (lzst, nat) gom" where
  "matchLen inp r i maxLen len =
     (let len' = len + 1
      in if maxLen \<le> len' then ret len'
         else bnd (sameAt inp (r + len') (i + len')) (\<lambda>same.
              if \<not> same then ret len' else matchLen inp r i maxLen len'))"
  by pat_completeness auto
termination by (relation "measure (\<lambda>(inp, r, i, maxLen, len). maxLen - len)") auto

declare matchLen.simps [simp del]

text \<open>The branch taken on a match; the result says whether the outer loop breaks.\<close>

definition emitRef :: "nat \<Rightarrow> nat \<Rightarrow> (lzst, unit) gom" where
  "emitRef off len s =
     bnd (if len < 7
          then bnd (setOut (int (oi s)) (of_nat (off div 256 + len * 32)))
                 (\<lambda>_ s. (Inr (), s\<lparr>oi := oi s + 1\<rparr>))
          else bnd (setOut (int (oi s)) (of_nat (off div 256 + 7 * 32)))
                 (\<lambda>_. bnd (setOut (int (oi s) + 1) (of_nat (len - 7)))
                 (\<lambda>_ s. (Inr (), s\<lparr>oi := oi s + 2\<rparr>))))
       (\<lambda>_ s. bnd (setOut (int (oi s)) (of_nat off))
       (\<lambda>_ s. (Inr (), s\<lparr>oi := oi s + 2\<rparr>)) s) s"

definition rehash :: "bytes \<Rightarrow> (lzst, unit) gom" where
  "rehash inp s =
     (let i = ii s - 2 in
      bnd (getHval inp i) (\<lambda>h. bnd (inAt inp (i + 2)) (\<lambda>b s.
        let h1 = nextHval h b; s1 = s\<lparr>htab := (htab s)(hslot h1 := of_nat i)\<rparr> in
        bnd (inAt inp (i + 3)) (\<lambda>b' s.
          let h2 = nextHval h1 b'
          in (Inr (), s\<lparr>htab := (htab s)(hslot h2 := of_nat (i + 1)), hval := h2\<rparr>)) s1)) s)"

definition matchStep :: "bytes \<Rightarrow> nat \<Rightarrow> nat \<Rightarrow> (lzst, bool) gom" where
  "matchStep inp r off s =
     (let maxLen = min (length inp - ii s - 2) maxRef;
          nlit = (if lit s = 0 then 1 else 0)
      in if length (outBuf s) \<le> oi s + 3 + 1 \<and> length (outBuf s) \<le> oi s - nlit + 3 + 1
         then (Inl errInsufficientBuffer, s)
         else bnd (setOut (int (oi s) - int (lit s) - 1) (of_int (int (lit s) - 1)))
            (\<lambda>_ s. bnd (matchLen inp r (ii s) maxLen 2) (\<lambda>len.
                   bnd (emitRef off (len - 2)) (\<lambda>_ s'.
                     let s'' = s'\<lparr>lit := 0, ii := ii s' + len\<rparr>
                     in if length inp \<le> ii s'' + 2 then (Inr True, s'')
                        else bnd (rehash inp) (\<lambda>_. ret False) s''))
            (s\<lparr>oi := oi s - nlit\<rparr>)) s)"

text \<open>The branch that copies one literal byte.\<close>

definition flushRun :: "(lzst, unit) gom" where
  "flushRun s =
     (if lit s = maxLit
      then bnd (setOut (int (oi s) - int (lit s) - 1) (of_int (int (lit s) - 1)))
             (\<lambda>_ s. (Inr (), s\<lparr>lit := 0, oi := oi s + 1\<rparr>)) s
      else (Inr (), s))"

definition putLit :: "bytes \<Rightarrow> (lzst, unit) gom" where
  "putLit inp s =
     bnd (inAt inp (ii s)) (\<lambda>b. bnd (setOut (int (oi s)) b)
       (\<lambda>_ s. flushRun (s\<lparr>lit := lit s + 1, oi := oi s + 1, ii := ii s + 1\<rparr>))) s"

definition litStep :: "bytes \<Rightarrow> (lzst, bool) gom" where
  "litStep inp s =
     (if length (outBuf s) \<le> oi s then (Inl errInsufficientBuffer, s)
      else bnd (putLit inp) (\<lambda>_. ret False) s)"

definition compressStep :: "bytes \<Rightarrow> (lzst, bool) gom" where
  "compressStep inp s =
     bnd (inAt inp (ii s + 2)) (\<lambda>b s.
       let h = nextHval (hval s) b;
           r = htab s (hslot h);
           off = of_nat (ii s) - r - 1
       in bnd (candidate inp off r (ii s))
            (\<lambda>found. if found then matchStep inp (unat r) (unat off) else litStep inp)
            (s\<lparr>hval := h, htab := (htab s)(hslot h := of_nat (ii s))\<rparr>)) s"

text \<open>Facts needed for termination: every iteration moves the input index.\<close>

lemma setOut_Inr:
  "setOut i v s = (Inr u, s') \<longleftrightarrow>
     0 \<le> i \<and> i < int (length (outBuf s)) \<and> s' = s\<lparr>outBuf := (outBuf s)[nat i := v]\<rparr>"
  by (auto simp: setOut_def)

lemma inAt_Inr: "inAt inp i s = (Inr b, s') \<longleftrightarrow> i < length inp \<and> b = inp ! i \<and> s' = s"
  by (auto simp: inAt_def)

lemma sameAt_state: "sameAt inp i j s = (Inr b, s') \<Longrightarrow> s' = s"
  by (auto simp: sameAt_def bnd_eq_Inr_iff inAt_Inr ret_def)

lemma andAlso_state:
  "andAlso m n s = (Inr b, s') \<Longrightarrow> (\<And>x t. m s = (Inr x, t) \<Longrightarrow> t = s) \<Longrightarrow> (\<And>x t. n s = (Inr x, t) \<Longrightarrow> t = s) \<Longrightarrow> s' = s"
  by (fastforce simp: andAlso_def bnd_eq_Inr_iff ret_def split: if_splits)

lemma matchLen_Inr: "matchLen inp r i maxLen len s = (Inr l, s') \<Longrightarrow> len < l \<and> s' = s"
proof (induction "maxLen - len" arbitrary: len s)
  case (Suc n)
  show ?case
  proof (cases "maxLen \<le> len + 1")
    case False
    with Suc.prems obtain same t where same: "sameAt inp (r + (len + 1)) (i + (len + 1)) s = (Inr same, t)"
      and rest: "(if \<not> same then ret (len + 1) else matchLen inp r i maxLen (len + 1)) t = (Inr l, s')"
      unfolding matchLen.simps [of inp r i maxLen len] Let_def if_not_P [OF False] bnd_eq_Inr_iff by blast
    from same have "t = s" by (rule sameAt_state)
    moreover have "n = maxLen - (len + 1)" using Suc.hyps(2) by simp
    ultimately show ?thesis using rest Suc.hyps(1) [of "len + 1" s] by (cases same) (auto simp: ret_def)
  qed (use Suc.prems in \<open>simp add: matchLen.simps [of inp r i maxLen len] ret_def\<close>)
qed (simp add: matchLen.simps ret_def)

lemma emitRef_ii: "emitRef off len s = (Inr u, s') \<Longrightarrow> ii s' = ii s"
  by (auto simp: emitRef_def bnd_eq_Inr_iff setOut_Inr split: if_splits)

lemma flushRun_ii: "flushRun s = (Inr u, s') \<Longrightarrow> ii s' = ii s"
  by (auto simp: flushRun_def bnd_eq_Inr_iff setOut_Inr split: if_splits)

lemma rehash_ii: "rehash inp s = (Inr u, s') \<Longrightarrow> ii s' = ii s"
  by (auto simp: rehash_def getHval_def Let_def bnd_eq_Inr_iff inAt_Inr ret_def)

lemma putLit_ii: "putLit inp s = (Inr u, s') \<Longrightarrow> ii s' = ii s + 1"
  by (auto simp: putLit_def bnd_eq_Inr_iff setOut_Inr inAt_Inr dest: flushRun_ii)

lemma matchStep_ii: "matchStep inp r off s = (Inr b, s') \<Longrightarrow> ii s < ii s'"
  by (auto simp: matchStep_def Let_def bnd_eq_Inr_iff setOut_Inr ret_def
      dest!: emitRef_ii rehash_ii matchLen_Inr split: if_splits)

lemma litStep_ii: "litStep inp s = (Inr b, s') \<Longrightarrow> ii s < ii s'"
  by (auto simp: litStep_def bnd_eq_Inr_iff ret_def dest!: putLit_ii split: if_splits)

lemma candidate_state: "candidate inp off r i s = (Inr b, s') \<Longrightarrow> s' = s"
  by (auto simp: candidate_def ret_def dest!: andAlso_state dest: sameAt_state split: if_splits)

lemma compressStep_ii: "compressStep inp s = (Inr b, s') \<Longrightarrow> ii s < ii s'"
  by (fastforce simp: compressStep_def Let_def bnd_eq_Inr_iff inAt_Inr
      dest!: candidate_state dest: matchStep_ii litStep_ii split: if_splits)

function compressLoop :: "bytes \<Rightarrow> (lzst, unit) gom" where
  "compressLoop inp s =
     (if ii s + 2 < length inp
      then bnd (compressStep inp) (\<lambda>stop s. if stop then (Inr (), s) else compressLoop inp s) s
      else (Inr (), s))"
  by pat_completeness auto
termination
  by (relation "measure (\<lambda>(inp, s). length inp - ii s)") (auto dest!: compressStep_ii)

declare compressLoop.simps [simp del]

text \<open>The loop that copies what is left (at most two bytes in practice).\<close>

function tailLoop :: "bytes \<Rightarrow> (lzst, unit) gom" where
  "tailLoop inp s =
     (if ii s < length inp then bnd (putLit inp) (\<lambda>_. tailLoop inp) s else (Inr (), s))"
  by pat_completeness auto
termination
  by (relation "measure (\<lambda>(inp, s). length inp - ii s)") (auto dest!: putLit_ii)

declare tailLoop.simps [simp del]

definition endRun :: "(lzst, bytes) gom" where
  "endRun s =
     bnd (setOut (int (oi s) - int (lit s) - 1) (of_int (int (lit s) - 1)))
       (\<lambda>_ s. let s' = (if lit s = 0 then s\<lparr>oi := oi s - 1\<rparr> else s)
              in (Inr (take (oi s') (outBuf s')), s')) s"

definition Compress :: "bytes \<Rightarrow> bytes res" where
  "Compress inp =
     (if length inp = 0 then Inr []
      else fst (bnd (getHval inp 0) (\<lambda>h s.
             bnd (compressLoop inp)
               (\<lambda>_ s. if length (outBuf s) \<le> oi s + 3 then (Inl errInsufficientBuffer, s)
                      else bnd (tailLoop inp) (\<lambda>_. endRun) s) (s\<lparr>hval := h\<rparr>))
             \<lparr>htab = (\<lambda>_. 0), outBuf = replicate (length inp) 0, ii = 0, oi = 1, lit = 0, hval = 0\<rparr>))"

subsection \<open>The compressor without the checks of the reads\<close>

text \<open>
  The same steps with reads that are never out of range.  The invariant below is proved of
  them, and from it that every read of the compressor is in range, so that the two are the
  same on every input but one of a single byte (\<open>Compress_unchecked\<close>).
\<close>

definition getHvalT :: "bytes \<Rightarrow> nat \<Rightarrow> u32" where
  "getHvalT inp i = push_bit 8 (ucast (inp ! i)) OR ucast (inp ! (i + 1))"

text \<open>The inner loop that extends a match of three bytes.\<close>

function matchLenT :: "bytes \<Rightarrow> nat \<Rightarrow> nat \<Rightarrow> nat \<Rightarrow> nat \<Rightarrow> nat" where
  "matchLenT inp r i maxLen len =
     (let len' = len + 1
      in if maxLen \<le> len' \<or> inp ! (r + len') \<noteq> inp ! (i + len') then len'
         else matchLenT inp r i maxLen len')"
  by pat_completeness auto
termination by (relation "measure (\<lambda>(inp, r, i, maxLen, len). maxLen - len)") auto

declare matchLenT.simps [simp del]

text \<open>The branch taken on a match; the result says whether the outer loop breaks.\<close>

definition rehashT :: "bytes \<Rightarrow> lzst \<Rightarrow> lzst" where
  "rehashT inp s =
     (let i = ii s - 2;
          h1 = nextHval (getHvalT inp i) (inp ! (i + 2));
          h2 = nextHval h1 (inp ! (i + 3))
      in s\<lparr>htab := (htab s)(hslot h1 := of_nat i, hslot h2 := of_nat (i + 1)), hval := h2\<rparr>)"

definition matchStepT :: "bytes \<Rightarrow> nat \<Rightarrow> nat \<Rightarrow> (lzst, bool) gom" where
  "matchStepT inp r off s =
     (let maxLen = min (length inp - ii s - 2) maxRef;
          nlit = (if lit s = 0 then 1 else 0)
      in if length (outBuf s) \<le> oi s + 3 + 1 \<and> length (outBuf s) \<le> oi s - nlit + 3 + 1
         then (Inl errInsufficientBuffer, s)
         else bnd (setOut (int (oi s) - int (lit s) - 1) (of_int (int (lit s) - 1)))
            (\<lambda>_ s. bnd (emitRef off (matchLenT inp r (ii s) maxLen 2 - 2))
            (\<lambda>_ s'. let s'' = s'\<lparr>lit := 0, ii := ii s' + matchLenT inp r (ii s) maxLen 2\<rparr>
               in if length inp \<le> ii s'' + 2 then (Inr True, s'')
                  else (Inr False, rehashT inp s''))
            (s\<lparr>oi := oi s - nlit\<rparr>)) s)"

text \<open>The branch that copies one literal byte.\<close>

definition putLitT :: "bytes \<Rightarrow> (lzst, unit) gom" where
  "putLitT inp s =
     bnd (setOut (int (oi s)) (inp ! ii s))
       (\<lambda>_ s. flushRun (s\<lparr>lit := lit s + 1, oi := oi s + 1, ii := ii s + 1\<rparr>)) s"

definition litStepT :: "bytes \<Rightarrow> (lzst, bool) gom" where
  "litStepT inp s =
     (if length (outBuf s) \<le> oi s then (Inl errInsufficientBuffer, s)
      else bnd (putLitT inp) (\<lambda>_. ret False) s)"

definition compressStepT :: "bytes \<Rightarrow> (lzst, bool) gom" where
  "compressStepT inp s =
     (let h = nextHval (hval s) (inp ! (ii s + 2));
          r = htab s (hslot h);
          s' = s\<lparr>hval := h, htab := (htab s)(hslot h := of_nat (ii s))\<rparr>;
          off = of_nat (ii s) - r - 1;
          rn = unat r
      in if unat off < maxOff \<and> 0 < r \<and> inp ! rn = inp ! ii s \<and>
            inp ! (rn + 1) = inp ! (ii s + 1) \<and> inp ! (rn + 2) = inp ! (ii s + 2)
         then matchStepT inp rn (unat off) s'
         else litStepT inp s')"

text \<open>Facts needed for termination: every iteration moves the input index.\<close>

lemma matchLen_ge: "len < matchLenT inp r i maxLen len"
proof (induction inp r i maxLen len rule: matchLenT.induct)
  case (1 inp r i maxLen len)
  then show ?case by (subst matchLenT.simps) (auto simp: Let_def intro: Suc_lessD)
qed

lemma putLitT_ii: "putLitT inp s = (Inr u, s') \<Longrightarrow> ii s' = ii s + 1"
  by (auto simp: putLitT_def bnd_eq_Inr_iff setOut_Inr dest: flushRun_ii)

lemma matchStepT_ii: "matchStepT inp r off s = (Inr b, s') \<Longrightarrow> ii s < ii s'"
  using matchLen_ge [of 2 inp r "ii s" "min (length inp - ii s - 2) maxRef"]
  by (auto simp: matchStepT_def Let_def bnd_eq_Inr_iff setOut_Inr rehashT_def
      dest!: emitRef_ii split: if_splits)

lemma litStepT_ii: "litStepT inp s = (Inr b, s') \<Longrightarrow> ii s < ii s'"
  by (auto simp: litStepT_def bnd_eq_Inr_iff ret_def dest!: putLitT_ii split: if_splits)

lemma compressStepT_ii: "compressStepT inp s = (Inr b, s') \<Longrightarrow> ii s < ii s'"
  by (auto simp: compressStepT_def Let_def dest!: matchStepT_ii litStepT_ii split: if_splits)

function compressLoopT :: "bytes \<Rightarrow> (lzst, unit) gom" where
  "compressLoopT inp s =
     (if ii s + 2 < length inp
      then bnd (compressStepT inp) (\<lambda>stop s. if stop then (Inr (), s) else compressLoopT inp s) s
      else (Inr (), s))"
  by pat_completeness auto
termination
  by (relation "measure (\<lambda>(inp, s). length inp - ii s)") (auto dest!: compressStepT_ii)

declare compressLoopT.simps [simp del]

text \<open>The loop that copies what is left (at most two bytes in practice).\<close>

function tailLoopT :: "bytes \<Rightarrow> (lzst, unit) gom" where
  "tailLoopT inp s =
     (if ii s < length inp then bnd (putLitT inp) (\<lambda>_. tailLoopT inp) s else (Inr (), s))"
  by pat_completeness auto
termination
  by (relation "measure (\<lambda>(inp, s). length inp - ii s)") (auto dest!: putLitT_ii)

declare tailLoopT.simps [simp del]

definition CompressT :: "bytes \<Rightarrow> bytes res" where
  "CompressT inp =
     (if length inp = 0 then Inr []
      else if length inp = 1 then Inl (GoPanic ''index out of range'')
      else fst (bnd (compressLoopT inp)
             (\<lambda>_ s. if length (outBuf s) \<le> oi s + 3 then (Inl errInsufficientBuffer, s)
                    else bnd (tailLoopT inp) (\<lambda>_. endRun) s)
             \<lparr>htab = (\<lambda>_. 0), outBuf = replicate (length inp) 0, ii = 0, oi = 1, lit = 0,
              hval = getHvalT inp 0\<rparr>))"

subsection \<open>Token streams\<close>

text \<open>\<open>expands t d\<close>: the tokens \<open>t\<close> expand to the data \<open>d\<close>.\<close>

inductive expands :: "bytes \<Rightarrow> bytes \<Rightarrow> bool" where
  empty: "expands [] []"
| run: "expands t d \<Longrightarrow> 1 \<le> length l \<Longrightarrow> length l \<le> 32 \<Longrightarrow>
    expands (t @ of_nat (length l - 1) # l) (d @ l)"
| short: "expands t d \<Longrightarrow> off < 8192 \<Longrightarrow> off < length d \<Longrightarrow> 1 \<le> len \<Longrightarrow> len < 7 \<Longrightarrow>
    expands (t @ [of_nat (off div 256 + len * 32), of_nat off])
      (copyRef (len + 2) (length d - off - 1) d)"
| long: "expands t d \<Longrightarrow> off < 8192 \<Longrightarrow> off < length d \<Longrightarrow> 7 \<le> len \<Longrightarrow> len < 263 \<Longrightarrow>
    expands (t @ [of_nat (off div 256 + 7 * 32), of_nat (len - 7), of_nat off])
      (copyRef (len + 2) (length d - off - 1) d)"

lemma length_copyRef [simp]: "length (copyRef n r out) = length out + n"
  by (induction n r out rule: copyRef.induct) auto

lemma unat_of_nat_small: "n < 256 \<Longrightarrow> unat (of_nat n :: byte) = n"
  by (simp add: unat_of_nat)

lemma unat_of_nat_byte_mod: "unat (of_nat n :: byte) = n mod 256"
  by (simp add: unat_of_nat)

lemma token_long: "(q::nat) < 32 \<Longrightarrow> (q + 224) div 32 = 7" "q < 32 \<Longrightarrow> (q + 224) mod 32 = q"
  using div_mult_self1 [of 32 q 7] mod_mult_self1 [of q 7 32] by simp_all

lemma nat_int_sub: "b < a \<Longrightarrow> nat (int a - int b - 1) = a - b - 1"
  by simp

lemma backRef_ok:
  "off < length d \<Longrightarrow> length d + len + 2 \<le> n \<Longrightarrow>
   backRef n len off d = Inr (copyRef (len + 2) (length d - off - 1) d)"
  by (simp add: backRef_def Let_def nat_int_sub del: copyRef.simps)

lemma decompress_expands:
  "expands t d \<Longrightarrow> length d \<le> n \<Longrightarrow> decompressLoop n (t @ r) [] = decompressLoop n r d"
proof (induction t d arbitrary: r rule: expands.induct)
  case empty
  then show ?case by simp
next
  case (run t d l)
  have c: "unat (of_nat (length l - 1) :: byte) = length l - 1"
    using run.hyps by (intro unat_of_nat_small) linarith
  from run have "decompressLoop n (t @ of_nat (length l - 1) # l @ r) [] =
      decompressLoop n (of_nat (length l - 1) # l @ r) d" by simp
  also have "\<dots> = decompressLoop n r (d @ l)"
    using run.hyps run.prems c by (cases l) (simp_all add: Let_def)
  finally show ?case by simp
next
  case (short t d off len)
  have c: "unat (of_nat (off div 256 + len * 32) :: byte) = off div 256 + len * 32"
    using short.hyps by (intro unat_of_nat_small) linarith
  have parts: "(off div 256 + len * 32) div 32 = len" "(off div 256 + len * 32) mod 32 = off div 256"
    using short.hyps by auto
  have "decompressLoop n (t @ of_nat (off div 256 + len * 32) # of_nat off # r) [] =
      decompressLoop n (of_nat (off div 256 + len * 32) # of_nat off # r) d"
    using short by simp
  also have "\<dots> = decompressLoop n r (copyRef (len + 2) (length d - off - 1) d)"
    using short.hyps short.prems
    by (simp add: Let_def c parts unat_of_nat_byte_mod backRef_ok del: copyRef.simps of_nat_add of_nat_mult)
  finally show ?case by simp
next
  case (long t d off len)
  have c: "unat (of_nat (off div 256 + 224) :: byte) = off div 256 + 224"
    using long.hyps by (intro unat_of_nat_small) linarith
  have q: "off div 256 < 32" using long.hyps by linarith
  then have parts: "(off div 256 + 224) div 32 = 7" "(off div 256 + 224) mod 32 = off div 256"
    by (simp_all add: token_long)
  have l: "unat (of_nat (len - 7) :: byte) = len - 7"
    using long.hyps by (intro unat_of_nat_small) linarith
  have "decompressLoop n (t @ of_nat (off div 256 + 7 * 32) # of_nat (len - 7) # of_nat off # r) [] =
      decompressLoop n (of_nat (off div 256 + 7 * 32) # of_nat (len - 7) # of_nat off # r) d"
    using long by simp
  also have "\<dots> = decompressLoop n r (copyRef (len + 2) (length d - off - 1) d)"
    using long.hyps long.prems
    by (simp add: Let_def c parts l unat_of_nat_byte_mod backRef_ok del: copyRef.simps of_nat_add of_nat_mult of_nat_diff)
  finally show ?case by simp
qed

text \<open>A match copies what is already there.\<close>

lemma copyRef_take:
  assumes "r < i" and "i + n \<le> length inp" and "\<forall>j < n. inp ! (r + j) = inp ! (i + j)"
  shows "copyRef n r (take i inp) = take (i + n) inp"
  using assms
proof (induction n arbitrary: r i)
  case (Suc n)
  have "take i inp @ [take i inp ! r] = take (Suc i) inp"
    using Suc.prems by (simp add: take_Suc_conv_app_nth)
      (metis add.right_neutral zero_less_Suc)
  moreover have "copyRef n (Suc r) (take (Suc i) inp) = take (Suc i + n) inp"
    using Suc.prems by (intro Suc.IH) (auto dest: spec [of _ "Suc _"])
  ultimately show ?case by simp
qed simp

lemma matchLen_spec:
  assumes "\<forall>j \<le> len. inp ! (r + j) = inp ! (i + j)" and "j < matchLenT inp r i maxLen len"
  shows "inp ! (r + j) = inp ! (i + j)"
  using assms
proof (induction inp r i maxLen len rule: matchLenT.induct)
  case (1 inp r i maxLen len)
  show ?case
  proof (cases "maxLen \<le> len + 1 \<or> inp ! (r + (len + 1)) \<noteq> inp ! (i + (len + 1))")
    case True
    with "1.prems" show ?thesis by (simp add: matchLenT.simps [of inp r i maxLen len])
  next
    case False
    have "\<forall>j \<le> len + 1. inp ! (r + j) = inp ! (i + j)"
      using "1.prems"(1) False by (auto simp: le_Suc_eq)
    with "1.IH" [OF refl] False "1.prems"(2) show ?thesis
      by (simp add: matchLenT.simps [of inp r i maxLen len])
  qed
qed

lemma matchLen_le: "matchLenT inp r i maxLen len \<le> max (len + 1) maxLen"
proof (induction inp r i maxLen len rule: matchLenT.induct)
  case (1 inp r i maxLen len)
  then show ?case by (subst matchLenT.simps) (auto simp: Let_def)
qed

subsection \<open>The invariant of the compressor\<close>

definition pending :: "bytes \<Rightarrow> lzst \<Rightarrow> bool" where
  "pending inp s \<longleftrightarrow>
     length (outBuf s) = length inp \<and> lit s \<le> 32 \<and> lit s < oi s \<and> lit s \<le> ii s \<and>
     ii s \<le> length inp \<and> (0 < lit s \<longrightarrow> oi s \<le> length inp) \<and>
     expands (take (oi s - lit s - 1) (outBuf s)) (take (ii s - lit s) inp) \<and>
     take (lit s) (drop (oi s - lit s) (outBuf s)) = take (lit s) (drop (ii s - lit s) inp)"

definition seenBelow :: "nat \<Rightarrow> lzst \<Rightarrow> bool" where
  "seenBelow n s \<longleftrightarrow> (\<forall>h. htab s h = 0 \<or> unat (htab s h) < n)"

lemma take_update_Suc: "n < length xs \<Longrightarrow> take (Suc n) (xs[n := v]) = take n xs @ [v]"
  by (simp add: take_Suc_conv_app_nth)

lemma take_split: "a \<le> b \<Longrightarrow> take b xs = take a xs @ take (b - a) (drop a xs)"
  by (metis le_add_diff_inverse take_add)

lemma take_mid:
  assumes "Suc p + n \<le> length xs"
  shows "take (Suc p + n) (xs[p := v]) = take p xs @ v # take n (drop (Suc p) xs)"
proof -
  have "take (Suc p + n) (xs[p := v]) = take (Suc p) (xs[p := v]) @ take n (drop (Suc p) (xs[p := v]))"
    by (rule take_add)
  with assms show ?thesis by (simp add: take_update_Suc del: take_Suc)
qed

text \<open>Closing a run: its length byte goes to the place reserved for it.\<close>

lemma close_run:
  assumes "pending inp s" and "0 < lit s"
  shows "expands (take (oi s) ((outBuf s)[oi s - lit s - 1 := of_nat (lit s - 1)])) (take (ii s) inp)"
proof -
  let ?p = "oi s - lit s - 1"
  let ?l = "take (lit s) (drop (ii s - lit s) inp)"
  have b: "oi s \<le> length (outBuf s)" "lit s < oi s" "lit s \<le> ii s" "ii s \<le> length inp" "lit s \<le> 32"
    using assms by (auto simp: pending_def)
  have out: "take (oi s) ((outBuf s)[?p := of_nat (lit s - 1)]) =
      take ?p (outBuf s) @ of_nat (lit s - 1) # ?l"
  proof -
    have "oi s = Suc ?p + lit s" "Suc ?p = oi s - lit s" using b by simp_all
    then show ?thesis
      using b assms take_mid [of ?p "lit s" "outBuf s" "of_nat (lit s - 1)"] by (simp add: pending_def)
  qed
  have len: "length ?l = lit s" using b by simp
  have "expands (take ?p (outBuf s) @ of_nat (length ?l - 1) # ?l) (take (ii s - lit s) inp @ ?l)"
    using assms b len by (intro expands.run) (auto simp: pending_def)
  moreover have "take (ii s - lit s) inp @ ?l = take (ii s) inp"
    using take_split [of "ii s - lit s" "ii s" inp] b by simp
  ultimately show ?thesis unfolding out using len by simp
qed

lemma of_int_pred: "0 < n \<Longrightarrow> of_int (int n - 1) = (of_nat (n - 1) :: 'a::ring_1)"
  by (metis One_nat_def Suc_leI of_int_of_nat_eq of_nat_1 of_nat_diff)

lemma flushRun_pending:
  assumes "pending inp s" and "flushRun s = (Inr u, s')" and "oi s \<le> length inp"
  shows "pending inp s' \<and> lit s' < 32 \<and> ii s' = ii s \<and> htab s' = htab s"
proof (cases "lit s = maxLit")
  case True
  then have l: "lit s = 32" by (simp add: maxLit_def)
  have b: "length (outBuf s) = length inp" "lit s < oi s" using assms by (auto simp: pending_def)
  have s': "s' = s\<lparr>outBuf := (outBuf s)[oi s - 32 - 1 := of_nat 31], lit := 0, oi := oi s + 1\<rparr>"
    using assms(2) l b of_int_pred [of "lit s", where 'a="8 word"]
    by (auto simp: flushRun_def bnd_eq_Inr_iff setOut_Inr maxLit_def nat_diff_distrib')
  with close_run [OF assms(1)] l assms show ?thesis
    by (auto simp: pending_def)
next
  case False
  then show ?thesis using assms by (auto simp: flushRun_def pending_def maxLit_def)
qed

lemma putLit_pending:
  assumes p: "pending inp s" and "lit s < 32" and i: "ii s < length inp" and e: "putLitT inp s = (Inr u, s')"
  shows "pending inp s' \<and> lit s' < 32 \<and> ii s' = ii s + 1 \<and> htab s' = htab s"
proof -
  let ?t = "s\<lparr>outBuf := (outBuf s)[oi s := inp ! ii s], lit := lit s + 1, oi := oi s + 1, ii := ii s + 1\<rparr>"
  have b: "oi s < length (outBuf s)" and f: "flushRun ?t = (Inr u, s')"
    using e by (auto simp: putLitT_def bnd_eq_Inr_iff setOut_Inr)
  have eq: "take (lit s) (drop (oi s - lit s) (outBuf s)) = take (lit s) (drop (ii s - lit s) inp)"
    and le: "lit s < oi s" "lit s \<le> ii s" "length (outBuf s) = length inp"
    using p by (auto simp: pending_def)
  have "take (Suc (lit s)) (drop (oi s - lit s) ((outBuf s)[oi s := inp ! ii s])) =
      take (Suc (lit s)) (drop (ii s - lit s) inp)"
  proof -
    have "drop (oi s - lit s) ((outBuf s)[oi s := inp ! ii s]) =
        (drop (oi s - lit s) (outBuf s))[lit s := inp ! ii s]"
      using le by (simp add: drop_update_swap)
    moreover have "lit s < length (drop (oi s - lit s) (outBuf s))" using b le by simp
    ultimately have "take (Suc (lit s)) (drop (oi s - lit s) ((outBuf s)[oi s := inp ! ii s])) =
        take (lit s) (drop (ii s - lit s) inp) @ [inp ! ii s]"
      using eq by (simp add: take_update_Suc)
    also have "\<dots> = take (Suc (lit s)) (drop (ii s - lit s) inp)"
      using le i by (simp add: take_Suc_conv_app_nth)
    finally show ?thesis .
  qed
  then have "pending inp ?t"
    using p b i assms(2) by (auto simp: pending_def take_update_cancel)
  from flushRun_pending [OF this f] b le show ?thesis by simp
qed

lemma emitRef_expands:
  assumes t: "expands (take (oi s) (outBuf s)) d" and e: "emitRef off len s = (Inr u, s')"
    and b: "off < 8192" "off < length d" "1 \<le> len" "len < 263"
  shows "expands (take (oi s' - 1) (outBuf s')) (copyRef (len + 2) (length d - off - 1) d)"
    and "oi s' = oi s + (if len < 7 then 3 else 4)"
    and "length (outBuf s') = length (outBuf s) \<and> ii s' = ii s \<and> htab s' = htab s \<and> oi s < length (outBuf s)"
proof -
  let ?o = "oi s"
  consider (short) "len < 7" | (long) "7 \<le> len" by linarith
  then have "expands (take (oi s' - 1) (outBuf s')) (copyRef (len + 2) (length d - off - 1) d) \<and>
    oi s' = oi s + (if len < 7 then 3 else 4) \<and>
    length (outBuf s') = length (outBuf s) \<and> ii s' = ii s \<and> htab s' = htab s \<and> oi s < length (outBuf s)"
  proof cases
    case short
    then have o: "Suc ?o < length (outBuf s)"
      and s': "s' = s\<lparr>outBuf := (outBuf s)[?o := of_nat (off div 256 + len * 32), Suc ?o := of_nat off],
                     oi := ?o + 3\<rparr>"
      using e by (auto simp: emitRef_def bnd_eq_Inr_iff setOut_Inr nat_add_distrib)
    have "take (oi s' - 1) (outBuf s') =
        take ?o (outBuf s) @ [of_nat (off div 256 + len * 32), of_nat off]"
      using o by (simp add: s' take_Suc_conv_app_nth nth_list_update)
    with expands.short [OF t b(1,2,3) short] o short s' show ?thesis by simp
  next
    case long
    then have o: "Suc (Suc ?o) < length (outBuf s)"
      and s': "s' = s\<lparr>outBuf := (outBuf s)[?o := of_nat (off div 256 + 7 * 32),
                     Suc ?o := of_nat (len - 7), Suc (Suc ?o) := of_nat off], oi := ?o + 4\<rparr>"
      using e by (auto simp: emitRef_def bnd_eq_Inr_iff setOut_Inr nat_add_distrib numeral_2_eq_2)
    have "take (oi s' - 1) (outBuf s') =
        take ?o (outBuf s) @ [of_nat (off div 256 + 7 * 32), of_nat (len - 7), of_nat off]"
      using o by (simp add: s' numeral_3_eq_3 take_Suc_conv_app_nth nth_list_update)
    with expands.long [OF t b(1,2) long b(4)] o long s' show ?thesis by simp
  qed
  then show "expands (take (oi s' - 1) (outBuf s')) (copyRef (len + 2) (length d - off - 1) d)"
    and "oi s' = oi s + (if len < 7 then 3 else 4)"
    and "length (outBuf s') = length (outBuf s) \<and> ii s' = ii s \<and> htab s' = htab s \<and> oi s < length (outBuf s)"
    by blast+
qed

lemma seenBelow_mono: "seenBelow n s \<Longrightarrow> n \<le> m \<Longrightarrow> htab s' = htab s \<Longrightarrow> seenBelow m s'"
  by (fastforce simp: seenBelow_def)

lemma seenBelow_upd: "seenBelow n s \<Longrightarrow> k < n \<Longrightarrow> seenBelow n (s\<lparr>htab := (htab s)(h := of_nat k)\<rparr>)"
proof -
  assume "seenBelow n s" "k < n"
  moreover have "unat (of_nat k :: u32) \<le> k" by (simp add: unat_of_nat)
  ultimately show ?thesis by (auto simp: seenBelow_def)
qed

lemma rehash_seen: "seenBelow (ii s) s \<Longrightarrow> 2 \<le> ii s \<Longrightarrow> seenBelow (ii s) (rehashT inp s)"
proof -
  assume s: "seenBelow (ii s) s" "2 \<le> ii s"
  have *: "unat (of_nat k :: u32) \<le> k" for k by (simp add: unat_of_nat)
  show ?thesis
    using s *[of "ii s - 2"] *[of "Suc (ii s - 2)"]
    by (auto simp: rehashT_def Let_def seenBelow_def simp del: of_nat_Suc of_nat_diff)
qed

lemma rehash_fields [simp]:
  "outBuf (rehashT inp s) = outBuf s" "ii (rehashT inp s) = ii s" "oi (rehashT inp s) = oi s"
  "lit (rehashT inp s) = lit s"
  by (simp_all add: rehashT_def Let_def)

lemma pending_cong:
  "outBuf s' = outBuf s \<Longrightarrow> ii s' = ii s \<Longrightarrow> oi s' = oi s \<Longrightarrow> lit s' = lit s \<Longrightarrow>
   pending inp s' = pending inp s"
  by (simp add: pending_def)

lemma offset_word:
  assumes "unat (r :: u32) < i" "i < 2 ^ 32"
  shows "unat (of_nat i - r - 1 :: u32) = i - unat r - 1"
proof -
  have "of_nat i - r - 1 = (of_nat (i - unat r - 1) :: u32)"
    using assms(1) by (simp add: of_nat_diff)
  then show ?thesis using assms(2) by (simp add: unat_of_nat del: of_nat_diff)
qed

text \<open>The state right before a back reference is written: all literals closed.\<close>

definition closeRun :: "lzst \<Rightarrow> lzst" where
  "closeRun s =
     s\<lparr>outBuf := (outBuf s)[nat (int (oi s) - int (lit s) - 1) := of_int (int (lit s) - 1)],
       oi := oi s - (if lit s = 0 then 1 else 0)\<rparr>"

lemma closeRun_expands:
  assumes "pending inp s"
  shows "expands (take (oi (closeRun s)) (outBuf (closeRun s))) (take (ii s) inp)"
proof (cases "lit s = 0")
  case True
  with assms show ?thesis by (simp add: closeRun_def pending_def nat_diff_distrib')
next
  case False
  then have "nat (int (oi s) - int (lit s) - 1) = oi s - lit s - 1"
    using assms by (simp add: pending_def)
  with False close_run [OF assms] show ?thesis
    using of_int_pred [of "lit s", where 'a = "8 word"] by (simp add: closeRun_def)
qed

lemma matchStep_cases:
  assumes "matchStepT inp r off s = (Inr b, s')"
  obtains s3 u where
    "emitRef off (matchLenT inp r (ii s) (min (length inp - ii s - 2) maxRef) 2 - 2) (closeRun s) = (Inr u, s3)"
    "s' = (let s'' = s3\<lparr>lit := 0, ii := ii s3 + matchLenT inp r (ii s) (min (length inp - ii s - 2) maxRef) 2\<rparr>
           in if length inp \<le> ii s'' + 2 then s'' else rehashT inp s'')"
  using assms
  by (auto simp: matchStepT_def Let_def bnd_eq_Inr_iff setOut_Inr closeRun_def split: if_splits)

lemma matchStep_pending:
  assumes p: "pending inp s" and sn: "seenBelow (ii s + 1) s" and i: "ii s + 2 < length inp"
    and r: "r < ii s" and off: "off = ii s - r - 1" "off < 8192"
    and m: "inp ! r = inp ! ii s" "inp ! (r + 1) = inp ! (ii s + 1)" "inp ! (r + 2) = inp ! (ii s + 2)"
    and e: "matchStepT inp r off s = (Inr b, s')"
  shows "pending inp s' \<and> lit s' < 32 \<and> seenBelow (ii s') s'"
proof -
  define L where "L = matchLenT inp r (ii s) (min (length inp - ii s - 2) maxRef) 2"
  have L: "3 \<le> L" "L \<le> 264" "ii s + L \<le> length inp"
    using matchLen_ge [of 2 inp r "ii s" "min (length inp - ii s - 2) maxRef"] i
      matchLen_le [of inp r "ii s" "min (length inp - ii s - 2) maxRef" 2]
    unfolding L_def [symmetric] by (auto simp: maxRef_def max_def min_def split: if_splits)
  have same: "\<forall>j < L. inp ! (r + j) = inp ! (ii s + j)"
  proof (intro allI impI)
    fix j assume "j < L"
    then show "inp ! (r + j) = inp ! (ii s + j)"
      unfolding L_def
      by (rule matchLen_spec [rotated]) (use m in \<open>auto simp: le_Suc_eq numeral_2_eq_2\<close>)
  qed
  obtain s3 u where e3: "emitRef off (L - 2) (closeRun s) = (Inr u, s3)"
    and s': "s' = (let s'' = s3\<lparr>lit := 0, ii := ii s3 + L\<rparr>
                   in if length inp \<le> ii s'' + 2 then s'' else rehashT inp s'')"
    using matchStep_cases [OF e] unfolding L_def by blast
  have d: "length (take (ii s) inp) = ii s" using i by simp
  note x = emitRef_expands [OF closeRun_expands [OF p] e3, unfolded d]
  have "copyRef L r (take (ii s) inp) = take (ii s + L) inp"
    using r L same by (intro copyRef_take) auto
  moreover have "ii s - off - 1 = r" "L - 2 + 2 = L" using off(1) r L by auto
  ultimately have ex: "expands (take (oi s3 - 1) (outBuf s3)) (take (ii s + L) inp)"
    and o3: "0 < oi s3" and f: "length (outBuf s3) = length (outBuf s)" "ii s3 = ii s" "htab s3 = htab s"
    using x L off r by (auto simp: closeRun_def)
  have len: "length (outBuf s) = length inp" using p by (simp add: pending_def)
  let ?t = "s3\<lparr>lit := 0, ii := ii s + L\<rparr>"
  have t: "pending inp ?t" using ex o3 f len L by (simp add: pending_def)
  have sn': "seenBelow (ii s + L) ?t"
    by (rule seenBelow_mono [OF sn]) (use L(1) f(3) in simp_all)
  show ?thesis
  proof (cases "length inp \<le> ii s + L + 2")
    case True
    with t sn' s' f show ?thesis by (simp add: Let_def)
  next
    case False
    have "pending inp (rehashT inp ?t)" using t pending_cong [of "rehashT inp ?t" ?t] by simp
    moreover have "seenBelow (ii s + L) (rehashT inp ?t)"
      using rehash_seen [of ?t inp] sn' L by simp
    ultimately show ?thesis using False s' f by (simp add: Let_def)
  qed
qed

lemma litStep_pending:
  assumes "pending inp s" "lit s < 32" "seenBelow (ii s + 1) s" "ii s + 2 < length inp"
    and "litStepT inp s = (Inr b, s')"
  shows "pending inp s' \<and> lit s' < 32 \<and> seenBelow (ii s') s'"
proof -
  obtain u where "putLitT inp s = (Inr u, s')"
    using assms(5) by (auto simp: litStepT_def bnd_eq_Inr_iff ret_def split: if_splits)
  from putLit_pending [OF assms(1,2) _ this] assms(3,4) show ?thesis
    by (auto intro: seenBelow_mono)
qed

lemma compressStep_pending:
  assumes p: "pending inp s" "lit s < 32" and sn: "seenBelow (ii s) s" and i: "ii s + 2 < length inp"
    and n: "length inp < 2 ^ 32" and e: "compressStepT inp s = (Inr b, s')"
  shows "pending inp s' \<and> lit s' < 32 \<and> seenBelow (ii s') s'"
proof -
  define h where "h = nextHval (hval s) (inp ! (ii s + 2))"
  define r where "r = htab s (hslot h)"
  define t where "t = s\<lparr>hval := h, htab := (htab s)(hslot h := of_nat (ii s))\<rparr>"
  have tf: "ii t = ii s" "lit t = lit s" by (simp_all add: t_def)
  have pt: "pending inp t" using p(1) pending_cong [of t s] by (simp add: t_def)
  have "seenBelow (ii s + 1) (s\<lparr>hval := h\<rparr>)" using sn by (rule seenBelow_mono) auto
  from seenBelow_upd [OF this, of "ii s" "hslot h"] have snt: "seenBelow (ii t + 1) t"
    by (simp add: t_def)
  show ?thesis
  proof (cases "unat (of_nat (ii s) - r - 1) < maxOff \<and> 0 < r \<and> inp ! unat r = inp ! ii s \<and>
            inp ! (unat r + 1) = inp ! (ii s + 1) \<and> inp ! (unat r + 2) = inp ! (ii s + 2)")
    case True
    have "r = 0 \<or> unat r < ii s" using sn by (auto simp: seenBelow_def r_def)
    with True have r: "unat r < ii s" by auto
    have o: "unat (of_nat (ii s) - r - 1) = ii s - unat r - 1"
      using r i n by (intro offset_word) auto
    have e': "matchStepT inp (unat r) (ii s - unat r - 1) t = (Inr b, s')"
      using e True o by (simp add: compressStepT_def Let_def h_def r_def t_def)
    show ?thesis
      using matchStep_pending [OF pt snt, of "unat r" "ii s - unat r - 1"] True r i e' tf o
      by (simp add: maxOff_def)
  next
    case False
    then have "litStepT inp t = (Inr b, s')"
      using e by (simp add: compressStepT_def Let_def h_def r_def t_def) metis
    with litStep_pending [OF pt] p(2) snt i tf show ?thesis by simp
  qed
qed

lemma compressLoop_pending:
  "compressLoopT inp s = (Inr u, s') \<Longrightarrow> pending inp s \<Longrightarrow> lit s < 32 \<Longrightarrow> seenBelow (ii s) s \<Longrightarrow>
   length inp < 2 ^ 32 \<Longrightarrow> pending inp s' \<and> lit s' < 32"
proof (induction inp s rule: compressLoopT.induct)
  case (1 inp s)
  show ?case
  proof (cases "ii s + 2 < length inp")
    case True
    then obtain stop t where e: "compressStepT inp s = (Inr stop, t)"
      and k: "(if stop then (Inr (), t) else compressLoopT inp t) = (Inr u, s')"
      using "1.prems"(1) by (auto simp: compressLoopT.simps [of inp s] bnd_eq_Inr_iff)
    from compressStep_pending [OF _ _ _ True _ e] "1.prems"
    have t: "pending inp t" "lit t < 32" "seenBelow (ii t) t" by auto
    show ?thesis using k t "1.IH" [OF True e] "1.prems"(5) by (cases stop) auto
  next
    case False
    with "1.prems" show ?thesis by (simp add: compressLoopT.simps [of inp s])
  qed
qed

lemma tailLoop_pending:
  "tailLoopT inp s = (Inr u, s') \<Longrightarrow> pending inp s \<Longrightarrow> lit s < 32 \<Longrightarrow>
   pending inp s' \<and> lit s' < 32 \<and> ii s' = length inp"
proof (induction inp s rule: tailLoopT.induct)
  case (1 inp s)
  show ?case
  proof (cases "ii s < length inp")
    case True
    then obtain v t where e: "putLitT inp s = (Inr v, t)" and k: "tailLoopT inp t = (Inr u, s')"
      using "1.prems"(1) by (auto simp: tailLoopT.simps [of inp s] bnd_eq_Inr_iff)
    from putLit_pending [OF "1.prems"(2,3) True e] "1.IH" [OF True e k] show ?thesis by simp
  next
    case False
    with "1.prems" show ?thesis by (auto simp: tailLoopT.simps [of inp s] pending_def)
  qed
qed

lemma endRun_expands:
  assumes "pending inp s" "fst (endRun s) = Inr out"
  shows "expands out (take (ii s) inp) \<and> length out \<le> length inp"
proof -
  have "out = take (oi (closeRun s)) (outBuf (closeRun s))"
    using assms(2)
    by (auto simp: endRun_def closeRun_def bnd_def setOut_def Let_def split: if_splits)
  with closeRun_expands [OF assms(1)] assms(1) show ?thesis by (simp add: closeRun_def pending_def)
qed

lemma Compress_expandsT:
  assumes n: "length inp < 2 ^ 32" and e: "CompressT inp = Inr out"
  shows "expands out inp \<and> length out \<le> length inp"
proof (cases "length inp = 0")
  case True
  with e show ?thesis by (simp add: CompressT_def expands.empty)
next
  case False
  define s where "s = \<lparr>htab = (\<lambda>_. 0), outBuf = replicate (length inp) 0, ii = 0, oi = 1, lit = 0,
              hval = getHvalT inp 0\<rparr>"
  have len: "length inp \<noteq> 1" using e False by (auto simp: CompressT_def)
  obtain u t v t' where
    l: "compressLoopT inp s = (Inr u, t)" "tailLoopT inp t = (Inr v, t')" "fst (endRun t') = Inr out"
  proof -
    have "fst (bnd (compressLoopT inp)
             (\<lambda>_ s. if length (outBuf s) \<le> oi s + 3 then (Inl errInsufficientBuffer, s)
                    else bnd (tailLoopT inp) (\<lambda>_. endRun) s) s) = Inr out"
      using e False len by (simp add: CompressT_def s_def)
    then show ?thesis
      using that by (auto simp: bnd_def split: prod.splits sum.splits if_splits)
  qed
  have "pending inp s" using False by (auto simp: pending_def s_def intro: expands.empty)
  moreover have "seenBelow (ii s) s" by (simp add: seenBelow_def s_def)
  ultimately have t: "pending inp t" "lit t < 32"
    using compressLoop_pending [OF l(1)] n by (simp_all add: s_def)
  from tailLoop_pending [OF l(2) t] have t': "pending inp t'" "ii t' = length inp" by auto
  from endRun_expands [OF t'(1) l(3)] t'(2) show ?thesis by simp
qed

lemma Decompress_CompressT:
  assumes "length inp < 2 ^ 32" and "CompressT inp = Inr out"
  shows "Decompress out (int (length out)) (int (length inp)) = Inr inp"
proof (cases "out = []")
  case True
  have "expands t d \<Longrightarrow> t = [] \<Longrightarrow> d = []" for t d by (induction rule: expands.induct) auto
  from this [OF Compress_expandsT [OF assms, THEN conjunct1] True] True show ?thesis
    by (simp add: Decompress_def maxAlloc_def)
next
  case False
  have "decompressLoop (length inp) (out @ []) [] = decompressLoop (length inp) [] inp"
    using Compress_expandsT [OF assms] by (intro decompress_expands) auto
  with False assms(1) show ?thesis by (simp add: Decompress_def maxAlloc_def)
qed

subsection \<open>No write outside the output array\<close>

definition safe :: "'a res \<times> lzst \<Rightarrow> bool" where
  "safe r \<longleftrightarrow> (\<exists>x s. r = (Inr x, s)) \<or> (\<exists>s. r = (Inl errInsufficientBuffer, s))"

lemma safe_Inr [simp]: "safe (Inr x, s)" and safe_err [simp]: "safe (Inl errInsufficientBuffer, s)"
  by (simp_all add: safe_def)

lemma safe_bnd:
  "safe (m s) \<Longrightarrow> (\<And>x s'. m s = (Inr x, s') \<Longrightarrow> safe (f x s')) \<Longrightarrow> safe (bnd m f s)"
  by (auto simp: safe_def bnd_def)

lemma setOut_safe: "0 \<le> i \<Longrightarrow> i < int (length (outBuf s)) \<Longrightarrow> safe (setOut i v s)"
  by (simp add: setOut_def)

lemma flushRun_safe: "lit s < oi s \<Longrightarrow> oi s \<le> length (outBuf s) \<Longrightarrow> safe (flushRun s)"
  by (auto simp: flushRun_def intro!: safe_bnd setOut_safe)

lemma putLit_safe: "lit s < oi s \<Longrightarrow> oi s < length (outBuf s) \<Longrightarrow> safe (putLitT inp s)"
  unfolding putLitT_def
  by (rule safe_bnd) (auto simp: setOut_Inr intro!: setOut_safe flushRun_safe)

lemma putLit_oi:
  "putLitT inp s = (Inr u, s') \<Longrightarrow>
     length (outBuf s') = length (outBuf s) \<and>
     (lit s < 31 \<and> lit s' = lit s + 1 \<and> oi s' = oi s + 1 \<or> lit s = 31 \<and> lit s' = 0 \<and> oi s' = oi s + 2 \<or> 31 < lit s)"
  by (auto simp: putLitT_def flushRun_def maxLit_def bnd_eq_Inr_iff setOut_Inr split: if_splits)

lemma emitRef_safe: "oi s + 2 < length (outBuf s) \<Longrightarrow> safe (emitRef off len s)"
  unfolding emitRef_def
  by (intro safe_bnd) (auto simp: bnd_eq_Inr_iff setOut_Inr intro!: safe_bnd setOut_safe split: if_splits)

lemma matchStep_safe:
  assumes "lit s < oi s"
  shows "safe (matchStepT inp r off s)"
proof (cases "length (outBuf s) \<le> oi s + 3 + 1 \<and>
               length (outBuf s) \<le> oi s - (if lit s = 0 then 1 else 0) + 3 + 1")
  case True
  then show ?thesis by (simp add: matchStepT_def Let_def)
next
  case False
  then show ?thesis
    using assms unfolding matchStepT_def Let_def
    by (auto simp: setOut_Inr intro!: safe_bnd setOut_safe emitRef_safe split: if_splits)
qed

lemma compressStep_safe: "lit s < oi s \<Longrightarrow> safe (compressStepT inp s)"
  unfolding compressStepT_def Let_def
  by (auto simp: litStepT_def ret_def intro!: matchStep_safe safe_bnd putLit_safe)

lemma compressLoop_safe:
  "pending inp s \<Longrightarrow> lit s < 32 \<Longrightarrow> seenBelow (ii s) s \<Longrightarrow> length inp < 2 ^ 32 \<Longrightarrow> safe (compressLoopT inp s)"
proof (induction inp s rule: compressLoopT.induct)
  case (1 inp s)
  show ?case
  proof (cases "ii s + 2 < length inp")
    case True
    have "safe (bnd (compressStepT inp) (\<lambda>stop s. if stop then (Inr (), s) else compressLoopT inp s) s)"
    proof (rule safe_bnd)
      show "safe (compressStepT inp s)"
        using "1.prems"(1) by (intro compressStep_safe) (simp add: pending_def)
      fix stop t
      assume e: "compressStepT inp s = (Inr stop, t)"
      from compressStep_pending [OF "1.prems"(1-3) True "1.prems"(4) e] "1.IH" [OF True e] "1.prems"(4)
      show "safe (if stop then (Inr (), t) else compressLoopT inp t)" by auto
    qed
    with True show ?thesis by (simp add: compressLoopT.simps [of inp s])
  qed (simp add: compressLoopT.simps [of inp s])
qed

lemma tailLoop_safe:
  "lit s < 32 \<Longrightarrow> lit s < oi s \<Longrightarrow> length inp \<le> ii s + n \<Longrightarrow> n \<le> 2 \<Longrightarrow> oi s + n + (if lit s + n \<ge> 32 then 1 else 0) \<le> length (outBuf s) \<Longrightarrow>
   0 < lit s \<or> oi s + n \<le> length (outBuf s) \<Longrightarrow> safe (bnd (tailLoopT inp) (\<lambda>_. endRun) s)"
proof (induction inp s arbitrary: n rule: tailLoopT.induct)
  case (1 inp s)
  show ?case
  proof (cases "ii s < length inp")
    case True
    then obtain k where n: "n = Suc k" using "1.prems"(3) by (cases n) auto
    have "safe (bnd (putLitT inp) (\<lambda>_. bnd (tailLoopT inp) (\<lambda>_. endRun)) s)"
    proof (rule safe_bnd)
      show "safe (putLitT inp s)"
        using "1.prems" n by (intro putLit_safe) auto
      fix u t
      assume e: "putLitT inp s = (Inr u, t)"
      show "safe (bnd (tailLoopT inp) (\<lambda>_. endRun) t)"
        by (rule "1.IH" [OF True e, of k])
          (use putLit_oi [OF e] putLitT_ii [OF e] "1.prems" n in \<open>auto split: if_splits\<close>)
    qed
    with True show ?thesis
      by (simp add: bnd_def tailLoopT.simps [of inp s] split: prod.splits sum.splits)
  next
    case False
    have "safe (endRun s)"
      unfolding endRun_def using "1.prems" by (intro safe_bnd setOut_safe) (auto simp: Let_def split: if_splits)
    with False show ?thesis by (simp add: bnd_def tailLoopT.simps [of inp s])
  qed
qed

lemma compressLoop_len: "compressLoopT inp s = (Inr u, s') \<Longrightarrow> length inp \<le> ii s' + 2"
proof (induction inp s rule: compressLoopT.induct)
  case (1 inp s)
  show ?case
  proof (cases "ii s + 2 < length inp")
    case True
    then obtain stop t where e: "compressStepT inp s = (Inr stop, t)"
      and k: "(if stop then (Inr (), t) else compressLoopT inp t) = (Inr u, s')"
      using "1.prems" by (auto simp: compressLoopT.simps [of inp s] bnd_eq_Inr_iff)
    show ?thesis
    proof (cases stop)
      case True
      then have "length inp \<le> ii t + 2"
        using e by (auto simp: compressStepT_def matchStepT_def litStepT_def Let_def bnd_eq_Inr_iff
            ret_def split: if_splits)
      with True k show ?thesis by simp
    next
      case False
      with k "1.IH" [OF \<open>ii s + 2 < length inp\<close> e] show ?thesis by simp
    qed
  qed (use "1.prems" in \<open>simp add: compressLoopT.simps [of inp s]\<close>)
qed

lemma Compress_no_panicT:
  assumes n: "length inp < 2 ^ 32" "length inp \<noteq> 1"
  shows "(\<exists>out. CompressT inp = Inr out) \<or> CompressT inp = Inl errInsufficientBuffer"
proof (cases "length inp = 0")
  case True
  then show ?thesis by (simp add: CompressT_def)
next
  case False
  define s where "s = \<lparr>htab = (\<lambda>_. 0), outBuf = replicate (length inp) 0, ii = 0, oi = 1, lit = 0,
              hval = getHvalT inp 0\<rparr>"
  define r where "r = bnd (compressLoopT inp)
             (\<lambda>_ s. if length (outBuf s) \<le> oi s + 3 then (Inl errInsufficientBuffer, s)
                    else bnd (tailLoopT inp) (\<lambda>_. endRun) s) s"
  have p: "pending inp s" "lit s < 32" "seenBelow (ii s) s"
    using False by (auto simp: pending_def s_def seenBelow_def intro: expands.empty)
  have "safe r"
    unfolding r_def
  proof (rule safe_bnd)
    show "safe (compressLoopT inp s)" using p n by (intro compressLoop_safe)
    fix u t
    assume l: "compressLoopT inp s = (Inr u, t)"
    from compressLoop_pending [OF l p n(1)] have t: "pending inp t" "lit t < 32" by auto
    show "safe (if length (outBuf t) \<le> oi t + 3 then (Inl errInsufficientBuffer, t)
                else bnd (tailLoopT inp) (\<lambda>_. endRun) t)"
      using t compressLoop_len [OF l] tailLoop_safe [of t inp 2] by (auto simp: pending_def)
  qed
  moreover have "CompressT inp = fst r"
    using False n by (simp add: CompressT_def r_def s_def)
  ultimately show ?thesis by (auto simp: safe_def)
qed

lemma Compress_one_byte_panicsT: "CompressT [b] = Inl (GoPanic ''index out of range'')"
  by (simp add: CompressT_def)

lemma decompressLoop_bound:
  "length out \<le> n \<Longrightarrow> decompressLoop n inp out = Inr d \<Longrightarrow> length d \<le> n"
  by (induction n inp out rule: decompressLoop.induct)
    (auto simp: Let_def backRef_def simp del: copyRef.simps split: if_splits list.splits)

subsection \<open>A run on a concrete input\<close>

text \<open>The twelve bytes \<^verbatim>\<open>aaaaaaaaaaaa\<close>: two literals, one back reference, two literals.\<close>

definition aInput :: bytes where
  "aInput = replicate 12 97"

lemma aInput_facts: "length aInput = 12" "i < 12 \<Longrightarrow> aInput ! i = 97"
  by (simp_all add: aInput_def)

definition aState :: "u32 \<Rightarrow> bytes \<Rightarrow> nat \<Rightarrow> nat \<Rightarrow> nat \<Rightarrow> u32 \<Rightarrow> lzst" where
  "aState r ob i j l h = \<lparr>htab = (\<lambda>_. 0)(12659 := r), outBuf = ob, ii = i, oi = j, lit = l, hval = h\<rparr>"

lemma aHash:
  "nextHval 0x6161 97 = 0x616161" "nextHval 0x616161 97 = 0x61616161"
  "nextHval 0x61616161 97 = 0x61616161" "hslot 0x616161 = 12659" "hslot 0x61616161 = 12659"
  by (simp_all add: nextHval_def hslot_def htabLog_def mask_eq_exp_minus_1)

lemmas lzf_eval =
  bnd_def Let_def compressStepT_def matchStepT_def litStepT_def putLitT_def flushRun_def emitRef_def
  setOut_def maxOff_def maxRef_def maxLit_def rehashT_def endRun_def ret_def aState_def
  aInput_facts aHash

lemma aMatch: "matchLenT aInput 1 2 8 2 = 8"
  by (simp add: matchLenT.simps aInput_facts)

lemma aSteps:
  "compressStepT aInput (aState 0 [0,0,0,0,0,0,0,0,0,0,0,0] 0 1 0 0x6161) =
     (Inr False, aState 0 [0,97,0,0,0,0,0,0,0,0,0,0] 1 2 1 0x616161)"
  "compressStepT aInput (aState 0 [0,97,0,0,0,0,0,0,0,0,0,0] 1 2 1 0x616161) =
     (Inr False, aState 1 [0,97,97,0,0,0,0,0,0,0,0,0] 2 3 2 0x61616161)"
  "compressStepT aInput (aState 1 [0,97,97,0,0,0,0,0,0,0,0,0] 2 3 2 0x61616161) =
     (Inr True, aState 2 [1,97,97,192,0,0,0,0,0,0,0,0] 10 6 0 0x61616161)"
  using aMatch by (simp_all add: lzf_eval)

lemma aState_ii: "ii (aState r ob i j l h) = i" by (simp add: aState_def)

lemma aLoop:
  "compressLoopT aInput (aState 0 [0,0,0,0,0,0,0,0,0,0,0,0] 0 1 0 0x6161) =
     (Inr (), aState 2 [1,97,97,192,0,0,0,0,0,0,0,0] 10 6 0 0x61616161)"
  using aSteps
  by (simp add: compressLoopT.simps [of _ "aState _ _ _ _ _ _"] aState_ii aInput_facts bnd_def)

lemma aTail:
  "tailLoopT aInput (aState 2 [1,97,97,192,0,0,0,0,0,0,0,0] 10 6 0 0x61616161) =
     (Inr (), aState 2 [1,97,97,192,0,0,97,97,0,0,0,0] 12 8 2 0x61616161)"
  by (simp add: tailLoopT.simps lzf_eval)

lemma aInit:
  "\<lparr>htab = (\<lambda>_. 0), outBuf = replicate 12 0, ii = 0, oi = 1, lit = 0, hval = getHvalT aInput 0\<rparr> =
     aState 0 [0,0,0,0,0,0,0,0,0,0,0,0] 0 1 0 0x6161"
proof -
  have "replicate 12 0 = [0,0,0,0,0,0,0,0,0,0,0,0 :: byte]" by (simp add: numeral_eq_Suc)
  moreover have "getHvalT aInput 0 = 0x6161" by (simp add: getHvalT_def aInput_facts)
  ultimately show ?thesis by (simp add: aState_def fun_eq_iff)
qed

lemma aCompressT: "CompressT aInput = Inr [1,97,97,192,0,1,97,97]"
  unfolding CompressT_def aInput_facts(1) aInit
  using aLoop aTail by (simp add: lzf_eval)

subsection \<open>No read outside the input\<close>

lemma inAt_ok: "i < length inp \<Longrightarrow> inAt inp i s = (Inr (inp ! i), s)"
  by (simp add: inAt_def)

lemma sameAt_ok: "i < length inp \<Longrightarrow> j < length inp \<Longrightarrow> sameAt inp i j = ret (inp ! i = inp ! j)"
  by (rule ext) (simp add: sameAt_def bnd_def inAt_ok ret_def)

lemma matchLen_unchecked:
  "r \<le> i \<Longrightarrow> i + 2 < length inp \<Longrightarrow> maxLen \<le> length inp - i - 2 \<Longrightarrow> matchLen inp r i maxLen len = ret (matchLenT inp r i maxLen len)"
proof (induction inp r i maxLen len rule: matchLen.induct)
  case (1 inp r i maxLen len)
  show ?case
  proof (cases "maxLen \<le> len + 1")
    case True
    then show ?thesis by (simp add: matchLen.simps [of inp r i maxLen len] matchLenT.simps [of inp r i maxLen len])
  next
    case False
    then have "r + (len + 1) < length inp" "i + (len + 1) < length inp" using "1.prems" by auto
    then have s: "sameAt inp (r + (len + 1)) (i + (len + 1)) = ret (inp ! (r + (len + 1)) = inp ! (i + (len + 1)))"
      by (rule sameAt_ok)
    show ?thesis
      unfolding matchLen.simps [of inp r i maxLen len] matchLenT.simps [of inp r i maxLen len] Let_def s bnd_ret
      using False "1.IH" [OF refl False _ "1.prems", of True] by auto
  qed
qed

lemma rehash_unchecked:
  "2 \<le> ii s \<Longrightarrow> ii s + 1 < length inp \<Longrightarrow> rehash inp s = (Inr (), rehashT inp s)"
  by (simp add: rehash_def rehashT_def getHval_def getHvalT_def Let_def bnd_def inAt_ok ret_def)

lemma putLit_unchecked: "ii s < length inp \<Longrightarrow> putLit inp s = putLitT inp s"
  by (simp add: putLit_def putLitT_def bnd_def inAt_ok)

lemma matchStep_unchecked:
  assumes "r \<le> ii s" "ii s + 2 < length inp"
  shows "matchStep inp r off s = matchStepT inp r off s"
proof -
  let ?m = "min (length inp - ii s - 2) maxRef"
  note len = matchLen_unchecked [OF assms min.cobounded1, of maxRef 2]
  have two: "2 < matchLenT inp r (ii s) ?m 2" by (rule matchLen_ge)
  have tail: "bnd (emitRef off l) (\<lambda>_ s'. let s'' = s'\<lparr>lit := 0, ii := ii s' + L\<rparr>
        in if length inp \<le> ii s'' + 2 then (Inr True, s'') else bnd (rehash inp) (\<lambda>_. ret False) s'') t =
      bnd (emitRef off l) (\<lambda>_ s'. let s'' = s'\<lparr>lit := 0, ii := ii s' + L\<rparr>
        in if length inp \<le> ii s'' + 2 then (Inr True, s'') else (Inr False, rehashT inp s'')) t" if "2 < L" for l L t
    using that by (auto simp: bnd_def Let_def rehash_unchecked ret_def split: prod.split sum.split)
  have all: "bnd (matchLen inp r i ?m 2) (\<lambda>len. bnd (emitRef off (len - 2)) (\<lambda>_ s'.
          let s'' = s'\<lparr>lit := 0, ii := ii s' + len\<rparr>
          in if length inp \<le> ii s'' + 2 then (Inr True, s'') else bnd (rehash inp) (\<lambda>_. ret False) s'')) t =
      bnd (emitRef off (matchLenT inp r i ?m 2 - 2)) (\<lambda>_ s'.
          let s'' = s'\<lparr>lit := 0, ii := ii s' + matchLenT inp r i ?m 2\<rparr>
          in if length inp \<le> ii s'' + 2 then (Inr True, s'') else (Inr False, rehashT inp s'')) t"
    if "i = ii s" for i t
    unfolding that len bnd_ret by (rule tail [OF two])
  have run: "bnd (setOut k v) f t = bnd (setOut k v) g t"
    if "\<And>t' u. ii t' = ii t \<Longrightarrow> f u t' = g u t'" for k v t and f g :: "unit \<Rightarrow> (lzst, bool) gom"
    by (rule bnd_cong) (auto simp: setOut_Inr that)
  show ?thesis
    unfolding matchStep_def matchStepT_def Let_def [of "min _ _"] Let_def [of "if _ then _ else (_::nat)"]
    by (intro if_cong refl run all) simp
qed

lemma compressStep_unchecked:
  assumes sn: "seenBelow (ii s) s" and i: "ii s + 2 < length inp" and n: "length inp < 2 ^ 32"
  shows "compressStep inp s = compressStepT inp s"
proof -
  define h where "h = nextHval (hval s) (inp ! (ii s + 2))"
  define r where "r = htab s (hslot h)"
  define t where "t = s\<lparr>hval := h, htab := (htab s)(hslot h := of_nat (ii s))\<rparr>"
  have t: "ii t = ii s" by (simp add: t_def)
  have lit: "litStep inp t = litStepT inp t"
    using i putLit_unchecked [of t inp] by (simp add: litStep_def litStepT_def bnd_def t)
  have C: "compressStep inp s = bnd (candidate inp (of_nat (ii s) - r - 1) r (ii s)) (\<lambda>found.
        if found then matchStep inp (unat r) (unat (of_nat (ii s) - r - 1)) else litStep inp) t"
    unfolding compressStep_def h_def r_def t_def Let_def bnd_def [of "inAt _ _"] inAt_ok [OF i] by (simp only: prod.case sum.case)
  have T: "compressStepT inp s = (if unat (of_nat (ii s) - r - 1) < maxOff \<and> 0 < r \<and> inp ! unat r = inp ! ii s \<and>
        inp ! (unat r + 1) = inp ! (ii s + 1) \<and> inp ! (unat r + 2) = inp ! (ii s + 2)
      then matchStepT inp (unat r) (unat (of_nat (ii s) - r - 1)) t else litStepT inp t)"
    unfolding compressStepT_def h_def r_def t_def Let_def by (rule refl)
  show ?thesis
  proof (cases "unat (of_nat (ii s) - r - 1) < maxOff \<and> 0 < r")
    case True
    have "r = 0 \<or> unat r < ii s" using sn by (auto simp: seenBelow_def r_def)
    with True have r: "unat r < ii s" by auto
    have plus: "unat (r + 1) = unat r + 1" "unat (r + 2) = unat r + 2"
      using r i n by (auto simp: unat_word_ariths)
    have test: "andAlso (sameAt inp (unat r) (ii s)) (andAlso (sameAt inp (unat (r + 1)) (ii s + 1)) (sameAt inp (unat (r + 2)) (ii s + 2))) =
        ret (inp ! unat r = inp ! ii s \<and> inp ! (unat r + 1) = inp ! (ii s + 1) \<and> inp ! (unat r + 2) = inp ! (ii s + 2))"
      using r i by (auto simp: plus sameAt_ok andAlso_def bnd_ret fun_eq_iff)
    have "matchStep inp (unat r) (unat (of_nat (ii s) - r - 1)) t = matchStepT inp (unat r) (unat (of_nat (ii s) - r - 1)) t"
      using r i t by (intro matchStep_unchecked) auto
    with True show ?thesis unfolding C T candidate_def if_P [OF True] test bnd_ret by (simp add: lit)
  next
    case False
    then show ?thesis unfolding C T candidate_def if_not_P [OF False] bnd_ret by (auto simp: lit)
  qed
qed

lemma compressLoop_unchecked:
  "pending inp s \<Longrightarrow> lit s < 32 \<Longrightarrow> seenBelow (ii s) s \<Longrightarrow> length inp < 2 ^ 32 \<Longrightarrow> compressLoop inp s = compressLoopT inp s"
proof (induction inp s rule: compressLoopT.induct)
  case (1 inp s)
  show ?case
  proof (cases "ii s + 2 < length inp")
    case True
    note step = compressStep_unchecked [OF "1.prems"(3) True "1.prems"(4)]
    have "(if stop then (Inr (), t) else compressLoop inp t) = (if stop then (Inr (), t) else compressLoopT inp t)"
      if e: "compressStepT inp s = (Inr stop, t)" for stop t
      using compressStep_pending [OF "1.prems"(1-3) True "1.prems"(4) e] "1.IH" [OF True e] "1.prems"(4) by simp
    with True step show ?thesis
      by (simp add: compressLoop.simps [of inp s] compressLoopT.simps [of inp s] bnd_def split: prod.split sum.split)
  qed (simp add: compressLoop.simps [of inp s] compressLoopT.simps [of inp s])
qed

lemma tailLoop_unchecked: "tailLoop inp s = tailLoopT inp s"
proof (induction inp s rule: tailLoopT.induct)
  case (1 inp s)
  then show ?case
    by (auto simp: tailLoop.simps [of inp s] tailLoopT.simps [of inp s] bnd_def putLit_unchecked split: prod.split sum.split)
qed

lemma Compress_unchecked:
  assumes n: "length inp < 2 ^ 32"
  shows "Compress inp = CompressT inp"
proof -
  consider "length inp = 0" | b where "inp = [b]" | (long) "2 \<le> length inp"
    by (cases inp rule: remdups_adj.cases) auto
  then show ?thesis
  proof cases
    case long
    let ?s = "\<lparr>htab = (\<lambda>_. 0), outBuf = replicate (length inp) 0, ii = 0, oi = 1, lit = 0, hval = getHvalT inp 0\<rparr>"
    have "compressLoop inp ?s = compressLoopT inp ?s"
      using long n by (intro compressLoop_unchecked) (auto simp: pending_def seenBelow_def intro: expands.empty)
    moreover have "getHval inp 0 s = (Inr (getHvalT inp 0), s)" for s
      using long by (cases inp; cases "List.tl inp") (simp_all add: getHval_def getHvalT_def bnd_def inAt_ok ret_def)
    moreover have "length inp \<noteq> 0" "length inp \<noteq> 1" using long by auto
    ultimately show ?thesis
      unfolding Compress_def CompressT_def tailLoop_unchecked by (simp add: bnd_def)
  qed (simp_all add: Compress_def CompressT_def getHval_def bnd_def inAt_def)
qed

lemma Compress_expands: "length inp < 2 ^ 32 \<Longrightarrow> Compress inp = Inr out \<Longrightarrow> expands out inp \<and> length out \<le> length inp"
  using Compress_expandsT by (simp add: Compress_unchecked)

lemma Decompress_Compress:
  "length inp < 2 ^ 32 \<Longrightarrow> Compress inp = Inr out \<Longrightarrow> Decompress out (int (length out)) (int (length inp)) = Inr inp"
  using Decompress_CompressT by (simp add: Compress_unchecked)

lemma Compress_no_panic:
  "length inp < 2 ^ 32 \<Longrightarrow> length inp \<noteq> 1 \<Longrightarrow> (\<exists>out. Compress inp = Inr out) \<or> Compress inp = Inl errInsufficientBuffer"
  using Compress_no_panicT by (simp add: Compress_unchecked)

lemma Compress_one_byte_panics: "Compress [b] = Inl (GoPanic ''index out of range'')"
  by (simp add: Compress_def getHval_def bnd_def inAt_def)

lemma aCompress: "Compress aInput = Inr [1,97,97,192,0,1,97,97]"
  using aCompressT by (simp add: Compress_unchecked aInput_facts)

subsection \<open>Properties\<close>

text \<open>
  C10: whatever the compressor returns, the decompressor turns back into its input, for
  every input whose positions fit the 32-bit hash table.
\<close>

theorem lzf_roundtrip:
  assumes "length inp < 2 ^ 32" and "Compress inp = Inr out"
  shows "Decompress out (int (length out)) (int (length inp)) = Inr inp"
  using assms by (rule Decompress_Compress)

theorem lzf_roundtrip_witness:
  "Decompress [1,97,97,192,0,1,97,97] 8 12 = Inr aInput"
  using lzf_roundtrip [OF _ aCompress] by (simp add: aInput_facts)

text \<open>
  C11: on an input below \<open>2 ^ 32\<close> bytes compression reports success or
  \<^verbatim>\<open>insufficient buffer\<close>: it never reads outside its input and never writes outside its
  output array, except on a one-byte input, where reading the second byte panics.  What it
  returns is no longer than what it was given.
\<close>

theorem lzf_compress_total:
  assumes "length inp < 2 ^ 32"
  shows "(length inp \<noteq> 1 \<and> Compress inp = Inl errInsufficientBuffer) \<or>
    (length inp \<noteq> 1 \<and> (\<exists>out. Compress inp = Inr out \<and> length out \<le> length inp)) \<or>
    (length inp = 1 \<and> Compress inp = Inl (GoPanic ''index out of range''))"
proof (cases "length inp = 1")
  case True
  then obtain b where "inp = [b]" by (cases inp) auto
  then show ?thesis by (simp add: Compress_one_byte_panics)
next
  case False
  with Compress_no_panic [OF assms] Compress_expands [OF assms] show ?thesis by blast
qed

theorem lzf_compress_total_witness:
  "length (strlit ''hello'') \<noteq> 1 \<and> (Compress (strlit ''hello'') = Inl errInsufficientBuffer \<or>
     (\<exists>out. Compress (strlit ''hello'') = Inr out \<and> length out \<le> 5))"
  using lzf_compress_total [of "strlit ''hello''"] by (auto simp: strlit_def)

text \<open>Decompression never returns more than the announced length, whatever the input.\<close>

theorem lzf_decompress_bounded:
  assumes "Decompress inp inLen outLen = Inr d"
  shows "int (length d) \<le> outLen"
proof -
  have "0 \<le> outLen" using assms by (auto simp: Decompress_def split: if_splits)
  moreover from this have "length d \<le> nat outLen"
    using assms decompressLoop_bound [of "[]" "nat outLen" _ d]
    by (auto simp: Decompress_def split: if_splits)
  ultimately show ?thesis by linarith
qed

theorem lzf_decompress_bounded_witness: "int (length aInput) \<le> 12"
proof (rule lzf_decompress_bounded)
  show "Decompress [1,97,97,192,0,1,97,97] 8 12 = Inr aInput"
    using Decompress_Compress [OF _ aCompress] by (simp add: aInput_facts)
qed

end
