(* ===== verification/EncoderState.thy ===== *)
theory EncoderState
  imports Crc64 Strconv
begin

section \<open>The encoder's state, its writer and its state machine (core/encoder.go)\<close>

text \<open>
  The fields of \<^verbatim>\<open>Encoder\<close>, the constructors and option setters, the table of allowed
  state changes and \<open>write\<close>, which sends bytes to the writer and to the checksum.  The
  \<^verbatim>\<open>io.Writer\<close> is code of the caller: \<open>out\<close> is what it accepted so far, and \<open>refuses\<close>
  says for what has been accepted and for the next write whether the write fails and after
  how many bytes (\<open>None\<close>: the whole write is accepted).  A writer that never fails, such
  as \<^verbatim>\<open>bytes.Buffer\<close>, is \<open>\<lambda>_ _. None\<close>.

  The locale \<open>byte_sink\<close> is the contract of a state one can append bytes to; its lemmas
  compose statements "the method appends exactly these bytes" (\<open>writes\<close>).
\<close>

datatype enc_state =
    startState
  | writtenHeaderState
  | writtenDBHeaderState
  | writtenAuxState
  | writtenTTLState
  | writtenObjectState
  | writtenEndState

record zipListOpt =
  maxValue :: int
  maxEntries :: int

definition defaultZipListMaxValue :: int where "defaultZipListMaxValue = 64"
definition defaultZipListMaxEntries :: int where "defaultZipListMaxEntries = 512"

definition getMaxValue :: "zipListOpt option \<Rightarrow> int" where
  "getMaxValue zop = (case zop of
     None \<Rightarrow> defaultZipListMaxValue
   | Some z \<Rightarrow> if maxValue z = 0 then defaultZipListMaxValue else maxValue z)"

definition getMaxEntries :: "zipListOpt option \<Rightarrow> int" where
  "getMaxEntries zop = (case zop of
     None \<Rightarrow> defaultZipListMaxEntries
   | Some z \<Rightarrow> if maxEntries z = 0 then defaultZipListMaxEntries else maxEntries z)"

record encoder =
  out :: bytes
  refuses :: "bytes \<Rightarrow> bytes \<Rightarrow> nat option"
  crcDigest :: digest
  existDB :: "u64 set"
  compress :: bool
  encState :: enc_state
  listZipListOpt :: "zipListOpt option"
  hashZipListOpt :: "zipListOpt option"
  zsetZipListOpt :: "zipListOpt option"
  listZipListSize :: int
  encValkey :: bool

fun stateChanges :: "enc_state \<Rightarrow> enc_state set" where
  "stateChanges startState = {writtenHeaderState}"
| "stateChanges writtenHeaderState = {writtenAuxState, writtenDBHeaderState, writtenEndState}"
| "stateChanges writtenAuxState = {writtenAuxState, writtenDBHeaderState, writtenEndState}"
| "stateChanges writtenDBHeaderState = {writtenTTLState, writtenObjectState}"
| "stateChanges writtenTTLState = {writtenObjectState}"
| "stateChanges writtenObjectState =
     {writtenTTLState, writtenObjectState, writtenDBHeaderState, writtenEndState}"
| "stateChanges writtenEndState = {}"

definition newEncoder :: "(bytes \<Rightarrow> bytes \<Rightarrow> nat option) \<Rightarrow> encoder" where
  "newEncoder w = \<lparr>out = [], refuses = w, crcDigest = newDigest, existDB = {}, compress = False,
     encState = startState, listZipListOpt = None, hashZipListOpt = None, zsetZipListOpt = None,
     listZipListSize = 4 * 1024, encValkey = False\<rparr>"

definition newEncoderValkey :: "(bytes \<Rightarrow> bytes \<Rightarrow> nat option) \<Rightarrow> encoder" where
  "newEncoderValkey w = (newEncoder w)\<lparr>encValkey := True\<rparr>"

definition setListZipListOpt :: "int \<Rightarrow> int \<Rightarrow> encoder \<Rightarrow> encoder" where
  "setListZipListOpt mv me e = e\<lparr>listZipListOpt := Some \<lparr>maxValue = mv, maxEntries = me\<rparr>\<rparr>"

definition setHashZipListOpt :: "int \<Rightarrow> int \<Rightarrow> encoder \<Rightarrow> encoder" where
  "setHashZipListOpt mv me e = e\<lparr>hashZipListOpt := Some \<lparr>maxValue = mv, maxEntries = me\<rparr>\<rparr>"

definition setZSetZipListOpt :: "int \<Rightarrow> int \<Rightarrow> encoder \<Rightarrow> encoder" where
  "setZSetZipListOpt mv me e = e\<lparr>zsetZipListOpt := Some \<lparr>maxValue = mv, maxEntries = me\<rparr>\<rparr>"

definition enableCompress :: "encoder \<Rightarrow> encoder" where
  "enableCompress e = e\<lparr>compress := True\<rparr>"

definition validateStateChange :: "encoder \<Rightarrow> enc_state \<Rightarrow> bool" where
  "validateStateChange e to \<longleftrightarrow> to \<in> stateChanges (encState e)"

definition enc_write :: "bytes \<Rightarrow> (encoder, unit) gom" where
  "enc_write p e = (case refuses e (out e) p of
     Some n \<Rightarrow> (Inl (Wrap ''write data failed'' (Msg ''writer error'')), e\<lparr>out := out e @ take n p\<rparr>)
   | None \<Rightarrow> (Inr (), e\<lparr>out := out e @ p, crcDigest := digestWrite (crcDigest e) p\<rparr>))"

definition setState :: "enc_state \<Rightarrow> (encoder, unit) gom" where
  "setState st e = (Inr (), e\<lparr>encState := st\<rparr>)"

definition getEnc :: "(encoder \<Rightarrow> 'a) \<Rightarrow> (encoder, 'a) gom" where
  "getEnc f e = (Inr (f e), e)"

text \<open>A \<^verbatim>\<open>for range\<close> loop that calls a method on every element and stops at an error.\<close>

fun forEach :: "('a \<Rightarrow> ('s, unit) gom) \<Rightarrow> 'a list \<Rightarrow> ('s, unit) gom" where
  "forEach f [] = ret ()"
| "forEach f (x # xs) = bnd (f x) (\<lambda>_. forEach f xs)"

subsection \<open>The contract of a byte sink\<close>

definition writes :: "(bytes \<Rightarrow> 's \<Rightarrow> 's) \<Rightarrow> ('s \<Rightarrow> bool) \<Rightarrow> ('s, 'a) gom \<Rightarrow> bytes \<Rightarrow> 'a \<Rightarrow> bool" where
  "writes emit ok m bs x \<longleftrightarrow> (\<forall>s. ok s \<longrightarrow> m s = (Inr x, emit bs s))"

locale byte_sink =
  fixes emit :: "bytes \<Rightarrow> 's \<Rightarrow> 's"
    and ok :: "'s \<Rightarrow> bool"
  assumes emit_emit: "ok s \<Longrightarrow> emit q (emit p s) = emit (p @ q) s"
    and emit_Nil: "ok s \<Longrightarrow> emit [] s = s"
    and ok_emit: "ok s \<Longrightarrow> ok (emit p s)"
begin

lemma writes_apply: "writes emit ok m bs x \<Longrightarrow> ok s \<Longrightarrow> m s = (Inr x, emit bs s)"
  by (simp add: writes_def)

lemma writes_ret: "writes emit ok (ret x) [] x"
  by (simp add: writes_def ret_def emit_Nil)

lemma writes_bnd:
  "writes emit ok m bs x \<Longrightarrow> writes emit ok (f x) bs' y \<Longrightarrow> writes emit ok (bnd m f) (bs @ bs') y"
  by (simp add: writes_def bnd_def ok_emit emit_emit)

lemma writes_seq:
  fixes m :: "('s, unit) gom"
  shows "writes emit ok m bs () \<Longrightarrow> writes emit ok m' bs' y \<Longrightarrow>
    writes emit ok (bnd m (\<lambda>_. m')) (bs @ bs') y"
  by (rule writes_bnd)

lemma writes_last:
  fixes m :: "('s, unit) gom"
  assumes "writes emit ok m bs ()"
  shows "writes emit ok (bnd m (\<lambda>_. ret y)) bs y"
  using writes_seq [OF assms writes_ret] by simp

lemma writes_forEach:
  "(\<And>x. x \<in> set xs \<Longrightarrow> writes emit ok (f x) (enc x) ()) \<Longrightarrow>
   writes emit ok (forEach f xs) (concat (map enc xs)) ()"
  by (induction xs) (auto intro: writes_ret writes_bnd)

end

subsection \<open>The encoder over a writer that never fails is a byte sink\<close>

definition ready :: "encoder \<Rightarrow> bool" where
  "ready e \<longleftrightarrow> (\<forall>o' p. refuses e o' p = None) \<and> jones_digest (crcDigest e)"

definition emit :: "bytes \<Rightarrow> encoder \<Rightarrow> encoder" where
  "emit p e = e\<lparr>out := out e @ p, crcDigest := digestWrite (crcDigest e) p\<rparr>"

abbreviation sink_ok :: "bool \<Rightarrow> encoder \<Rightarrow> bool" where
  "sink_ok c e \<equiv> ready e \<and> compress e = c"

abbreviation "ewrites c \<equiv> writes emit (sink_ok c)"

interpretation sink: byte_sink emit "sink_ok c" for c
  by unfold_locales
    (auto simp: ready_def emit_def digestWrite_append digestWrite_Nil)

lemma emit_fields [simp]:
  "out (emit p e) = out e @ p" "refuses (emit p e) = refuses e" "existDB (emit p e) = existDB e"
  "compress (emit p e) = compress e" "encState (emit p e) = encState e"
  "listZipListOpt (emit p e) = listZipListOpt e" "hashZipListOpt (emit p e) = hashZipListOpt e"
  "zsetZipListOpt (emit p e) = zsetZipListOpt e" "listZipListSize (emit p e) = listZipListSize e"
  "encValkey (emit p e) = encValkey e" "crcDigest (emit p e) = digestWrite (crcDigest e) p"
  by (simp_all add: emit_def)

lemma ready_emit [simp]: "ready (emit p e) = ready e"
  by (simp add: ready_def)

lemma emit_emit: "ready e \<Longrightarrow> emit q (emit p e) = emit (p @ q) e"
  using sink.emit_emit [of e "compress e"] by simp

lemma emit_setState: "emit p (e\<lparr>encState := s\<rparr>) = (emit p e)\<lparr>encState := s\<rparr>"
  by (simp add: emit_def)

lemma ready_setState [simp]: "ready (e\<lparr>encState := s\<rparr>) = ready e"
  "ready (e\<lparr>existDB := x\<rparr>) = ready e" "ready (e\<lparr>compress := b\<rparr>) = ready e"
  by (simp_all add: ready_def)

lemma ready_newEncoder: "(\<And>o' p. w o' p = None) \<Longrightarrow> ready (newEncoder w)"
  by (simp add: ready_def newEncoder_def)

lemma bnd_getEnc [simp]: "bnd (getEnc f) g e = g (f e) e"
  by (simp add: bnd_def getEnc_def)

lemma bnd_setState: "bnd m (\<lambda>_. setState st) e = (case m e of
    (Inl err, e') \<Rightarrow> (Inl err, e') | (Inr _, e') \<Rightarrow> (Inr (), e'\<lparr>encState := st\<rparr>))"
  by (auto simp: bnd_def setState_def split: prod.splits sum.splits)

lemma enc_write_writes: "ewrites c (enc_write p) p ()"
  by (simp add: writes_def enc_write_def ready_def emit_def)

text \<open>
  Whatever a method does, whether it succeeds or fails, it only appends to what the writer
  has accepted; on a writer that never fails the checksum follows what was appended.
\<close>

definition appends :: "(encoder, 'a) gom \<Rightarrow> bool" where
  "appends m \<longleftrightarrow> (\<forall>e. (\<exists>p d. snd (m e) = e\<lparr>out := out e @ p, crcDigest := d\<rparr>) \<and>
     (ready e \<longrightarrow> (\<exists>p. snd (m e) = emit p e)))"

lemma emit_Nil: "ready e \<Longrightarrow> emit [] e = e"
  using sink.emit_Nil [of e "compress e"] by simp

lemma appends_pure:
  assumes "\<And>e. snd (m e) = e"
  shows "appends m"
proof -
  have "e = e\<lparr>out := out e @ [], crcDigest := crcDigest e\<rparr>" for e :: encoder by simp
  then show ?thesis unfolding appends_def assms by (metis emit_Nil)
qed

lemma appends_ret: "appends (ret x)" and appends_fail: "appends (fail err)"
  and appends_getEnc: "appends (getEnc f)"
  by (simp_all add: appends_pure ret_def fail_def getEnc_def)

lemma appends_write: "appends (enc_write p)"
proof -
  have "\<exists>q d. snd (enc_write p e) = e\<lparr>out := out e @ q, crcDigest := d\<rparr>" for e
  proof (cases "refuses e (out e) p")
    case None
    then show ?thesis by (auto simp: enc_write_def)
  next
    case (Some n)
    then have "snd (enc_write p e) = e\<lparr>out := out e @ take n p, crcDigest := crcDigest e\<rparr>"
      by (simp add: enc_write_def)
    then show ?thesis by blast
  qed
  then show ?thesis
    unfolding appends_def by (auto simp: enc_write_def ready_def emit_def)
qed

lemma appends_seq:
  fixes m' :: "encoder \<Rightarrow> (encoder, 'b) gom"
  assumes "appends m" "\<And>e. appends (m' e)"
    "\<And>e. snd (k e) = snd (m e) \<or> snd (k e) = snd (m' e (snd (m e)))"
  shows "appends k"
proof -
  have "(\<exists>p d. snd (k e) = e\<lparr>out := out e @ p, crcDigest := d\<rparr>) \<and>
      (ready e \<longrightarrow> (\<exists>p. snd (k e) = emit p e))" for e
  proof (cases "snd (k e) = snd (m e)")
    case True
    with assms(1) show ?thesis by (simp add: appends_def)
  next
    case False
    then have b: "snd (k e) = snd (m' e (snd (m e)))" using assms(3) by blast
    obtain p d where p: "snd (m e) = e\<lparr>out := out e @ p, crcDigest := d\<rparr>"
      using assms(1) unfolding appends_def by blast
    moreover obtain q d' where
      "snd (m' e (snd (m e))) = (snd (m e))\<lparr>out := out (snd (m e)) @ q, crcDigest := d'\<rparr>"
      using assms(2) unfolding appends_def by blast
    ultimately have "snd (k e) = e\<lparr>out := out e @ (p @ q), crcDigest := d'\<rparr>" by (simp add: b)
    moreover have "\<exists>p. snd (k e) = emit p e" if "ready e"
    proof -
      from assms(1) that obtain r where r: "snd (m e) = emit r e" unfolding appends_def by blast
      with assms(2) [of e] that obtain r' where "snd (m' e (emit r e)) = emit r' (emit r e)"
        unfolding appends_def by (metis ready_emit)
      with b r that show ?thesis by (auto simp: emit_emit)
    qed
    ultimately show ?thesis by blast
  qed
  then show ?thesis by (simp add: appends_def)
qed

lemma appends_bnd:
  assumes "appends m" "\<And>x. appends (f x)"
  shows "appends (bnd m f)"
proof (rule appends_seq [OF assms(1)])
  show "appends ((\<lambda>e. case fst (m e) of Inr x \<Rightarrow> f x | Inl _ \<Rightarrow> f undefined) e)" for e
    using assms(2) by (simp split: sum.split)
  show "snd (bnd m f e) = snd (m e) \<or>
      snd (bnd m f e) = snd ((\<lambda>e. case fst (m e) of Inr x \<Rightarrow> f x | Inl _ \<Rightarrow> f undefined) e (snd (m e)))" for e
    by (auto simp: bnd_def split: prod.split sum.split)
qed

lemma appends_forEach: "(\<And>x. appends (f x)) \<Longrightarrow> appends (forEach f xs)"
  by (induction xs) (auto intro: appends_ret appends_bnd)

lemma appends_if: "appends m \<Longrightarrow> appends m' \<Longrightarrow> appends (if b then m else m')"
  by simp

lemma appends_case_option:
  "(\<And>x. appends (f x)) \<Longrightarrow> appends m \<Longrightarrow> appends (case opt of None \<Rightarrow> m | Some x \<Rightarrow> f x)"
  by (cases opt) auto

lemma appends_case_prod: "(\<And>x y. appends (f x y)) \<Longrightarrow> appends (case p of (x, y) \<Rightarrow> f x y)"
  by (cases p) auto

lemma appends_Let: "(\<And>x. appends (f x)) \<Longrightarrow> appends (let y = z in f y)"
  by simp

lemmas enc_appends =
  appends_bnd appends_ret appends_fail appends_getEnc appends_write appends_forEach appends_if
  appends_case_option appends_case_prod appends_Let

end
