(* ===== verification/StringCodec.thy ===== *)
theory StringCodec
  imports Reader Lzf EncoderState
begin

unbundle bit_operations_syntax

section \<open>Lengths, strings and numbers (core/string.go)\<close>

text \<open>
  The length encoding (6, 14, 32 or 64 bits, or a special marker), the string encoding
  built on it (8-, 16- and 32-bit integers, LZF, plain bytes) and the binary numbers: the
  readers of \<^verbatim>\<open>Decoder\<close> and the writers of \<^verbatim>\<open>Encoder\<close>.  Floats are their 64 bits.
  \<open>lengthBytes\<close>, \<open>stringBytes\<close> and \<open>nanBytes\<close> are the byte strings the writers append to a
  writer that does not fail; the reading lemmas take those bytes back to the value.
\<close>

definition len6Bit :: byte where "len6Bit = 0"
definition len14Bit :: byte where "len14Bit = 1"
definition len32or64Bit :: byte where "len32or64Bit = 2"
definition lenSpecial :: byte where "lenSpecial = 3"
definition len32Bit :: byte where "len32Bit = 0x80"
definition len64Bit :: byte where "len64Bit = 0x81"
definition encodeInt8 :: u64 where "encodeInt8 = 0"
definition encodeInt16 :: u64 where "encodeInt16 = 1"
definition encodeInt32 :: u64 where "encodeInt32 = 2"
definition encodeLZF :: u64 where "encodeLZF = 3"
definition maxUint6 :: nat where "maxUint6 = 2 ^ 6 - 1"
definition maxUint14 :: nat where "maxUint14 = 2 ^ 14 - 1"
definition len14BitMask :: byte where "len14BitMask = 0x40"
definition encodeInt8Prefix :: byte where "encodeInt8Prefix = 0xc0"
definition encodeInt16Prefix :: byte where "encodeInt16Prefix = 0xc1"
definition encodeInt32Prefix :: byte where "encodeInt32Prefix = 0xc2"
definition encodeLZFPrefix :: byte where "encodeLZFPrefix = 0xc3"

lemmas length_consts =
  len6Bit_def len14Bit_def len32or64Bit_def lenSpecial_def len32Bit_def len64Bit_def
  maxUint6_def maxUint14_def len14BitMask_def

lemmas string_consts =
  encodeInt8_def encodeInt16_def encodeInt32_def encodeLZF_def
  encodeInt8Prefix_def encodeInt16Prefix_def encodeInt32Prefix_def encodeLZFPrefix_def

subsection \<open>Decoder\<close>

definition lenType :: "byte \<Rightarrow> byte" where
  "lenType firstByte = drop_bit 6 (firstByte AND 0xc0)"

text \<open>The switch on the two highest bits of the first byte.\<close>

definition readLengthRest :: "byte \<Rightarrow> (dstate, u64 \<times> bool) gom" where
  "readLengthRest firstByte =
     (if lenType firstByte = len6Bit then ret (ucast firstByte AND 0x3f, False)
      else if lenType firstByte = len14Bit then
        bnd (wrapErr ''read len14Bit failed'' dec_readByte) (\<lambda>nextByte.
          ret (push_bit 8 (ucast firstByte AND 0x3f) OR ucast nextByte, False))
      else if lenType firstByte = len32or64Bit then
        (if firstByte = len32Bit then
           bnd (wrapErr ''read len32Bit failed'' (dec_readFull 4)) (\<lambda>b. ret (of_nat (be_val b), False))
         else if firstByte = len64Bit then
           bnd (wrapErr ''read len64Bit failed'' (dec_readFull 8)) (\<lambda>b. ret (of_nat (be_val b), False))
         else fail (MsgArgs ''illegal length encoding'' [uint firstByte]))
      else ret (ucast firstByte AND 0x3f, True))"

definition readLength :: "(dstate, u64 \<times> bool) gom" where
  "readLength = bnd (wrapErr ''read length failed'' dec_readByte) readLengthRest"

definition readInt16 :: "(dstate, int) gom" where
  "readInt16 = bnd (wrapErr ''read uint16 error'' (dec_readFull 2))
     (\<lambda>b. ret (sint (of_nat (le_val b) :: u16)))"

definition readInt32 :: "(dstate, int) gom" where
  "readInt32 = bnd (wrapErr ''read uint32 error'' (dec_readFull 4))
     (\<lambda>b. ret (sint (of_nat (le_val b) :: u32)))"

definition readInt64 :: "(dstate, int) gom" where
  "readInt64 = bnd (wrapErr ''read uint64 error'' (dec_readFull 8))
     (\<lambda>b. ret (sint (of_nat (le_val b) :: u64)))"

definition liftRes :: "'a res \<Rightarrow> ('s, 'a) gom" where
  "liftRes r s = (r, s)"

definition readLZF :: "(dstate, bytes) gom" where
  "readLZF =
     bnd readLength (\<lambda>(inLen, _).
     bnd readLength (\<lambda>(outLen, _).
     bnd (makeslice 1 (uint inLen)) (\<lambda>_.
     bnd (dec_readFull (unat inLen)) (\<lambda>val.
     liftRes (Decompress val (sint inLen) (sint outLen))))))"

definition readString :: "(dstate, bytes) gom" where
  "readString =
     bnd readLength (\<lambda>(len, special).
       if special then
         (if len = encodeInt8 then bnd dec_readByte (\<lambda>b. ret (itoa (sint b)))
          else if len = encodeInt16 then bnd readInt16 (\<lambda>i. ret (itoa i))
          else if len = encodeInt32 then bnd readInt32 (\<lambda>i. ret (itoa i))
          else if len = encodeLZF then readLZF
          else fail (Msg ''Unknown string encode type ''))
       else bnd (makeslice 1 (uint len)) (\<lambda>_. dec_readFull (unat len)))"

type_synonym float64 = u64

definition negInf :: float64 where "negInf = 0xfff0000000000000"
definition posInf :: float64 where "posInf = 0x7ff0000000000000"
definition NaN :: float64 where "NaN = 0x7ff8000000000001"

text \<open>\<open>parseFloat\<close> is \<^verbatim>\<open>strconv.ParseFloat(s, 64)\<close>, \<open>None\<close> for an error.\<close>

definition readLiteralFloat :: "(bytes \<Rightarrow> float64 option) \<Rightarrow> (dstate, float64) gom" where
  "readLiteralFloat parseFloat =
     bnd dec_readByte (\<lambda>first.
       if first = 0xff then ret negInf
       else if first = 0xfe then ret posInf
       else if first = 0xfd then ret NaN
       else bnd (dec_readFull (unat first)) (\<lambda>buf.
         case parseFloat buf of None \<Rightarrow> fail (Msg '''') | Some v \<Rightarrow> ret v))"

definition readFloat :: "(dstate, float64) gom" where
  "readFloat = bnd (dec_readFull 8) (\<lambda>b. ret (of_nat (le_val b)))"

definition readFloat32 :: "(dstate, u32) gom" where
  "readFloat32 = bnd (dec_readFull 4) (\<lambda>b. ret (of_nat (le_val b)))"

subsection \<open>Encoder\<close>

definition lengthBytes :: "u64 \<Rightarrow> bytes" where
  "lengthBytes value =
     (if unat value \<le> maxUint6 then [ucast value]
      else if unat value \<le> maxUint14 then [ucast (drop_bit 8 value) OR len14BitMask, ucast value]
      else if unat value \<le> 2 ^ 32 - 1 then len32Bit # be_bytes 4 (unat value)
      else len64Bit # be_bytes 8 (unat value))"

definition writeLength :: "u64 \<Rightarrow> (encoder, unit) gom" where
  "writeLength value = enc_write (lengthBytes value)"

definition writeSimpleString :: "bytes \<Rightarrow> (encoder, unit) gom" where
  "writeSimpleString s = bnd (writeLength (of_nat (length s))) (\<lambda>_. enc_write s)"

definition tryWriteIntString :: "bytes \<Rightarrow> (encoder, bool) gom" where
  "tryWriteIntString s = (case isEncodableUint32 s of
     None \<Rightarrow> ret False
   | Some intVal \<Rightarrow>
       if -128 \<le> intVal \<and> intVal \<le> 127 then
         bnd (enc_write [encodeInt8Prefix, of_int intVal]) (\<lambda>_. ret True)
       else if -32768 \<le> intVal \<and> intVal \<le> 32767 then
         bnd (enc_write (encodeInt16Prefix # le_bytes 2 (unat (of_int intVal :: u16)))) (\<lambda>_. ret True)
       else if -2147483648 \<le> intVal \<and> intVal \<le> 2147483647 then
         bnd (enc_write (encodeInt32Prefix # le_bytes 4 (unat (of_int intVal :: u32)))) (\<lambda>_. ret True)
       else ret False)"

definition writeLZFString :: "bytes \<Rightarrow> (encoder, unit) gom" where
  "writeLZFString s =
     bnd (liftRes (Compress s)) (\<lambda>out.
     bnd (enc_write [encodeLZFPrefix]) (\<lambda>_.
     bnd (writeLength (of_nat (length out))) (\<lambda>_.
     bnd (writeLength (of_nat (length s))) (\<lambda>_.
     enc_write out))))"

text \<open>
  The fallback after a failed LZF attempt: an error is dropped and the plain form is
  written; a panic is not an error and propagates.
\<close>

definition writeNanString :: "bytes \<Rightarrow> (encoder, unit) gom" where
  "writeNanString s e =
     (if compress e \<and> 20 < length s then
        (case writeLZFString s e of
           (Inr u, e') \<Rightarrow> (Inr (), e')
         | (Inl (GoPanic p), e') \<Rightarrow> (Inl (GoPanic p), e')
         | (Inl err, e') \<Rightarrow> writeSimpleString s e')
      else writeSimpleString s e)"

definition writeString :: "bytes \<Rightarrow> (encoder, unit) gom" where
  "writeString s = bnd (tryWriteIntString s) (\<lambda>isInt.
     if isInt then ret () else writeNanString s)"

definition writeFloat64 :: "float64 \<Rightarrow> (encoder, unit) gom" where
  "writeFloat64 f = enc_write (le_bytes 8 (unat f))"

subsection \<open>Length round trip\<close>

lemma lenType_eq: "drop_bit 6 (b AND 0xc0) = drop_bit 6 (b :: byte)"
proof -
  have m: "(0xc0 :: byte) = push_bit 6 (mask 2)"
    by (simp add: mask_eq_exp_minus_1 push_bit_eq_mult)
  show ?thesis
    unfolding m by (rule bit_word_eqI) (auto simp: bit_simps dest: bit_imp_le_length)
qed

lemma unat_lenType: "unat (lenType b) = unat (b :: byte) div 64"
  by (simp only: lenType_def lenType_eq unat_drop_bit) simp

lemma lenType_cases:
  "(lenType b = len6Bit) = (unat b div 64 = 0)"
  "(lenType b = len14Bit) = (unat b div 64 = 1)"
  "(lenType b = len32or64Bit) = (unat b div 64 = 2)"
  by (simp_all only: word_unat_eq_iff unat_lenType length_consts) simp_all

lemma low6_eq: "(ucast (b :: byte) AND 0x3f :: u64) = of_nat (unat b mod 64)"
proof -
  have "(0x3f :: u64) = mask 6" by (simp add: mask_eq_exp_minus_1)
  then have "unat (ucast b AND 0x3f :: u64) = unat b mod 64"
    by (simp only: unat_and_mask) (simp add: unsigned_ucast_eq take_bit_nat_eq_self
        order_less_trans [OF unat_byte_less])
  then show ?thesis by (metis of_nat_unat ucast_id)
qed

lemma unat_ucast_byte: "unat (ucast (v :: 'a::len word) :: byte) = unat v mod 256"
  by (simp add: unsigned_ucast_eq take_bit_eq_mod)

lemma word_high_bit:
  assumes "unat (v :: 'a::len word) < 2 ^ n" and "n \<le> i"
  shows "\<not> bit v i"
proof -
  have "take_bit n v = v"
    by (rule unsigned_word_eqI [where 'a = nat])
      (simp add: unsigned_take_bit_eq take_bit_nat_eq_self assms(1))
  then show ?thesis using assms(2) by (metis bit_take_bit_iff not_le)
qed

lemma high14_byte:
  assumes "unat (v :: u64) < 2 ^ 14"
  shows "unat (ucast (drop_bit 8 v) OR len14BitMask :: byte) = 64 + unat v div 256"
proof -
  have h: "unat (ucast (drop_bit 8 v) :: byte) = unat v div 256"
    using assms by (simp add: unat_ucast_byte unat_drop_bit)
  have "ucast (drop_bit 8 v) AND (0x40 :: byte) = 0"
  proof (rule bit_word_eqI)
    fix n
    have "bit (0x40 :: byte) n \<Longrightarrow> n = 6"
      using bit_exp_iff [where 'a = byte, of 6 n] by simp
    moreover have "\<not> bit v 14" using assms by (rule word_high_bit) simp
    ultimately show "bit (ucast (drop_bit 8 v) AND (0x40 :: byte)) n = bit 0 n"
      by (auto simp: bit_simps)
  qed
  then have "unat (ucast (drop_bit 8 v) OR (0x40 :: byte)) = unat v div 256 + 64"
    by (simp add: unat_or_disjoint h)
  then show ?thesis by (simp add: len14BitMask_def)
qed

lemma byte14_value:
  assumes "unat (v :: u64) < 2 ^ 14"
  shows "push_bit 8 (of_nat (unat v div 256)) OR ucast (ucast v :: byte) = v"
proof -
  have "unat v div 256 = unat (drop_bit 8 v)" by (simp only: unat_drop_bit) simp
  then have "push_bit 8 (of_nat (unat v div 256)) = push_bit 8 (drop_bit 8 v)" by simp
  moreover have "ucast (ucast v :: byte) = (v AND mask 8)"
    by (rule bit_word_eqI) (auto simp: bit_simps dest: bit_imp_le_length)
  moreover have "push_bit 8 (drop_bit 8 v) OR (v AND mask 8) = v"
    by (rule bit_word_eqI) (auto simp: bit_simps)
  ultimately show ?thesis by simp
qed

lemma readLength_step:
  assumes "dparses (readLengthRest b) bs y"
  shows "dparses readLength (b # bs) y"
  using src.parses_bnd [OF src.parses_wrapErr [OF dec_readByte_parses], of readLengthRest b bs y] assms
  by (simp add: readLength_def)

lemma readLength_parses: "dparses readLength (lengthBytes v) (v, False)"
proof -
  consider (a) "unat v \<le> 63" | (b) "63 < unat v" "unat v \<le> 2 ^ 14 - 1"
    | (c) "2 ^ 14 - 1 < unat v" "unat v \<le> 2 ^ 32 - 1" | (d) "2 ^ 32 - 1 < unat v" by linarith
  then show ?thesis
  proof cases
    case a
    then have "unat (ucast v :: byte) = unat v" by (simp add: unat_ucast_byte)
    with a have "dparses readLength [ucast v] (v, False)"
      by (intro readLength_step) (simp add: readLengthRest_def lenType_cases low6_eq src.parses_ret)
    with a show ?thesis by (simp add: lengthBytes_def maxUint6_def)
  next
    case b
    let ?h = "ucast (drop_bit 8 v) OR len14BitMask :: byte"
    have h: "unat ?h = 64 + unat v div 256" using b by (intro high14_byte) simp
    have q: "unat v div 256 < 64" using b by simp
    have low: "(ucast ?h AND 0x3f :: u64) = of_nat (unat v div 256)"
      using q by (simp only: low6_eq h) (simp add: mod_add_self1)
    have t: "lenType ?h \<noteq> len6Bit" "lenType ?h = len14Bit"
      using q unfolding lenType_cases h by simp_all
    have body: "readLengthRest ?h = bnd (wrapErr ''read len14Bit failed'' dec_readByte)
        (\<lambda>nextByte. ret (push_bit 8 (of_nat (unat v div 256)) OR ucast nextByte, False))"
      by (simp add: readLengthRest_def t(2) low) (simp add: length_consts)
    have "dparses (readLengthRest ?h) [ucast v] (v, False)"
      unfolding body
      by (rule src.parses_bnd_ret [OF src.parses_wrapErr [OF dec_readByte_parses]])
        (use b byte14_value [of v] in simp)
    then have "dparses readLength (?h # [ucast v]) (v, False)" by (rule readLength_step)
    with b show ?thesis by (simp add: lengthBytes_def maxUint6_def maxUint14_def)
  next
    case c
    have "dparses readLength (len32Bit # be_bytes 4 (unat v)) (v, False)"
    proof (rule readLength_step)
      have "unat v < 256 ^ 4" using c by simp
      then have "be_val (be_bytes 4 (unat v)) = unat v" by (simp only: be_val_be_bytes mod_less)
      then have v: "(v, False) = (of_nat (be_val (be_bytes 4 (unat v))), False)" by simp
      have "readLengthRest len32Bit =
          bnd (wrapErr ''read len32Bit failed'' (dec_readFull 4)) (\<lambda>b. ret (of_nat (be_val b), False))"
        by (simp add: readLengthRest_def lenType_cases len32Bit_def)
      then show "dparses (readLengthRest len32Bit) (be_bytes 4 (unat v)) (v, False)"
        using src.parses_bnd_ret [where f = "\<lambda>b. (of_nat (be_val b), False)",
            OF src.parses_wrapErr [OF dec_readFull_parses [of "be_bytes 4 (unat v)" 4]] v] by simp
    qed
    with c show ?thesis by (simp add: lengthBytes_def maxUint6_def maxUint14_def)
  next
    case d
    have "dparses readLength (len64Bit # be_bytes 8 (unat v)) (v, False)"
    proof (rule readLength_step)
      have v: "(v, False) = (of_nat (be_val (be_bytes 8 (unat v))), False)" by simp
      have "readLengthRest len64Bit =
          bnd (wrapErr ''read len64Bit failed'' (dec_readFull 8)) (\<lambda>b. ret (of_nat (be_val b), False))"
        by (simp add: readLengthRest_def lenType_cases len32Bit_def len64Bit_def)
      then show "dparses (readLengthRest len64Bit) (be_bytes 8 (unat v)) (v, False)"
        using src.parses_bnd_ret [where f = "\<lambda>b. (of_nat (be_val b), False)",
            OF src.parses_wrapErr [OF dec_readFull_parses [of "be_bytes 8 (unat v)" 8]] v] by simp
    qed
    with d show ?thesis by (simp add: lengthBytes_def maxUint6_def maxUint14_def)
  qed
qed

lemma readLength_special:
  "dparses readLength [encodeInt8Prefix] (encodeInt8, True)"
  "dparses readLength [encodeInt16Prefix] (encodeInt16, True)"
  "dparses readLength [encodeInt32Prefix] (encodeInt32, True)"
  "dparses readLength [encodeLZFPrefix] (encodeLZF, True)"
  by (rule readLength_step;
      simp add: readLengthRest_def lenType_cases low6_eq string_consts src.parses_ret)+

lemma readLengthRest_advances: "dadvances (readLengthRest b)"
  unfolding readLengthRest_def by (intro dec_advances)

lemma readLength_advances: "dadvances readLength"
  unfolding readLength_def by (intro dec_advances readLengthRest_advances)

text \<open>A successful length read consumes at least one byte.\<close>

lemma readLength_progress:
  assumes "readLength d = (Inr x, d')"
  shows "length (input d') < length (input d)"
proof -
  obtain b d1 where b: "dec_readByte d = (Inr b, d1)" and r: "readLengthRest b d1 = (Inr x, d')"
    using assms by (auto simp: readLength_def bnd_eq_Inr_iff)
  from dec_readByte_Inr [OF b] have d1: "input d \<noteq> []" "d1 = dec_adv 1 d" by auto
  have "length (input d') \<le> length (input d1)"
    by (rule advances_length [OF readLengthRest_advances r])
  with d1 show ?thesis by (cases "input d") auto
qed

subsection \<open>Binary numbers\<close>

lemma of_nat_le_val_u16: "of_nat (le_val (le_bytes 2 (unat (x :: u16)))) = x"
  and of_nat_le_val_u32: "of_nat (le_val (le_bytes 4 (unat (y :: u32)))) = y"
  and of_nat_le_val_u64: "of_nat (le_val (le_bytes 8 (unat (z :: u64)))) = z"
  by simp_all

lemma sint_of_int: "- (2 ^ (LENGTH('a::len) - 1)) \<le> i \<Longrightarrow> i < 2 ^ (LENGTH('a) - 1) \<Longrightarrow> sint (of_int i :: 'a word) = i"
  by (simp add: signed_of_int signed_take_bit_int_eq_self)

lemma readInt16_parses: "dparses readInt16 (le_bytes 2 (unat (x :: u16))) (sint x)"
  unfolding readInt16_def
  by (rule src.parses_bnd_ret [OF src.parses_wrapErr [OF dec_readFull_parses]]) simp_all

lemma readInt32_parses: "dparses readInt32 (le_bytes 4 (unat (x :: u32))) (sint x)"
  unfolding readInt32_def
  by (rule src.parses_bnd_ret [OF src.parses_wrapErr [OF dec_readFull_parses]]) simp_all

lemma readInt64_parses: "dparses readInt64 (le_bytes 8 (unat (x :: u64))) (sint x)"
  unfolding readInt64_def
  by (rule src.parses_bnd_ret [OF src.parses_wrapErr [OF dec_readFull_parses]]) simp_all

lemma readFloat_parses: "dparses readFloat (le_bytes 8 (unat f)) f"
  unfolding readFloat_def
  by (rule src.parses_bnd_ret [OF dec_readFull_parses]) simp_all

lemma writeFloat64_writes: "ewrites c (writeFloat64 f) (le_bytes 8 (unat f)) ()"
  unfolding writeFloat64_def by (rule enc_write_writes)

lemma writeLength_writes: "ewrites c (writeLength v) (lengthBytes v) ()"
  unfolding writeLength_def by (rule enc_write_writes)

subsection \<open>Strings\<close>

definition simpleBytes :: "bytes \<Rightarrow> bytes" where
  "simpleBytes s = lengthBytes (of_nat (length s)) @ s"

definition lzfBytes :: "bytes \<Rightarrow> bytes \<Rightarrow> bytes" where
  "lzfBytes s cs = encodeLZFPrefix # lengthBytes (of_nat (length cs)) @
     lengthBytes (of_nat (length s)) @ cs"

definition nanBytes :: "bool \<Rightarrow> bytes \<Rightarrow> bytes" where
  "nanBytes c s =
     (if c \<and> 20 < length s
      then (case Compress s of Inr cs \<Rightarrow> lzfBytes s cs | Inl _ \<Rightarrow> simpleBytes s)
      else simpleBytes s)"

definition intBytes :: "int \<Rightarrow> bytes" where
  "intBytes i =
     (if i \<le> 127 then [encodeInt8Prefix, of_int i]
      else if i \<le> 32767 then encodeInt16Prefix # le_bytes 2 (unat (of_int i :: u16))
      else encodeInt32Prefix # le_bytes 4 (unat (of_int i :: u32)))"

definition stringBytes :: "bool \<Rightarrow> bytes \<Rightarrow> bytes" where
  "stringBytes c s = (case isEncodableUint32 s of Some i \<Rightarrow> intBytes i | None \<Rightarrow> nanBytes c s)"

text \<open>
  The strings the theorems are about: they fit the address space, and the LZF compressor,
  whose positions are 32-bit, only sees shorter ones.
\<close>

definition string_ok :: "bool \<Rightarrow> bytes \<Rightarrow> bool" where
  "string_ok c s \<longleftrightarrow> int (length s) \<le> maxAlloc \<and> (c \<longrightarrow> length s < 2 ^ 32)"

lemma writeSimpleString_writes: "ewrites c (writeSimpleString s) (simpleBytes s) ()"
  unfolding writeSimpleString_def simpleBytes_def
  by (intro sink.writes_seq writeLength_writes enc_write_writes)

lemma writeLZFString_writes:
  assumes "Compress s = Inr cs"
  shows "ewrites c (writeLZFString s) (lzfBytes s cs) ()"
proof -
  have "ewrites c (liftRes (Compress s)) [] cs"
    using assms sink.emit_Nil by (simp add: writes_def liftRes_def)
  moreover have "ewrites c (bnd (enc_write [encodeLZFPrefix]) (\<lambda>_.
      bnd (writeLength (of_nat (length cs))) (\<lambda>_.
      bnd (writeLength (of_nat (length s))) (\<lambda>_. enc_write cs))))
      ([encodeLZFPrefix] @ lengthBytes (of_nat (length cs)) @ lengthBytes (of_nat (length s)) @ cs) ()"
    by (intro sink.writes_seq writeLength_writes enc_write_writes)
  ultimately have "ewrites c (writeLZFString s) ([] @ ([encodeLZFPrefix] @
      lengthBytes (of_nat (length cs)) @ lengthBytes (of_nat (length s)) @ cs)) ()"
    unfolding writeLZFString_def by (rule sink.writes_bnd)
  then show ?thesis by (simp add: lzfBytes_def)
qed

lemma writeNanString_writes:
  assumes "string_ok c s"
  shows "ewrites c (writeNanString s) (nanBytes c s) ()"
proof (cases "c \<and> 20 < length s")
  case True
  then have s: "length s < 2 ^ 32" "length s \<noteq> 1" using assms by (auto simp: string_ok_def)
  show ?thesis
  proof (cases "Compress s")
    case (Inr cs)
    with True writeLZFString_writes [OF Inr, of c] show ?thesis
      by (auto simp: writes_def writeNanString_def nanBytes_def)
  next
    case (Inl e)
    then have "e = errInsufficientBuffer" using Compress_no_panic [OF s] by auto
    then have "writeLZFString s en = (Inl errInsufficientBuffer, en)" for en
      using Inl by (simp add: writeLZFString_def liftRes_def bnd_Inl)
    with True Inl writeSimpleString_writes [of c s] show ?thesis
      by (auto simp: writes_def writeNanString_def nanBytes_def errInsufficientBuffer_def)
  qed
next
  case False
  with writeSimpleString_writes [of c s] show ?thesis
    by (auto simp: writes_def writeNanString_def nanBytes_def)
qed

lemma tryWriteIntString_writes:
  "ewrites c (tryWriteIntString s)
     (case isEncodableUint32 s of Some i \<Rightarrow> intBytes i | None \<Rightarrow> []) (isEncodableUint32 s \<noteq> None)"
proof (cases "isEncodableUint32 s")
  case None
  then show ?thesis by (simp add: tryWriteIntString_def sink.writes_ret)
next
  case (Some i)
  have w: "ewrites c (bnd (enc_write p) (\<lambda>_. ret True)) p True" for p
    by (intro sink.writes_last enc_write_writes)
  from isEncodableUint32_Some [OF Some] Some show ?thesis
    by (auto simp: tryWriteIntString_def intBytes_def w)
qed

lemma writeString_writes:
  assumes "string_ok c s"
  shows "ewrites c (writeString s) (stringBytes c s) ()"
proof (cases "isEncodableUint32 s")
  case None
  have "ewrites c (writeString s) ([] @ nanBytes c s) ()"
    unfolding writeString_def using None tryWriteIntString_writes [of c s]
    by (intro sink.writes_bnd [of c _ _ False]) (simp_all add: writeNanString_writes assms)
  with None show ?thesis by (simp add: stringBytes_def)
next
  case (Some i)
  have "ewrites c (writeString s) (intBytes i @ []) ()"
    unfolding writeString_def using Some tryWriteIntString_writes [of c s]
    by (intro sink.writes_bnd [of c _ _ True]) (simp_all add: sink.writes_ret)
  with Some show ?thesis by (simp add: stringBytes_def)
qed

text \<open>Reading back.\<close>

lemma unat_of_length: "int n \<le> maxAlloc \<Longrightarrow> unat (of_nat n :: u64) = n"
  by (simp add: unat_of_nat maxAlloc_def)

lemma uint_of_length: "int n \<le> maxAlloc \<Longrightarrow> uint (of_nat n :: u64) = int n"
  using unat_of_length [of n] by (metis int_nat_eq uint_nat)

lemma sint_of_length: "int n \<le> maxAlloc \<Longrightarrow> sint (of_nat n :: u64) = int n"
  using sint_of_int [of "int n", where 'a = 64] by (simp add: maxAlloc_def)

lemma makeslice_parses: "0 \<le> n \<Longrightarrow> n * e \<le> maxAlloc \<Longrightarrow> dparses (makeslice e n) [] ()"
  by (rule src.parses_pure) (rule makeslice_ok)

lemma readString_after:
  assumes "dparses readLength bs (len, special)"
    and "dparses (if special then
         (if len = encodeInt8 then bnd dec_readByte (\<lambda>b. ret (itoa (sint b)))
          else if len = encodeInt16 then bnd readInt16 (\<lambda>i. ret (itoa i))
          else if len = encodeInt32 then bnd readInt32 (\<lambda>i. ret (itoa i))
          else if len = encodeLZF then readLZF
          else fail (Msg ''Unknown string encode type ''))
       else bnd (makeslice 1 (uint len)) (\<lambda>_. dec_readFull (unat len))) bs' s"
  shows "dparses readString (bs @ bs') s"
  unfolding readString_def
  by (rule src.parses_bnd [OF assms(1)]) (use assms(2) in simp)

lemma readString_simple:
  assumes "int (length s) \<le> maxAlloc"
  shows "dparses readString (simpleBytes s) s"
  unfolding simpleBytes_def
proof (rule readString_after [OF readLength_parses])
  have "dparses (bnd (makeslice 1 (int (length s))) (\<lambda>_. dec_readFull (length s))) ([] @ s) s"
    using assms by (intro src.parses_bnd [OF makeslice_parses] dec_readFull_parses) auto
  with assms show "dparses (if False then
         (if of_nat (length s) = encodeInt8 then bnd dec_readByte (\<lambda>b. ret (itoa (sint b)))
          else if of_nat (length s) = encodeInt16 then bnd readInt16 (\<lambda>i. ret (itoa i))
          else if of_nat (length s) = encodeInt32 then bnd readInt32 (\<lambda>i. ret (itoa i))
          else if of_nat (length s) = encodeLZF then readLZF
          else fail (Msg ''Unknown string encode type ''))
       else bnd (makeslice 1 (uint (of_nat (length s) :: u64)))
              (\<lambda>_. dec_readFull (unat (of_nat (length s) :: u64)))) s s"
    by (simp add: unat_of_length uint_of_length)
qed

lemma readLZF_parses:
  assumes "length s < 2 ^ 32" and "Compress s = Inr cs"
  shows "dparses readLZF (lengthBytes (of_nat (length cs)) @ lengthBytes (of_nat (length s)) @ cs) s"
proof -
  have l: "int (length s) \<le> maxAlloc" using assms(1) by (simp add: maxAlloc_def)
  then have k: "int (length cs) \<le> maxAlloc" using Compress_expands [OF assms] by linarith
  have "dparses (liftRes (Decompress cs (int (length cs)) (int (length s)))) [] s"
    by (rule src.parses_pure) (simp add: liftRes_def Decompress_Compress [OF assms(1,2)])
  then have "dparses (bnd (dec_readFull (length cs))
      (\<lambda>val. liftRes (Decompress val (int (length cs)) (int (length s))))) (cs @ []) s"
    by (intro src.parses_bnd [OF dec_readFull_parses]) simp_all
  then have "dparses (bnd (makeslice 1 (int (length cs))) (\<lambda>_. bnd (dec_readFull (length cs))
      (\<lambda>val. liftRes (Decompress val (int (length cs)) (int (length s)))))) ([] @ cs) s"
    using k by (intro src.parses_bnd [OF makeslice_parses]) simp_all
  then show ?thesis
    unfolding readLZF_def using k l
    by (intro src.parses_bnd [OF readLength_parses])
      (simp add: unat_of_length uint_of_length sint_of_length
        src.parses_bnd [OF readLength_parses])
qed

lemma readString_lzf:
  assumes "length s < 2 ^ 32" and "Compress s = Inr cs"
  shows "dparses readString (lzfBytes s cs) s"
proof -
  have "dparses readString ([encodeLZFPrefix] @
      (lengthBytes (of_nat (length cs)) @ lengthBytes (of_nat (length s)) @ cs)) s"
    by (rule readString_after [OF readLength_special(4)])
      (simp add: string_consts readLZF_parses [OF assms])
  then show ?thesis by (simp add: lzfBytes_def)
qed

lemma readString_nan: "string_ok c s \<Longrightarrow> dparses readString (nanBytes c s) s"
  by (auto simp: nanBytes_def string_ok_def readString_simple readString_lzf split: sum.splits)

lemma readString_int:
  assumes "0 \<le> i" "i < 2 ^ 31"
  shows "dparses readString (intBytes i) (itoa i)"
proof -
  consider (a) "i \<le> 127" | (b) "127 < i" "i \<le> 32767" | (c) "32767 < i" by linarith
  then show ?thesis
  proof cases
    case a
    have "sint (of_int i :: byte) = i" using a assms(1) by (intro sint_of_int) auto
    then have "dparses (bnd dec_readByte (\<lambda>b. ret (itoa (sint b)))) [of_int i] (itoa i)"
      by (intro src.parses_bnd_ret [OF dec_readByte_parses]) simp
    then have "dparses readString ([encodeInt8Prefix] @ [of_int i]) (itoa i)"
      by (intro readString_after [OF readLength_special(1)]) simp
    with a show ?thesis by (simp add: intBytes_def)
  next
    case b
    have "sint (of_int i :: u16) = i" using b by (intro sint_of_int) auto
    then have "dparses (bnd readInt16 (\<lambda>i. ret (itoa i))) (le_bytes 2 (unat (of_int i :: u16))) (itoa i)"
      by (intro src.parses_bnd_ret [OF readInt16_parses]) simp
    then have "dparses readString ([encodeInt16Prefix] @ le_bytes 2 (unat (of_int i :: u16))) (itoa i)"
      by (intro readString_after [OF readLength_special(2)]) (simp add: string_consts)
    with b show ?thesis by (simp add: intBytes_def)
  next
    case c
    have "sint (of_int i :: u32) = i" using c assms by (intro sint_of_int) auto
    then have "dparses (bnd readInt32 (\<lambda>i. ret (itoa i))) (le_bytes 4 (unat (of_int i :: u32))) (itoa i)"
      by (intro src.parses_bnd_ret [OF readInt32_parses]) simp
    then have "dparses readString ([encodeInt32Prefix] @ le_bytes 4 (unat (of_int i :: u32))) (itoa i)"
      by (intro readString_after [OF readLength_special(3)]) (simp add: string_consts)
    with c show ?thesis by (simp add: intBytes_def)
  qed
qed

lemma readString_parses: "string_ok c s \<Longrightarrow> dparses readString (stringBytes c s) s"
  using isEncodableUint32_Some [of s] readString_int
  by (auto simp: stringBytes_def readString_nan split: option.splits)

subsection \<open>Both codecs are item codecs of the decoder's stream\<close>

interpretation len_codec: item_codec dec_at dec_adv lengthBytes
    "bnd readLength (\<lambda>(v, _). ret v)" "\<lambda>_. True"
proof unfold_locales
  fix v :: u64
  have "dparses (bnd readLength (\<lambda>(v, _). ret v)) (lengthBytes v @ []) v"
    by (rule src.parses_bnd [OF readLength_parses]) (simp add: src.parses_ret)
  then show "dparses (bnd readLength (\<lambda>(v, _). ret v)) (lengthBytes v) v" by simp
qed

interpretation str_codec: item_codec dec_at dec_adv "stringBytes c" readString "string_ok c" for c
  by unfold_locales (rule readString_parses)

subsection \<open>Movement\<close>

lemma liftRes_advances: "dadvances (liftRes r)"
  by (rule src.advances_pure) (simp add: liftRes_def)

lemma readString_advances: "dadvances readString"
  unfolding readString_def readLZF_def readInt16_def readInt32_def
  by (intro dec_advances readLength_advances liftRes_advances)

lemma readInt64_advances: "dadvances readInt64"
  unfolding readInt64_def by (intro dec_advances)

lemma readFloat_advances: "dadvances readFloat"
  unfolding readFloat_def by (intro dec_advances)

lemma readFloat32_advances: "dadvances readFloat32"
  unfolding readFloat32_def by (intro dec_advances)

lemma readLiteralFloat_advances: "dadvances (readLiteralFloat pf)"
  unfolding readLiteralFloat_def by (intro dec_advances)

lemma writeLength_appends: "appends (writeLength n)"
  unfolding writeLength_def by (rule appends_write)

lemma liftRes_appends: "appends (liftRes r)"
  by (rule appends_pure) (simp add: liftRes_def)

lemma writeSimpleString_appends: "appends (writeSimpleString s)"
  unfolding writeSimpleString_def by (intro enc_appends writeLength_appends)

lemma writeLZFString_appends: "appends (writeLZFString s)"
  unfolding writeLZFString_def by (intro enc_appends writeLength_appends liftRes_appends)

text \<open>The second attempt continues where a failed first attempt left the encoder.\<close>

lemma writeNanString_appends: "appends (writeNanString s)"
proof (rule appends_seq)
  let ?m = "\<lambda>e. if compress e \<and> 20 < length s then writeLZFString s e else (Inr (), e)"
  have "appends (bnd (getEnc compress) (\<lambda>c. if c \<and> 20 < length s then writeLZFString s else ret ()))"
    by (intro enc_appends writeLZFString_appends)
  moreover have "bnd (getEnc compress) (\<lambda>c. if c \<and> 20 < length s then writeLZFString s else ret ()) = ?m"
    by (rule ext) (simp add: ret_def)
  ultimately show "appends ?m" by simp
  show "appends (writeSimpleString s)" by (rule writeSimpleString_appends)
  show "snd (writeNanString s e) = snd (?m e) \<or> snd (writeNanString s e) = snd (writeSimpleString s (snd (?m e)))" for e
    by (auto simp: writeNanString_def split: prod.split sum.split go_error.split)
qed

lemma tryWriteIntString_appends: "appends (tryWriteIntString s)"
  unfolding tryWriteIntString_def by (intro enc_appends)

lemma writeString_appends: "appends (writeString s)"
  unfolding writeString_def by (intro enc_appends tryWriteIntString_appends writeNanString_appends)

lemma writeFloat64_appends: "appends (writeFloat64 f)"
  unfolding writeFloat64_def by (rule appends_write)

lemmas string_appends =
  enc_appends writeLength_appends writeNanString_appends writeString_appends writeFloat64_appends

lemmas string_advances =
  dec_advances readLength_advances readString_advances readInt64_advances readFloat_advances
  readFloat32_advances readLiteralFloat_advances liftRes_advances

subsection \<open>Properties\<close>

text \<open>
  Every 64-bit length that \<open>writeLength\<close> writes is read back by \<open>readLength\<close> as a
  plain length, consuming exactly the written bytes, whatever follows them.
\<close>

theorem length_roundtrip:
  assumes "ready e"
  shows "\<exists>bs. writeLength v e = (Inr (), emit bs e) \<and>
    (\<forall>d rest. input d = bs @ rest \<longrightarrow> readLength d = (Inr (v, False), dec_adv (length bs) d))"
  using assms sink.writes_apply [OF writeLength_writes] src.parses_apply [OF readLength_parses]
  by blast

theorem length_roundtrip_witness:
  "\<exists>bs. writeLength 1000 (newEncoder (\<lambda>_ _. None)) = (Inr (), emit bs (newEncoder (\<lambda>_ _. None))) \<and>
    (\<forall>d rest. input d = bs @ rest \<longrightarrow> readLength d = (Inr (1000, False), dec_adv (length bs) d))"
  by (rule length_roundtrip) (simp add: ready_newEncoder)

text \<open>
  C9: every string that \<open>writeString\<close> writes, as an integer, compressed or plain, is read
  back by \<open>readString\<close> as the same bytes, consuming exactly the written bytes.
\<close>

theorem string_roundtrip:
  assumes "ready e" and "string_ok (compress e) s"
  shows "\<exists>bs. writeString s e = (Inr (), emit bs e) \<and>
    (\<forall>d rest. input d = bs @ rest \<longrightarrow> readString d = (Inr s, dec_adv (length bs) d))"
  using sink.writes_apply [OF writeString_writes [OF assms(2)]] assms(1)
    src.parses_apply [OF readString_parses [OF assms(2)]]
  by blast

theorem string_roundtrip_witness:
  "\<exists>bs. writeString (strlit ''12345'') (enableCompress (newEncoder (\<lambda>_ _. None))) =
      (Inr (), emit bs (enableCompress (newEncoder (\<lambda>_ _. None)))) \<and>
    (\<forall>d rest. input d = bs @ rest \<longrightarrow> readString d = (Inr (strlit ''12345''), dec_adv (length bs) d))"
  by (rule string_roundtrip)
    (simp_all add: ready_newEncoder enableCompress_def string_ok_def maxAlloc_def strlit_def)

end
