(* ===== verification/ZipList.thy ===== *)
theory ZipList
  imports StringCodec
begin

unbundle bit_operations_syntax

section \<open>Ziplists (core/ziplist.go, and the ziplist writer of core/list.go)\<close>

text \<open>
  A ziplist is a string: a ten-byte header (total bytes, offset of the last entry, number
  of entries), entries that each start with the length of the entry before, and an end
  byte.  The entry reader and writer, the list reader and writer, and the round trip for
  the values the writer encodes correctly: every string that is the decimal form of a
  non-negative 64-bit integer, and every other string of at most 16383 bytes.  Longer
  strings are written with a length the reader does not understand;
  the properties state what is read back.
\<close>

definition zipStr06B :: byte where "zipStr06B = 0"
definition zipStr14B :: byte where "zipStr14B = 1"
definition zipStr32B :: byte where "zipStr32B = 2"
definition zipInt04B :: byte where "zipInt04B = 0x0f"
definition zipInt08B :: byte where "zipInt08B = 0xfe"
definition zipInt16B :: byte where "zipInt16B = 0xc0"
definition zipInt24B :: byte where "zipInt24B = 0xf0"
definition zipInt32B :: byte where "zipInt32B = 0xd0"
definition zipInt64B :: byte where "zipInt64B = 0xe0"
definition zipBigPrevLen :: byte where "zipBigPrevLen = 0xfe"

lemmas zip_consts =
  zipStr06B_def zipStr14B_def zipStr32B_def zipInt04B_def zipInt08B_def zipInt16B_def
  zipInt24B_def zipInt32B_def zipInt64B_def zipBigPrevLen_def

subsection \<open>Reader\<close>

text \<open>Three bytes as a signed integer: shifted up by a zero byte, then down arithmetically.\<close>

definition int24 :: "bytes \<Rightarrow> int" where
  "int24 bs = sint (signed_drop_bit 8 (of_nat (le_val (0 # bs)) :: u32))"

definition readZipListPayload :: "bytes \<Rightarrow> byte \<Rightarrow> (nat, bytes) gom" where
  "readZipListPayload buf header =
     (if drop_bit 6 header = zipStr06B then buf_readBytes buf (unat (header AND 0x3f))
      else if drop_bit 6 header = zipStr14B then
        bnd (buf_index buf) (\<lambda>b. buf_readBytes buf (push_bit 8 (unat (header AND 0x3f)) OR unat b))
      else if drop_bit 6 header = zipStr32B then
        bnd (buf_readBytes buf 4) (\<lambda>lenBytes. buf_readBytes buf (be_val lenBytes))
      else if header = zipInt08B then
        bnd (buf_readByte buf) (\<lambda>b. ret (itoa (sint b)))
      else if header = zipInt16B then
        bnd (buf_readBytes buf 2) (\<lambda>bs. ret (itoa (sint (of_nat (le_val bs) :: u16))))
      else if header = zipInt32B then
        bnd (buf_readBytes buf 4) (\<lambda>bs. ret (itoa (sint (of_nat (le_val bs) :: u32))))
      else if header = zipInt64B then
        bnd (buf_readBytes buf 8) (\<lambda>bs. ret (itoa (sint (of_nat (le_val bs) :: u64))))
      else if header = zipInt24B then
        bnd (buf_readBytes buf 3) (\<lambda>bs. ret (itoa (int24 bs)))
      else if drop_bit 4 header = zipInt04B then ret (itoa (uint (header AND 0x0f) - 1))
      else fail (Msg ''unknown entry header''))"

definition readZipListEntry :: "bytes \<Rightarrow> (nat, bytes) gom" where
  "readZipListEntry buf =
     bnd (buf_index buf) (\<lambda>prevLen.
     bnd (if prevLen = zipBigPrevLen then buf_skip 4 else ret ()) (\<lambda>_.
     bnd (buf_index buf) (readZipListPayload buf)))"

definition readZipList :: "(dstate, bytes list) gom" where
  "readZipList =
     bnd readString (\<lambda>buf.
     onBuf (bnd (readZipListLength buf) (\<lambda>size. readN size (readZipListEntry buf))))"

subsection \<open>Writer\<close>

definition zipPrevLenBytes :: "u32 \<Rightarrow> bytes" where
  "zipPrevLenBytes prevLen =
     (if prevLen < 0xfe then [ucast prevLen] else 0xfe # le_bytes 4 (unat prevLen))"

definition zipIntBytes :: "int \<Rightarrow> bytes" where
  "zipIntBytes intVal =
     (if 0 \<le> intVal \<and> intVal \<le> 12 then [0xf0 OR of_int (intVal + 1)]
      else if -128 \<le> intVal \<and> intVal \<le> 127 then [zipInt08B, of_int intVal]
      else if - (2 ^ 23) \<le> intVal \<and> intVal \<le> 2 ^ 23 - 1 then
        zipInt24B # take 3 (le_bytes 4 (unat (of_int intVal :: u32)))
      else if - (2 ^ 31) \<le> intVal \<and> intVal \<le> 2 ^ 31 - 1 then
        zipInt32B # le_bytes 4 (unat (of_int intVal :: u32))
      else zipInt64B # le_bytes 8 (unat (of_int intVal :: u64)))"

definition zipStrBytes :: "bytes \<Rightarrow> bytes res" where
  "zipStrBytes val =
     (if length val \<le> maxUint6 then Inr (of_nat (length val) # val)
      else if length val \<le> maxUint14 then
        Inr ((of_nat (length val div 256) OR len14BitMask) # of_nat (length val) # val)
      else if length val \<le> 2 ^ 32 - 1 then
        Inr (0x80 # le_bytes 4 (length val) @ [0, 0, 0, 0] @ val)
      else Inl (GoPanic ''too large string''))"

definition encodeZipListEntry :: "u32 \<Rightarrow> bytes \<Rightarrow> bytes res" where
  "encodeZipListEntry prevLen val = (case isEncodableUint64 val of
     Some intVal \<Rightarrow> Inr (zipPrevLenBytes prevLen @ zipIntBytes intVal)
   | None \<Rightarrow> map_sum id (\<lambda>s. zipPrevLenBytes prevLen @ s) (zipStrBytes val))"

text \<open>The loop of \<^verbatim>\<open>writeZipList\<close>: the entries so far, \<^verbatim>\<open>zlBytes\<close> and \<^verbatim>\<open>zlTail\<close>.\<close>

fun zipListLoop :: "u32 \<Rightarrow> bytes \<Rightarrow> nat \<Rightarrow> nat \<Rightarrow> bytes list \<Rightarrow> (bytes \<times> nat \<times> nat) res" where
  "zipListLoop prevLen buf zlBytes zlTail [] = Inr (buf, zlBytes, zlTail)"
| "zipListLoop prevLen buf zlBytes zlTail (value # values) =
     (case encodeZipListEntry prevLen value of
        Inl e \<Rightarrow> Inl e
      | Inr entry \<Rightarrow>
          zipListLoop (of_nat (length entry)) (buf @ entry) (zlBytes + length entry)
            (if values \<noteq> [] then zlTail + length entry else zlTail) values)"

definition zipListBytes :: "bytes list \<Rightarrow> bytes res" where
  "zipListBytes values = (case zipListLoop 0 [] 11 10 values of
     Inl e \<Rightarrow> Inl e
   | Inr (entries, zlBytes, zlTail) \<Rightarrow>
       Inr ((le_bytes 4 zlBytes @ le_bytes 4 zlTail @ le_bytes 2 (length values)) @ entries @ [0xff]))"

definition writeZipList :: "bytes list \<Rightarrow> (encoder, unit) gom" where
  "writeZipList values = bnd (liftRes (zipListBytes values)) writeNanString"

subsection \<open>Integers\<close>

lemma byte_high2: "unat (drop_bit 6 (b :: byte)) = unat b div 64"
  and byte_high4: "unat (drop_bit 4 (b :: byte)) = unat b div 16"
  by (simp_all only: unat_drop_bit) simp_all

lemma byte_low6: "unat (b AND 0x3f :: byte) = unat b mod 64"
  by (simp only: byte_masks unat_and_mask) simp

lemma byte_low4: "unat (b AND 0x0f :: byte) = unat b mod 16"
  by (simp only: byte_masks unat_and_mask) simp

lemma zipType_cases:
  "(drop_bit 6 (b :: byte) = zipStr06B) = (unat b div 64 = 0)"
  "(drop_bit 6 b = zipStr14B) = (unat b div 64 = 1)"
  "(drop_bit 6 b = zipStr32B) = (unat b div 64 = 2)"
  "(drop_bit 4 b = zipInt04B) = (unat b div 16 = 15)"
  by (simp_all only: word_unat_eq_iff byte_high2 byte_high4 zip_consts) simp_all

lemma nat_shift_or: "y < 256 \<Longrightarrow> push_bit 8 x OR y = x * 256 + (y :: nat)"
proof -
  assume y: "y < 256"
  have "push_bit 8 x AND y = 0"
  proof (rule bit_eqI)
    fix n
    have "take_bit 8 y = y" using y by (simp add: take_bit_nat_eq_self_iff)
    then have "bit y n \<Longrightarrow> n < 8" by (metis bit_take_bit_iff)
    then show "bit (push_bit 8 x AND y) n = bit 0 n" by (auto simp: bit_simps)
  qed
  then have "push_bit 8 x OR y = push_bit 8 x + y" by (rule disjunctive_add_eq_or [symmetric])
  then show ?thesis by (simp add: push_bit_eq_mult)
qed

lemma int24_le:
  assumes "- (2 ^ 23) \<le> i" and "i < 2 ^ 23"
  shows "int24 (take 3 (le_bytes 4 (unat (of_int i :: u32)))) = i"
proof -
  let ?u = "unat (of_int i :: u32)"
  have take3: "take 3 (le_bytes 4 ?u) = le_bytes 3 ?u"
    by (rule take_le_bytes) simp
  have "le_val (0 # le_bytes 3 ?u) = 256 * (?u mod 2 ^ 24)"
    by (simp add: le_val_le_bytes)
  also have "\<dots> = 256 * ?u mod 2 ^ 32"
    by (simp add: mult_mod_right)
  finally have "(of_nat (le_val (0 # le_bytes 3 ?u)) :: u32) = of_nat (256 * ?u mod 2 ^ 32)" by simp
  also have "\<dots> = of_nat (256 * ?u)"
    by (simp only: word_unat_eq_iff unat_of_nat) simp
  also have "\<dots> = of_int (256 * i)"
    by (simp only: of_nat_mult of_nat_numeral of_nat_unat ucast_id of_int_mult of_int_numeral)
  finally have w: "(of_nat (le_val (0 # le_bytes 3 ?u)) :: u32) = of_int (256 * i)" .
  have "sint (of_int (256 * i) :: u32) = 256 * i"
    using assms by (intro sint_of_int) auto
  then have "sint (signed_drop_bit 8 (of_int (256 * i) :: u32)) = drop_bit 8 (256 * i)"
    by (simp add: sint_signed_drop_bit_eq)
  also have "\<dots> = i" by (simp add: drop_bit_eq_div)
  finally show ?thesis unfolding int24_def take3 w .
qed

subsection \<open>Entry round trip\<close>

definition zip_ok :: "bytes \<Rightarrow> bool" where
  "zip_ok val \<longleftrightarrow> isEncodableUint64 val \<noteq> None \<or> length val \<le> maxUint14"

lemma buf_bnd_ret:
  "bparses buf m bs x \<Longrightarrow> y = f x \<Longrightarrow> bparses buf (bnd m (\<lambda>x. ret (f x))) bs y"
  by (rule buf.parses_bnd_ret)

lemma payload_step:
  assumes "bparses buf (readZipListPayload buf h) bs y"
  shows "bparses buf (bnd (buf_index buf) (readZipListPayload buf)) (h # bs) y"
  using buf.parses_bnd [OF buf_index_parses, of buf "readZipListPayload buf" h bs y] assms by simp

lemma unat_int4_header:
  assumes "0 \<le> i" "i \<le> 12"
  shows "unat (0xf0 OR of_int (i + 1) :: byte) = 240 + nat (i + 1)"
proof -
  have i: "i = 0 \<or> i = 1 \<or> i = 2 \<or> i = 3 \<or> i = 4 \<or> i = 5 \<or> i = 6 \<or> i = 7 \<or> i = 8 \<or> i = 9 \<or>
      i = 10 \<or> i = 11 \<or> i = 12"
    using assms by arith
  then show ?thesis by (elim disjE) simp_all
qed

lemma zipInt_payload:
  assumes "0 \<le> i" "i < 2 ^ 63"
  shows "bparses buf (bnd (buf_index buf) (readZipListPayload buf)) (zipIntBytes i) (itoa i)"
proof -
  consider (a) "i \<le> 12" | (b) "12 < i" "i \<le> 127" | (c) "127 < i" "i \<le> 2 ^ 23 - 1"
    | (d) "2 ^ 23 - 1 < i" "i \<le> 2 ^ 31 - 1" | (e) "2 ^ 31 - 1 < i" by linarith
  then show ?thesis
  proof cases
    case a
    let ?h = "0xf0 OR of_int (i + 1) :: byte"
    have h: "unat ?h = 240 + nat (i + 1)" using assms(1) a by (rule unat_int4_header)
    have n: "1 \<le> nat (i + 1)" "nat (i + 1) \<le> 13" using assms a by auto
    have ne: "?h \<noteq> zipInt08B" "?h \<noteq> zipInt16B" "?h \<noteq> zipInt32B" "?h \<noteq> zipInt64B" "?h \<noteq> zipInt24B"
      using n by (simp_all only: word_unat_eq_iff h zip_consts) simp_all
    have t: "drop_bit 6 ?h \<noteq> zipStr06B" "drop_bit 6 ?h \<noteq> zipStr14B" "drop_bit 6 ?h \<noteq> zipStr32B"
      "drop_bit 4 ?h = zipInt04B"
      using n by (simp_all only: zipType_cases h)
    have "unat (?h AND 0x0f) = nat (i + 1)"
      using n by (simp only: byte_low4 h) (simp add: mod_if)
    then have "uint (?h AND 0x0f) = i + 1" using assms(1) by (metis int_nat_eq uint_nat add_nonneg_nonneg zero_le_one)
    then have "readZipListPayload buf ?h = ret (itoa i)"
      by (simp only: readZipListPayload_def ne t if_False if_True simp_thms) simp
    then show ?thesis
      using a assms(1) payload_step [of buf ?h "[]"] by (simp add: zipIntBytes_def buf.parses_ret)
  next
    case b
    have "sint (of_int i :: byte) = i" using b by (intro sint_of_int) auto
    then have "bparses buf (bnd (buf_readByte buf) (\<lambda>b. ret (itoa (sint b)))) [of_int i] (itoa i)"
      by (intro buf_bnd_ret [OF buf_readByte_parses]) simp
    with b assms show ?thesis
      by (simp add: zipIntBytes_def payload_step readZipListPayload_def zip_consts)
  next
    case c
    have "int24 (take 3 (le_bytes 4 (unat (of_int i :: u32)))) = i" using c by (intro int24_le) auto
    then have "bparses buf (bnd (buf_readBytes buf 3) (\<lambda>bs. ret (itoa (int24 bs))))
        (take 3 (le_bytes 4 (unat (of_int i :: u32)))) (itoa i)"
      by (intro buf_bnd_ret [OF buf_readBytes_parses]) simp_all
    with c assms show ?thesis
      by (simp add: zipIntBytes_def payload_step readZipListPayload_def zip_consts)
  next
    case d
    have "sint (of_int i :: u32) = i" using d by (intro sint_of_int) auto
    then have "bparses buf (bnd (buf_readBytes buf 4) (\<lambda>bs. ret (itoa (sint (of_nat (le_val bs) :: u32)))))
        (le_bytes 4 (unat (of_int i :: u32))) (itoa i)"
      by (intro buf_bnd_ret [OF buf_readBytes_parses]) simp_all
    with d assms show ?thesis
      by (simp add: zipIntBytes_def payload_step readZipListPayload_def zip_consts)
  next
    case e
    have "sint (of_int i :: u64) = i" using e assms by (intro sint_of_int) auto
    then have "bparses buf (bnd (buf_readBytes buf 8) (\<lambda>bs. ret (itoa (sint (of_nat (le_val bs) :: u64)))))
        (le_bytes 8 (unat (of_int i :: u64))) (itoa i)"
      by (intro buf_bnd_ret [OF buf_readBytes_parses]) simp_all
    with e assms show ?thesis
      by (simp add: zipIntBytes_def payload_step readZipListPayload_def zip_consts)
  qed
qed

lemma zipStr_payload:
  assumes "length val \<le> maxUint14" and "zipStrBytes val = Inr bs"
  shows "bparses buf (bnd (buf_index buf) (readZipListPayload buf)) bs val"
proof (cases "length val \<le> 63")
  case True
  let ?h = "of_nat (length val) :: byte"
  have h: "unat ?h = length val" using True by (simp add: unat_of_nat)
  have "readZipListPayload buf ?h = buf_readBytes buf (unat (?h AND 0x3f))"
    using True h by (simp add: readZipListPayload_def zipType_cases)
  also have "unat (?h AND 0x3f) = length val" using True by (simp only: byte_low6 h) simp
  finally have "bparses buf (readZipListPayload buf ?h) val val" by (simp add: buf_readBytes_parses)
  from payload_step [OF this] True assms(2) show ?thesis
    by (auto simp: zipStrBytes_def maxUint6_def)
next
  case False
  then have len: "63 < length val" "length val \<le> 2 ^ 14 - 1" using assms(1) by (auto simp: maxUint14_def)
  let ?v = "of_nat (length val) :: u64"
  let ?h = "of_nat (length val div 256) OR len14BitMask :: byte"
  have v: "unat ?v = length val" using len by (simp add: unat_of_nat)
  have "(of_nat (length val div 256) :: byte) = ucast (drop_bit 8 ?v)"
  proof (rule unsigned_word_eqI [where 'a = nat])
    show "unat (of_nat (length val div 256) :: byte) = unat (ucast (drop_bit 8 ?v) :: byte)"
      unfolding unat_ucast_byte unat_drop_bit v by (simp add: unat_of_nat)
  qed
  then have h: "unat ?h = 64 + length val div 256"
    using high14_byte [of ?v] v len by simp
  have q: "length val div 256 < 64" using len by simp
  have low: "unat (?h AND 0x3f) = length val div 256"
    using q by (simp only: byte_low6 h) (simp add: mod_add_self1)
  have l: "push_bit 8 (length val div 256) OR unat (of_nat (length val) :: byte) = length val"
    by (subst nat_shift_or) (simp_all add: unat_of_nat)
  have t: "drop_bit 6 ?h \<noteq> zipStr06B" "drop_bit 6 ?h = zipStr14B"
    using q by (simp_all only: zipType_cases h)
  have "readZipListPayload buf ?h =
      bnd (buf_index buf) (\<lambda>b. buf_readBytes buf (push_bit 8 (length val div 256) OR unat b))"
    by (simp only: readZipListPayload_def t low if_False if_True simp_thms) (simp add: zip_consts)
  moreover have "bparses buf
      (bnd (buf_index buf) (\<lambda>b. buf_readBytes buf (push_bit 8 (length val div 256) OR unat b)))
      ([of_nat (length val)] @ val) val"
    by (rule buf.parses_bnd [OF buf_index_parses]) (simp only: l buf_readBytes_parses)
  ultimately have "bparses buf (readZipListPayload buf ?h) (of_nat (length val) # val) val" by simp
  from payload_step [OF this] len assms(2) show ?thesis
    by (auto simp: zipStrBytes_def maxUint6_def maxUint14_def)
qed

lemma zipPrevLen_parses:
  assumes "bparses buf m bs x"
  shows "bparses buf (bnd (buf_index buf) (\<lambda>prevLen.
     bnd (if prevLen = zipBigPrevLen then buf_skip 4 else ret ()) (\<lambda>_. m))) (zipPrevLenBytes p @ bs) x"
proof (cases "p < 0xfe")
  case True
  then have "unat p < 254" by (simp add: word_less_nat_alt)
  then have "unat (ucast p :: byte) \<noteq> 254" by (simp add: unat_ucast_byte)
  then have "ucast p \<noteq> zipBigPrevLen" by (auto simp: zipBigPrevLen_def)
  then have "bparses buf (bnd (if ucast p = zipBigPrevLen then buf_skip 4 else ret ()) (\<lambda>_. m)) ([] @ bs) x"
    by (intro buf.parses_bnd [OF _ assms]) (simp add: buf.parses_ret)
  from buf.parses_bnd [OF buf_index_parses, of buf "\<lambda>prevLen.
     bnd (if prevLen = zipBigPrevLen then buf_skip 4 else ret ()) (\<lambda>_. m)" "ucast p", OF this] True
  show ?thesis by (simp add: zipPrevLenBytes_def)
next
  case False
  have "bparses buf (bnd (if (0xfe :: byte) = zipBigPrevLen then buf_skip 4 else ret ()) (\<lambda>_. m))
      (le_bytes 4 (unat p) @ bs) x"
    by (intro buf.parses_bnd [OF _ assms]) (simp add: zipBigPrevLen_def buf_skip_parses)
  from buf.parses_bnd [OF buf_index_parses, of buf "\<lambda>prevLen.
     bnd (if prevLen = zipBigPrevLen then buf_skip 4 else ret ()) (\<lambda>_. m)" "0xfe", OF this] False
  show ?thesis by (simp add: zipPrevLenBytes_def)
qed

lemma zipStrBytes_ok: "length val \<le> maxUint14 \<Longrightarrow> \<exists>bs. zipStrBytes val = Inr bs"
  by (auto simp: zipStrBytes_def)

lemma zipEntry_parses:
  assumes "zip_ok val" and "encodeZipListEntry prevLen val = Inr bs"
  shows "bparses buf (readZipListEntry buf) bs val"
proof (cases "isEncodableUint64 val")
  case None
  then have len: "length val \<le> maxUint14" using assms(1) by (simp add: zip_ok_def)
  then obtain s where s: "zipStrBytes val = Inr s" using zipStrBytes_ok by blast
  from zipPrevLen_parses [OF zipStr_payload [OF len s], of buf prevLen] None s assms(2)
  show ?thesis by (simp add: readZipListEntry_def encodeZipListEntry_def)
next
  case (Some i)
  from isEncodableUint64_Some [OF Some] have i: "0 \<le> i" "i < 2 ^ 63" and v: "itoa i = val" by auto
  from zipPrevLen_parses [OF zipInt_payload [OF i], of buf prevLen] Some v assms(2)
  show ?thesis by (simp add: readZipListEntry_def encodeZipListEntry_def)
qed

lemma encodeZipListEntry_ok: "zip_ok val \<Longrightarrow> \<exists>bs. encodeZipListEntry prevLen val = Inr bs"
  using zipStrBytes_ok [of val] by (auto simp: zip_ok_def encodeZipListEntry_def split: option.split)

subsection \<open>List round trip\<close>

lemma zipListLoop_ok:
  "list_all zip_ok vals \<Longrightarrow>
   \<exists>bss t. zipListLoop p buf b t0 vals = Inr (buf @ concat bss, b + length (concat bss), t) \<and>
     (\<forall>full. list_all2 (\<lambda>bs v. bparses full (readZipListEntry full) bs v) bss vals)"
proof (induction vals arbitrary: p buf b t0)
  case (Cons v vals)
  obtain e where e: "encodeZipListEntry p v = Inr e"
    using Cons.prems encodeZipListEntry_ok by fastforce
  obtain bss t where
    "zipListLoop (of_nat (length e)) (buf @ e) (b + length e)
       (if vals \<noteq> [] then t0 + length e else t0) vals =
       Inr ((buf @ e) @ concat bss, b + length e + length (concat bss), t)"
    "\<forall>full. list_all2 (\<lambda>bs v. bparses full (readZipListEntry full) bs v) bss vals"
    using Cons.IH Cons.prems by fastforce
  with e zipEntry_parses [OF _ e] Cons.prems show ?case
    by (intro exI [of _ "e # bss"] exI [of _ t]) auto
qed simp

definition ziplist_ok :: "bytes list \<Rightarrow> bool" where
  "ziplist_ok vals \<longleftrightarrow> list_all zip_ok vals \<and> length vals < 65536"

lemma readZipListLength_parses:
  assumes "length h = 8" and "n < 65536"
  shows "bparses buf (readZipListLength buf) (h @ le_bytes 2 n) n"
  unfolding parses_def
proof (intro allI impI)
  fix c tail
  assume c: "buf_at buf c ((h @ le_bytes 2 n) @ tail)"
  have "drop (c + 8) buf = drop 8 (drop c buf)" by (simp add: add.commute)
  also have "\<dots> = le_bytes 2 n @ tail" using c assms(1) by simp
  finally have "le_val (take 2 (drop (c + 8) buf)) = n"
    using assms(2) by (simp add: le_val_le_bytes)
  then show "readZipListLength buf c = (Inr n, buf_adv (length (h @ le_bytes 2 n)) c)"
    using buf_at_length [OF c] assms(1) by (simp add: readZipListLength_def)
qed

text \<open>Reading any item sequence behind a ziplist header: the client side of the format.\<close>

lemma zipList_layout:
  assumes "ziplist_ok vals" and "zipListBytes vals = Inr raw"
  shows "\<exists>h bss. raw = (h @ le_bytes 2 (length vals)) @ concat bss @ [0xff] \<and> length h = 8 \<and>
    (\<forall>full. list_all2 (\<lambda>bs v. bparses full (readZipListEntry full) bs v) bss vals)"
proof -
  obtain bss t where loop: "zipListLoop 0 [] 11 10 vals = Inr (concat bss, 11 + length (concat bss), t)"
    and all: "\<And>full. list_all2 (\<lambda>bs v. bparses full (readZipListEntry full) bs v) bss vals"
    using zipListLoop_ok [of vals 0 "[]" 11 10] assms(1) by (auto simp: ziplist_ok_def)
  have "raw = ((le_bytes 4 (11 + length (concat bss)) @ le_bytes 4 t) @ le_bytes 2 (length vals)) @ concat bss @ [0xff]"
    using assms(2) loop by (simp add: zipListBytes_def)
  with all show ?thesis
    by (intro exI [of _ "le_bytes 4 (11 + length (concat bss)) @ le_bytes 4 t"] exI [of _ bss]) simp
qed

text \<open>A loop over the items of a ziplist, whatever the items are made of.\<close>

lemma zipList_items:
  assumes "ziplist_ok vals" and "raw = (h @ le_bytes 2 (length vals)) @ concat bss @ [0xff]" "length h = 8"
    and "concat css = concat bss" and "list_all2 (\<lambda>bs x. bparses raw item bs x) css xs"
    and "length xs = count (length vals)"
  shows "onBuf (bnd (readZipListLength raw) (\<lambda>size. readN (count size) item)) s = (Inr xs, s)"
proof -
  have n: "length vals < 65536" using assms(1) by (simp add: ziplist_ok_def)
  have p: "bparses raw (bnd (readZipListLength raw) (\<lambda>size. readN (count size) item))
      ((h @ le_bytes 2 (length vals)) @ concat css) xs"
    using buf.parses_readN [OF assms(5)] assms(3,6) n
    by (intro buf.parses_bnd [OF readZipListLength_parses]) simp_all
  have "buf_at raw 0 (((h @ le_bytes 2 (length vals)) @ concat css) @ [0xff])"
    by (simp add: assms(2,4))
  from buf.parses_apply [OF p this] show ?thesis by (simp add: onBuf_def)
qed

lemma zipListBytes_parses:
  assumes "ziplist_ok vals" and "zipListBytes vals = Inr raw"
  shows "onBuf (bnd (readZipListLength raw) (\<lambda>size. readN size (readZipListEntry raw))) s = (Inr vals, s)"
proof -
  obtain h bss where l: "raw = (h @ le_bytes 2 (length vals)) @ concat bss @ [0xff]" "length h = 8"
    and a: "list_all2 (\<lambda>bs v. bparses raw (readZipListEntry raw) bs v) bss vals"
    using zipList_layout [OF assms] by blast
  from zipList_items [OF assms(1) l refl a, of "\<lambda>n. n"] show ?thesis by simp
qed

text \<open>Items of two consecutive entries: the fields of a hash, the scored members of a sorted set.\<close>

lemma list_all2_pairs:
  assumes "list_all2 P bss (concat (map (\<lambda>x. [k x, v x]) xs))"
  shows "\<exists>css. concat css = concat bss \<and>
    list_all2 (\<lambda>c x. \<exists>b1 b2. c = b1 @ b2 \<and> P b1 (k x) \<and> P b2 (v x)) css xs"
  using assms
proof (induction xs arbitrary: bss)
  case Nil
  then show ?case by (intro exI [of _ "[]"]) simp
next
  case (Cons x xs)
  then obtain b1 b2 bs where b: "bss = b1 # b2 # bs" "P b1 (k x)" "P b2 (v x)"
    "list_all2 P bs (concat (map (\<lambda>x. [k x, v x]) xs))"
    by (auto simp: list_all2_Cons2)
  from Cons.IH [OF b(4)] obtain css where "concat css = concat bs"
    "list_all2 (\<lambda>c x. \<exists>b1 b2. c = b1 @ b2 \<and> P b1 (k x) \<and> P b2 (v x)) css xs" by blast
  with b show ?case by (intro exI [of _ "(b1 @ b2) # css"]) auto
qed

lemma length_pairs: "length (concat (map (\<lambda>x. [k x, v x]) xs)) = 2 * length xs"
  by (induction xs) auto

lemma zipList_pairs:
  assumes "ziplist_ok (concat (map (\<lambda>x. [k x, v x]) xs))"
    and "zipListBytes (concat (map (\<lambda>x. [k x, v x]) xs)) = Inr raw"
    and item: "\<And>x b1 b2. x \<in> set xs \<Longrightarrow> bparses raw (readZipListEntry raw) b1 (k x) \<Longrightarrow>
      bparses raw (readZipListEntry raw) b2 (v x) \<Longrightarrow> bparses raw item (b1 @ b2) (f x)"
  shows "onBuf (bnd (readZipListLength raw) (\<lambda>size. readN ((size + 1) div 2) item)) s = (Inr (map f xs), s)"
proof -
  let ?vals = "concat (map (\<lambda>x. [k x, v x]) xs)"
  obtain h bss where l: "raw = (h @ le_bytes 2 (length ?vals)) @ concat bss @ [0xff]" "length h = 8"
    and a: "list_all2 (\<lambda>bs v. bparses raw (readZipListEntry raw) bs v) bss ?vals"
    using zipList_layout [OF assms(1,2)] by blast
  obtain css where c: "concat css = concat bss" "list_all2 (\<lambda>c x. \<exists>b1 b2. c = b1 @ b2 \<and>
      bparses raw (readZipListEntry raw) b1 (k x) \<and> bparses raw (readZipListEntry raw) b2 (v x)) css xs"
    using list_all2_pairs [OF a] by blast
  have "list_all2 (\<lambda>bs y. bparses raw item bs y) css (map f xs)"
    using c(2) item by (force simp: list_all2_conv_all_nth)
  from zipList_items [OF assms(1) l c(1) this, of "\<lambda>n. (n + 1) div 2"] show ?thesis
    by (simp add: length_pairs)
qed

lemma zipListBytes_ok: "ziplist_ok vals \<Longrightarrow> \<exists>raw. zipListBytes vals = Inr raw"
  using zipListLoop_ok [of vals 0 "[]" 11 10] by (auto simp: ziplist_ok_def zipListBytes_def)

lemma readZipList_parses:
  assumes "ziplist_ok vals" "zipListBytes vals = Inr raw" "string_ok c raw"
  shows "dparses readZipList (nanBytes c raw) vals"
proof -
  have "dparses readZipList (nanBytes c raw @ []) vals"
    unfolding readZipList_def
    by (rule src.parses_bnd [OF readString_nan [OF assms(3)]], rule src.parses_pure)
      (rule zipListBytes_parses [OF assms(1,2)])
  then show ?thesis by simp
qed

lemma writeZipList_writes:
  assumes "zipListBytes vals = Inr raw" "string_ok c raw"
  shows "ewrites c (writeZipList vals) (nanBytes c raw) ()"
  using writeNanString_writes [OF assms(2)] assms(1)
  by (simp add: writes_def writeZipList_def liftRes_def bnd_def)

subsection \<open>Properties\<close>

text \<open>
  An entry the writer produces for a value it encodes correctly (a canonical
  non-negative 64-bit integer, or at most 16383 bytes) is read back as the same bytes from
  any buffer that contains it, and the cursor ends behind it; the previous-length prefix
  may have either size.
\<close>

theorem ziplist_entry_roundtrip:
  assumes "zip_ok val" and "encodeZipListEntry prevLen val = Inr bs"
  shows "readZipListEntry (pre @ bs @ rest) (length pre) = (Inr val, length pre + length bs)"
  using buf.parses_apply [OF zipEntry_parses [OF assms], of "length pre" "pre @ bs @ rest" rest] by simp

theorem ziplist_entry_roundtrip_witness:
  "readZipListEntry [7, 0xfe, 1, 1, 0, 0, 2, 104, 105, 255] 1 = (Inr [104, 105], 9)"
  using ziplist_entry_roundtrip [of "[104, 105]" 257 "[0xfe, 1, 1, 0, 0, 2, 104, 105]" "[7]" "[255]"]
  by (simp add: zip_ok_def encodeZipListEntry_def zipPrevLenBytes_def zipStrBytes_def
      isEncodableUint64_def isDigit_def maxUint14_def maxUint6_def le_bytes_numeral)

text \<open>
  C35: a ziplist written by \<open>writeZipList\<close> is read back by \<open>readZipList\<close> as the same list of
  values, compressed or not, if there are at most 65535 of them, each an integer or a string
  of less than 16384 bytes, and the whole is within the size that readers allocate.
\<close>

theorem ziplist_roundtrip:
  assumes "ready e" and "ziplist_ok vals" and "zipListBytes vals = Inr raw"
    and "string_ok (compress e) raw"
  shows "\<exists>bs. writeZipList vals e = (Inr (), emit bs e) \<and>
    (\<forall>d rest. input d = bs @ rest \<longrightarrow> readZipList d = (Inr vals, dec_adv (length bs) d))"
  using sink.writes_apply [OF writeZipList_writes [OF assms(3,4)]] assms(1)
    src.parses_apply [OF readZipList_parses [OF assms(2,3,4)]]
  by blast

theorem ziplist_roundtrip_witness:
  "\<exists>bs. writeZipList [strlit ''7''] (newEncoder (\<lambda>_ _. None)) = (Inr (), emit bs (newEncoder (\<lambda>_ _. None))) \<and>
    (\<forall>d rest. input d = bs @ rest \<longrightarrow> readZipList d = (Inr [strlit ''7''], dec_adv (length bs) d))"
proof (rule ziplist_roundtrip)
  have e: "isEncodableUint64 (strlit ''7'') = Some 7"
    by (simp add: isEncodableUint64_def isDigit_def parseInt_def strlit_def)
  show "ziplist_ok [strlit ''7'']" by (simp add: ziplist_ok_def zip_ok_def e)
  show "zipListBytes [strlit ''7''] =
      Inr (le_bytes 4 13 @ le_bytes 4 10 @ le_bytes 2 1 @ [0, 0xf8] @ [0xff])"
    by (simp add: zipListBytes_def encodeZipListEntry_def e zipPrevLenBytes_def zipIntBytes_def)
  show "ready (newEncoder (\<lambda>_ _. None))" by (simp add: ready_newEncoder)
qed (simp add: string_ok_def maxAlloc_def newEncoder_def)

text \<open>
  C36: a non-integer string of 16384 to 65535 bytes is written with a little-endian length
  in an eight-byte field, where the reader expects four big-endian bytes: the list that
  holds just this string cannot be read back, the reader runs off the end of the buffer.
\<close>

theorem ziplist_long_string_lost:
  assumes "isEncodableUint64 val = None" and "16384 \<le> length val" and "length val < 65536"
  shows "\<exists>raw. zipListBytes [val] = Inr raw \<and>
    onBuf (bnd (readZipListLength raw) (\<lambda>size. readN size (readZipListEntry raw))) d =
      (Inl (Msg ''cursor out of range''), d)"
proof -
  let ?B = "le_bytes 4 (length val)" and ?R = "[0, 0, 0, 0] @ val @ [0xff]"
  obtain h where h: "length h = 8" and z: "zipListBytes [val] = Inr ((h @ le_bytes 2 1) @ [0, 0x80] @ ?B @ ?R)"
    using assms by (auto simp: zipListBytes_def encodeZipListEntry_def zipPrevLenBytes_def
        zipStrBytes_def maxUint6_def maxUint14_def intro!: that [of "le_bytes 4 _ @ le_bytes 4 _"])
  define raw where "raw = (h @ le_bytes 2 1) @ [0, 0x80] @ ?B @ ?R"
  have len: "length raw = length val + 21" using h by (simp add: raw_def)
  have 1: "readZipListLength raw 0 = (Inr 1, 10)"
    using buf.parses_apply [OF readZipListLength_parses [of h 1 raw], of 0 "[0, 0x80] @ ?B @ ?R"] h
    by (simp add: raw_def)
  have 2: "buf_index raw 10 = (Inr 0, 11)" "buf_index raw 11 = (Inr 0x80, 12)"
    using h len by (simp_all add: buf_index_def raw_def nth_append)
  have 3: "buf_readBytes raw 4 12 = (Inr ?B, 16)"
    using h len by (simp add: buf_readBytes_def raw_def)
  have "?B = [of_nat (length val mod 256), of_nat (length val div 256), 0, 0]"
    using assms(3) by (simp add: le_bytes_numeral)
  then have "be_val ?B = 65536 * (length val div 256) + 16777216 * (length val mod 256)"
    using assms(3) by (simp add: be_val_def unat_of_nat)
  then have "length val + 21 < 16 + be_val ?B" using assms(2,3) by (simp add: algebra_simps)
  then have 4: "buf_readBytes raw (be_val ?B) 16 = (Inl (Msg ''cursor out of range''), 16)"
    by (simp add: buf_readBytes_def len)
  have "onBuf (bnd (readZipListLength raw) (\<lambda>size. readN size (readZipListEntry raw))) d =
      (Inl (Msg ''cursor out of range''), d)"
    by (simp add: onBuf_def bnd_def 1 2 3 4 ret_def readZipListEntry_def readZipListPayload_def zip_consts)
  with z show ?thesis unfolding raw_def by blast
qed

theorem ziplist_long_string_lost_witness:
  "\<exists>raw. zipListBytes [replicate 20000 97] = Inr raw \<and>
    onBuf (bnd (readZipListLength raw) (\<lambda>size. readN size (readZipListEntry raw))) () =
      (Inl (Msg ''cursor out of range''), ())"
  by (rule ziplist_long_string_lost) (simp_all add: isEncodableUint64_def isDigit_def list_all_iff)

end
