(* ===== verification/ListPack.thy ===== *)
theory ListPack
  imports ZipList
begin

unbundle bit_operations_syntax

section \<open>Listpacks (core/listpack.go, and the listpack writer of core/stream.go)\<close>

text \<open>
  A listpack is a six-byte header (total bytes, number of elements) and elements that each
  end with their own length, so that they can be walked backwards; the reader only skips
  these lengths.  The reader returns a string or an integer together with the size of the
  element.  The writer is the one of the stream encoder: a first pass that concatenates the
  encoded elements and a second pass, from the last element to the first, that inserts the
  lengths.  The round trip holds for non-empty strings and for the integers of \<open>lp_int_ok\<close>;
  the last lemmas say what is read back for the others.
\<close>

datatype lp_entry = LpStr bytes | LpInt int

subsection \<open>Reader\<close>

definition getBackLen :: "u32 \<Rightarrow> u32" where
  "getBackLen elementLen =
     (if unat elementLen \<le> 127 then 1
      else if unat elementLen < 2 ^ 14 - 1 then 2
      else if unat elementLen < 2 ^ 21 - 1 then 3
      else if unat elementLen < 2 ^ 28 - 1 then 4
      else 5)"

definition readListPackLength :: "bytes \<Rightarrow> (nat, nat) gom" where
  "readListPackLength buf cursor =
     (if length buf < cursor + 6 then (Inl (GoPanic ''slice bounds out of range''), cursor)
      else (Inr (le_val (take 2 (drop (cursor + 4) buf))), cursor + 6))"

text \<open>Skip the length at the end of an element and return the element with its size.\<close>

definition lpDone :: "u32 \<Rightarrow> lp_entry \<Rightarrow> (nat, lp_entry \<times> u32) gom" where
  "lpDone contentLen x =
     bnd (buf_skip (unat (getBackLen contentLen))) (\<lambda>_. ret (x, contentLen + getBackLen contentLen))"

text \<open>The 13-bit value of an element, sign-extended in 64-bit unsigned arithmetic.\<close>

definition lpInt13 :: "byte \<Rightarrow> byte \<Rightarrow> int" where
  "lpInt13 header nxt =
     (let val = push_bit 8 (ucast header AND 0x1f) OR ucast nxt :: u64
      in sint (if 2 ^ 12 \<le> unat val then - (8191 - val) - 1 else val))"

definition readListPackBody :: "bytes \<Rightarrow> byte \<Rightarrow> (nat, lp_entry \<times> u32) gom" where
  "readListPackBody buf header =
     (if drop_bit 6 header = 0 \<or> drop_bit 6 header = 1 then lpDone 1 (LpInt (sint header))
      else if drop_bit 6 header = 2 then
        bnd (buf_readBytes buf (unat (header AND 0x3f))) (\<lambda>r.
          lpDone (of_nat (1 + unat (header AND 0x3f))) (LpStr r))
      else if drop_bit 4 header = 12 \<or> drop_bit 4 header = 13 then
        bnd (buf_readByte buf) (\<lambda>nxt. lpDone 2 (LpInt (lpInt13 header nxt)))
      else if drop_bit 4 header = 14 then
        bnd (buf_readByte buf) (\<lambda>b1.
          let strLen = be_val [header AND 0x0f, b1]
          in bnd (buf_readBytes buf strLen) (\<lambda>r. lpDone (of_nat (2 + strLen)) (LpStr r)))
      else if header AND 0x0f = 0 then
        bnd (buf_readBytes buf 4) (\<lambda>lenBytes.
        bnd (buf_readBytes buf (le_val lenBytes)) (\<lambda>r.
          lpDone (of_nat (1 + 4 + le_val lenBytes)) (LpStr r)))
      else if header AND 0x0f = 1 then
        bnd (buf_readBytes buf 2) (\<lambda>bs. lpDone 3 (LpInt (sint (of_nat (le_val bs) :: u16))))
      else if header AND 0x0f = 2 then
        bnd (buf_readBytes buf 3) (\<lambda>bs. lpDone 4 (LpInt (int24 bs)))
      else if header AND 0x0f = 3 then
        bnd (buf_readBytes buf 4) (\<lambda>bs. lpDone 5 (LpInt (sint (of_nat (le_val bs) :: u32))))
      else if header AND 0x0f = 4 then
        bnd (buf_readBytes buf 8) (\<lambda>bs. lpDone 9 (LpInt (sint (of_nat (le_val bs) :: u64))))
      else if header AND 0x0f = 15 then fail (Msg ''unexpected end'')
      else fail (Msg ''unknown entry header''))"

definition readListPackEntry :: "bytes \<Rightarrow> (nat, lp_entry \<times> u32) gom" where
  "readListPackEntry buf = bnd (buf_readByte buf) (readListPackBody buf)"

fun lpString :: "lp_entry \<Rightarrow> bytes" where
  "lpString (LpStr s) = s"
| "lpString (LpInt i) = itoa i"

definition readListPackEntryAsString :: "bytes \<Rightarrow> (nat, bytes) gom" where
  "readListPackEntryAsString buf =
     bnd (wrapErr ''read from failed'' (readListPackEntry buf)) (\<lambda>(x, _). ret (lpString x))"

definition readListPackEntryAsInt :: "bytes \<Rightarrow> (nat, int) gom" where
  "readListPackEntryAsInt buf =
     bnd (wrapErr ''read from failed'' (readListPackEntry buf)) (\<lambda>(x, _).
       case x of LpStr s \<Rightarrow> fail (MsgArgs ''is not a integer'' (map uint s)) | LpInt i \<Rightarrow> ret i)"

definition readListPack :: "(dstate, bytes list \<times> u32 list) gom" where
  "readListPack =
     bnd readString (\<lambda>buf.
     onBuf (bnd (readListPackLength buf) (\<lambda>size.
       bnd (readN size (bnd (readListPackEntry buf) (\<lambda>(x, len). ret (lpString x, len)))) (\<lambda>es.
         ret (map fst es, map snd es)))))"

subsection \<open>Writer\<close>

record listpackEntry =
  intVal :: int
  strVal :: bytes

definition encodeListPackInt :: "int \<Rightarrow> bytes" where
  "encodeListPackInt val =
     (if -127 \<le> val \<and> val \<le> 127 then [of_int val]
      else if -8191 \<le> val \<and> val \<le> 8191 then
        (let uval = (if val < 0 then of_int (8191 + val + 1) else of_int val) :: u16
         in [ucast (0xC0 OR drop_bit 8 uval), ucast (uval AND 0xff)])
      else if -32767 \<le> val \<and> val \<le> 32767 then
        (let uval = of_int val :: u16 in [0xF1, ucast (uval AND 0xff), ucast (drop_bit 8 uval)])
      else if -8388607 \<le> val \<and> val \<le> 8388607 then
        (let uval = of_int val :: u32
         in [0xF2, ucast (uval AND 0xff), ucast (drop_bit 8 uval AND 0xff), ucast (drop_bit 16 uval AND 0xff)])
      else if -2147483647 \<le> val \<and> val \<le> 2147483647 then
        (let uval = of_int val :: u32
         in [0xF3, ucast (uval AND 0xff), ucast (drop_bit 8 uval AND 0xff),
             ucast (drop_bit 16 uval AND 0xff), ucast (drop_bit 24 uval AND 0xff)])
      else
        (let uval = of_int val :: u64
         in 0xF4 # map (\<lambda>i. ucast (drop_bit (8 * i) uval AND 0xff)) [0..<8]))"

definition encodeListPackString :: "bytes \<Rightarrow> bytes" where
  "encodeListPackString s =
     (if length s \<le> 63 then (0x80 OR of_nat (length s)) # s
      else if length s < 4096 then
        (0xE0 OR of_nat (length s div 256)) # (of_nat (length s) AND 0xff) # s
      else 0xF0 # le_bytes 4 (length s) @ s)"

definition encodeBacklen :: "u32 \<Rightarrow> bytes" where
  "encodeBacklen elementLen =
     (if unat elementLen \<le> 127 then [ucast elementLen]
      else if unat elementLen < 2 ^ 14 - 1 then
        [ucast (0x80 OR drop_bit 8 elementLen), ucast (elementLen AND 0xff)]
      else if unat elementLen < 2 ^ 21 - 1 then
        [ucast (0xC0 OR drop_bit 16 elementLen), ucast (drop_bit 8 elementLen AND 0xff),
         ucast (elementLen AND 0xff)]
      else if unat elementLen < 2 ^ 28 - 1 then
        [ucast (0xE0 OR drop_bit 24 elementLen), ucast (drop_bit 16 elementLen AND 0xff),
         ucast (drop_bit 8 elementLen AND 0xff), ucast (elementLen AND 0xff)]
      else
        [0xF0, ucast (drop_bit 24 elementLen AND 0xff), ucast (drop_bit 16 elementLen AND 0xff),
         ucast (drop_bit 8 elementLen AND 0xff), ucast (elementLen AND 0xff)])"

definition encodeLpEntry :: "listpackEntry \<Rightarrow> bytes" where
  "encodeLpEntry x =
     (if strVal x \<noteq> [] then encodeListPackString (strVal x) else encodeListPackInt (intVal x))"

text \<open>The second pass over the concatenated elements and their sizes.\<close>

fun addBacklens :: "bytes \<Rightarrow> u32 list \<Rightarrow> nat \<Rightarrow> bytes \<Rightarrow> bytes" where
  "addBacklens lpData sizes 0 final = final"
| "addBacklens lpData sizes (Suc i) final =
     (let withBack = encodeBacklen (sizes ! i) @ final;
          entryStart = sum_list (map unat (take i sizes));
          element = take (unat (sizes ! i)) (drop entryStart lpData)
      in addBacklens lpData sizes i (element @ withBack))"

definition buildListpackWithBacklen :: "listpackEntry list \<Rightarrow> bytes" where
  "buildListpackWithBacklen entries =
     (let encoded = map encodeLpEntry entries;
          final = addBacklens (concat encoded) (map (\<lambda>e. of_nat (length e)) encoded) (length entries) []
      in le_bytes 4 (length final + 6) @ le_bytes 2 (length entries) @ final)"

subsection \<open>Words and bytes\<close>

lemma unat_or_low:
  fixes x :: "'a::len word"
  assumes "unat x < 2 ^ k" and "h AND mask k = 0"
  shows "unat (h OR x) = unat h + unat x"
proof (rule unat_or_disjoint, rule bit_word_eqI)
  fix n
  assume n: "n < LENGTH('a)"
  show "bit (h AND x) n = bit 0 n"
  proof (cases "n < k")
    case True
    then have "\<not> bit (h AND mask k) n" using assms(2) by simp
    with True n show ?thesis by (simp add: bit_simps)
  next
    case False
    with word_high_bit [OF assms(1)] show ?thesis by (simp add: bit_simps)
  qed
qed

lemma nth_le_bytes: "i < n \<Longrightarrow> le_bytes n x ! i = of_nat (x div 256 ^ i mod 256)"
proof (induction n arbitrary: i x)
  case (Suc n)
  then show ?case by (cases i) (simp_all add: div_mult2_eq)
qed simp

lemma unat_ucast_and_ff: "unat (ucast (w AND 0xff) :: byte) = unat (w :: 'a::len word) mod 256"
  if "8 \<le> LENGTH('a)"
proof -
  have "(0xff :: 'a word) = mask 8" by (simp add: mask_eq_exp_minus_1)
  then have "unat (w AND 0xff) = unat w mod 256" by (simp only: unat_and_mask) simp
  then show ?thesis by (simp add: unat_ucast_byte)
qed

lemma le_bytes_word:
  assumes "8 \<le> LENGTH('a)"
  shows "le_bytes n (unat (w :: 'a::len word)) = map (\<lambda>i. ucast (drop_bit (8 * i) w AND 0xff)) [0..<n]"
proof (rule nth_equalityI)
  fix i
  assume "i < length (le_bytes n (unat w))"
  then have i: "i < n" by simp
  have "unat (ucast (drop_bit (8 * i) w AND 0xff) :: byte) = unat w div 256 ^ i mod 256"
    by (simp add: unat_ucast_and_ff [OF assms] unat_drop_bit power_mult)
  then have "ucast (drop_bit (8 * i) w AND 0xff) = (of_nat (unat w div 256 ^ i mod 256) :: byte)"
    by (metis of_nat_unat ucast_id)
  with i show "le_bytes n (unat w) ! i = map (\<lambda>i. ucast (drop_bit (8 * i) w AND 0xff)) [0..<n] ! i"
    by (simp add: nth_le_bytes)
qed simp

lemma lp_int_bytes:
  "[ucast (u AND 0xff), ucast (drop_bit 8 u)] = le_bytes 2 (unat (u :: u16))"
  "[ucast (w AND 0xff), ucast (drop_bit 8 w AND 0xff), ucast (drop_bit 16 w AND 0xff)] =
     le_bytes 3 (unat (w :: u32))"
  "[ucast (w AND 0xff), ucast (drop_bit 8 w AND 0xff), ucast (drop_bit 16 w AND 0xff),
     ucast (drop_bit 24 w AND 0xff)] = le_bytes 4 (unat w)"
proof -
  have "ucast (drop_bit 8 u AND 0xff) = (ucast (drop_bit 8 u) :: byte)"
  proof (rule unsigned_word_eqI [where 'a = nat])
    show "unat (ucast (drop_bit 8 u AND 0xff) :: byte) = unat (ucast (drop_bit 8 u) :: byte)"
      by (subst unat_ucast_and_ff) (simp_all add: unat_ucast_byte)
  qed
  then show "[ucast (u AND 0xff), ucast (drop_bit 8 u)] = le_bytes 2 (unat u)"
    by (simp add: le_bytes_word upt_rec)
qed (simp_all add: le_bytes_word upt_rec)

subsection \<open>Element round trip\<close>

lemma length_encodeBacklen: "length (encodeBacklen n) = unat (getBackLen n)"
  by (simp add: encodeBacklen_def getBackLen_def)

lemma lpDone_parses:
  "bparses buf (lpDone n x) (encodeBacklen n) (x, n + getBackLen n)"
proof -
  have "bparses buf (lpDone n x) (encodeBacklen n @ []) (x, n + getBackLen n)"
    unfolding lpDone_def
    by (intro buf.parses_bnd [OF buf_skip_parses] buf.parses_ret) (simp add: length_encodeBacklen)
  then show ?thesis by simp
qed

definition lp_int_ok :: "int \<Rightarrow> bool" where
  "lp_int_ok i \<longleftrightarrow> - (2 ^ 63) \<le> i \<and> i < 2 ^ 63 \<and> \<not> (-127 \<le> i \<and> i \<le> -1) \<and>
     \<not> (4096 \<le> i \<and> i \<le> 8191) \<and> \<not> (-8191 \<le> i \<and> i \<le> -4097)"

definition lp_str_ok :: "bytes \<Rightarrow> bool" where
  "lp_str_ok s \<longleftrightarrow> length s < 2 ^ 32 - 5"

lemma lp_body_step:
  assumes "bparses buf (readListPackBody buf h) bs y"
  shows "bparses buf (readListPackEntry buf) (h # bs) y"
  using buf.parses_bnd [OF buf_readByte_parses, of buf "readListPackBody buf" h bs y] assms
  by (simp add: readListPackEntry_def)

lemma lp_done_after:
  assumes "bparses buf m bs r"
  shows "bparses buf (bnd m (\<lambda>r. lpDone n (f r))) (bs @ encodeBacklen n) (f r, n + getBackLen n)"
  by (rule buf.parses_bnd [OF assms lpDone_parses])

lemma lp_header:
  assumes "unat (header :: byte) = n"
  shows "drop_bit 6 header = of_nat (n div 64)" "drop_bit 4 header = of_nat (n div 16)"
    "header AND 0x3f = of_nat (n mod 64)" "header AND 0x0f = of_nat (n mod 16)"
proof -
  have u: "x = of_nat k" if "unat x = k" for x :: byte and k
    using that by (metis of_nat_unat ucast_id)
  show "drop_bit 6 header = of_nat (n div 64)" "drop_bit 4 header = of_nat (n div 16)"
    "header AND 0x3f = of_nat (n mod 64)" "header AND 0x0f = of_nat (n mod 16)"
    by (rule u; simp only: byte_high2 byte_high4 byte_low6 byte_low4 assms)+
qed

lemma unat_0x80_len: "n \<le> 63 \<Longrightarrow> unat (0x80 OR of_nat n :: byte) = 128 + n"
  by (subst unat_or_low [where k = 6]) (simp_all add: unat_of_nat mask_eq_exp_minus_1)

lemma unat_0xE0_len: "n < 16 \<Longrightarrow> unat (0xE0 OR of_nat n :: byte) = 224 + n"
  by (subst unat_or_low [where k = 4]) (simp_all add: unat_of_nat mask_eq_exp_minus_1)

lemma lp_body_cases:
  "unat h < 128 \<Longrightarrow> readListPackBody buf h = lpDone 1 (LpInt (sint h))"
  "unat h = 128 + n \<Longrightarrow> n \<le> 63 \<Longrightarrow> readListPackBody buf h =
     bnd (buf_readBytes buf n) (\<lambda>r. lpDone (of_nat (1 + n)) (LpStr r))"
  "unat h = 192 + n \<Longrightarrow> n < 32 \<Longrightarrow> readListPackBody buf h =
     bnd (buf_readByte buf) (\<lambda>nxt. lpDone 2 (LpInt (lpInt13 h nxt)))"
  "unat h = 224 + n \<Longrightarrow> n < 16 \<Longrightarrow> readListPackBody buf h =
     bnd (buf_readByte buf) (\<lambda>b1. let strLen = be_val [of_nat n, b1]
       in bnd (buf_readBytes buf strLen) (\<lambda>r. lpDone (of_nat (2 + strLen)) (LpStr r)))"
proof -
  assume "unat h < 128"
  then have "unat h div 64 = 0 \<or> unat h div 64 = 1" by linarith
  then show "readListPackBody buf h = lpDone 1 (LpInt (sint h))"
    by (auto simp: readListPackBody_def lp_header [OF refl])
next
  assume h: "unat h = 128 + n" "n \<le> 63"
  then have "(128 + n) div 64 = 2" "(128 + n) mod 64 = n"
    using mod_mult_self2 [of n 64 2] by (simp_all add: add.commute)
  with h(2) show "readListPackBody buf h = bnd (buf_readBytes buf n) (\<lambda>r. lpDone (of_nat (1 + n)) (LpStr r))"
    by (simp add: readListPackBody_def lp_header [OF h(1)] unat_of_nat)
next
  assume h: "unat h = 192 + n" "n < 32"
  then have "(192 + n) div 64 = 3" "(192 + n) div 16 = 12 \<or> (192 + n) div 16 = 13" by auto
  then show "readListPackBody buf h = bnd (buf_readByte buf) (\<lambda>nxt. lpDone 2 (LpInt (lpInt13 h nxt)))"
    by (auto simp: readListPackBody_def lp_header [OF h(1)])
next
  assume h: "unat h = 224 + n" "n < 16"
  then have "(224 + n) div 64 = 3" "(224 + n) div 16 = 14" "(224 + n) mod 16 = n"
    using mod_mult_self2 [of n 16 14] by (simp_all add: add.commute)
  then show "readListPackBody buf h = bnd (buf_readByte buf) (\<lambda>b1. let strLen = be_val [of_nat n, b1]
       in bnd (buf_readBytes buf strLen) (\<lambda>r. lpDone (of_nat (2 + strLen)) (LpStr r)))"
    by (simp add: readListPackBody_def lp_header [OF h(1)])
qed

lemma encodeListPackString_parses:
  assumes "lp_str_ok s"
  shows "bparses buf (readListPackEntry buf)
     (encodeListPackString s @ encodeBacklen (of_nat (length (encodeListPackString s))))
     (LpStr s, of_nat (length (encodeListPackString s)) + getBackLen (of_nat (length (encodeListPackString s))))"
proof -
  consider (a) "length s \<le> 63" | (b) "63 < length s" "length s < 4096" | (c) "4096 \<le> length s"
    by linarith
  then show ?thesis
  proof cases
    case a
    note r = lp_body_cases(2) [OF unat_0x80_len [OF a] a]
    show ?thesis
      using lp_body_step [OF lp_done_after [OF buf_readBytes_parses [OF refl], of buf s "of_nat (1 + length s)" LpStr,
            folded r]] a
      by (simp add: encodeListPackString_def)
  next
    case b
    then have q: "length s div 256 < 16" by simp
    note r = lp_body_cases(4) [OF unat_0xE0_len [OF q] q]
    let ?lo = "of_nat (length s) AND 0xff :: byte"
    have lo: "unat ?lo = length s mod 256"
    proof -
      have "(0xff :: byte) = mask 8" by (simp add: mask_eq_exp_minus_1)
      then show ?thesis by (simp only: unat_and_mask) (simp add: unat_of_nat)
    qed
    have len: "be_val [of_nat (length s div 256), ?lo] = length s"
      using q by (simp add: be_val_def lo unat_of_nat)
    have "bparses buf (readListPackBody buf (0xE0 OR of_nat (length s div 256)))
        ([?lo] @ s @ encodeBacklen (of_nat (2 + length s)))
        (LpStr s, of_nat (2 + length s) + getBackLen (of_nat (2 + length s)))"
      unfolding r
      by (rule buf.parses_bnd [OF buf_readByte_parses])
        (simp only: Let_def len lp_done_after [OF buf_readBytes_parses [OF refl]])
    from lp_body_step [OF this] b show ?thesis by (simp add: encodeListPackString_def)
  next
    case c
    have l: "le_val (le_bytes 4 (length s)) = length s"
      using assms by (simp add: le_val_le_bytes lp_str_ok_def)
    have r: "readListPackBody buf 0xF0 = bnd (buf_readBytes buf 4) (\<lambda>lenBytes.
        bnd (buf_readBytes buf (le_val lenBytes)) (\<lambda>r.
          lpDone (of_nat (1 + 4 + le_val lenBytes)) (LpStr r)))"
      by (simp add: readListPackBody_def)
    have "bparses buf (readListPackBody buf 0xF0)
        (le_bytes 4 (length s) @ s @ encodeBacklen (of_nat (1 + 4 + length s)))
        (LpStr s, of_nat (1 + 4 + length s) + getBackLen (of_nat (1 + 4 + length s)))"
      unfolding r
      by (rule buf.parses_bnd [OF buf_readBytes_parses])
        (simp_all only: l length_le_bytes lp_done_after [OF buf_readBytes_parses [OF refl]])
    from lp_body_step [OF this] c show ?thesis by (simp add: encodeListPackString_def)
  qed
qed

text \<open>What the two bytes of a 13-bit element hold, for every 13-bit value \<open>u\<close>.\<close>

lemma lp13_header: "u < 8192 \<Longrightarrow> unat (ucast (0xC0 OR drop_bit 8 (of_nat u :: u16)) :: byte) = 192 + u div 256"
proof -
  assume u: "u < 8192"
  have d: "unat (drop_bit 8 (of_nat u :: u16)) = u div 256"
    using u by (simp add: unat_drop_bit unat_of_nat)
  have "unat (0xC0 OR drop_bit 8 (of_nat u :: u16)) = 192 + u div 256"
    by (subst unat_or_low [where k = 5]) (use u d in \<open>simp_all add: mask_eq_exp_minus_1\<close>)
  with u show ?thesis by (simp add: unat_ucast_byte)
qed

lemma lp13_value:
  assumes "u < 8192"
  shows "lpInt13 (ucast (0xC0 OR drop_bit 8 (of_nat u :: u16))) (ucast ((of_nat u :: u16) AND 0xff)) =
     (if u < 4096 then int u else int u - 8192)"
proof -
  define h where "h = (ucast (0xC0 OR drop_bit 8 (of_nat u :: u16)) :: byte)"
  define n where "n = (ucast ((of_nat u :: u16) AND 0xff) :: byte)"
  let ?x = "push_bit 8 (ucast h AND 0x1f) OR ucast n :: u64"
  have h: "unat h = 192 + u div 256" using lp13_header [OF assms] by (simp only: h_def)
  have n: "unat n = u mod 256"
    unfolding n_def using assms by (subst unat_ucast_and_ff) (simp_all add: unat_of_nat)
  have c: "unat (ucast (b :: byte) :: u64) = unat b" for b
    by (simp add: unsigned_ucast_eq take_bit_nat_eq_self order_less_trans [OF unat_byte_less])
  have "(0x1f :: u64) = mask 5" by (simp add: mask_eq_exp_minus_1)
  then have "unat (ucast h AND 0x1f :: u64) = (192 + u div 256) mod 32"
    by (simp only: unat_and_mask c h) simp
  also have "(192 + u div 256) mod 32 = u div 256"
    using assms mod_mult_self2 [of "u div 256" 32 6] by (simp add: add.commute)
  finally have p: "unat (push_bit 8 (ucast h AND 0x1f) :: u64) = u div 256 * 256"
    using assms by (simp only: unsigned_push_bit_eq) (simp add: push_bit_eq_mult take_bit_nat_eq_self)
  have "unat ?x = u div 256 * 256 + u mod 256"
  proof (subst unat_or_low [where k = 8])
    show "unat (ucast n :: u64) < 2 ^ 8" by (simp add: c)
    show "push_bit 8 (ucast h AND 0x1f) AND mask 8 = (0 :: u64)"
      by (rule bit_word_eqI) (simp add: bit_simps)
    show "unat (push_bit 8 (ucast h AND 0x1f) :: u64) + unat (ucast n :: u64) = u div 256 * 256 + u mod 256"
      by (simp only: c n p)
  qed
  then have x: "unat ?x = u" by simp
  then have xi: "?x = of_int (int u)" by (metis of_int_of_nat_eq of_nat_unat ucast_id)
  have "lpInt13 h n = (if u < 4096 then int u else int u - 8192)"
  proof (cases "u < 4096")
    case True
    have "sint (of_int (int u) :: u64) = int u" using assms by (intro sint_of_int) auto
    with True x xi show ?thesis by (simp add: lpInt13_def Let_def)
  next
    case False
    have "- (8191 - of_int (int u)) - 1 = (of_int (int u - 8192) :: u64)" by simp
    moreover have "sint (of_int (int u - 8192) :: u64) = int u - 8192"
      using assms by (intro sint_of_int) auto
    ultimately show ?thesis using False x xi by (simp add: lpInt13_def Let_def)
  qed
then show ?thesis unfolding h_def n_def .
qed

text \<open>The integer the reader makes of what \<open>encodeListPackInt\<close> writes, where it reads one.\<close>

definition lpReadBack :: "int \<Rightarrow> int" where
  "lpReadBack i =
     (if 4096 \<le> i \<and> i \<le> 8191 then i - 8192
      else if -8191 \<le> i \<and> i \<le> -4097 then i + 8192
      else i)"

lemma encodeListPackInt13_parses:
  assumes "(128 \<le> i \<and> i \<le> 8191) \<or> (-8191 \<le> i \<and> i \<le> -128)"
  shows "bparses buf (readListPackEntry buf) (encodeListPackInt i @ encodeBacklen 2)
     (LpInt (lpReadBack i), 2 + getBackLen 2)"
proof -
  define u where "u = nat (if i < 0 then 8191 + i + 1 else i)"
  have u: "u < 8192" using assms by (auto simp: u_def)
  then have q: "u div 256 < 32" by simp
  have w: "(if i < 0 then of_int (8191 + i + 1) else of_int i) = (of_nat u :: u16)"
    using assms by (auto simp: u_def)
  have v: "(if u < 4096 then int u else int u - 8192) = lpReadBack i"
    using assms by (auto simp: u_def lpReadBack_def)
  let ?h = "ucast (0xC0 OR drop_bit 8 (of_nat u :: u16)) :: byte"
  let ?n = "ucast ((of_nat u :: u16) AND 0xff) :: byte"
  have r: "\<not> (-127 \<le> i \<and> i \<le> 127)" "-8191 \<le> i \<and> i \<le> 8191" using assms by auto
  have e: "encodeListPackInt i = [?h, ?n]"
    unfolding encodeListPackInt_def if_not_P [OF r(1)] if_P [OF r(2)] w Let_def by (rule refl)
  have "bparses buf (readListPackBody buf ?h) ([?n] @ encodeBacklen 2) (LpInt (lpInt13 ?h ?n), 2 + getBackLen 2)"
    unfolding lp_body_cases(3) [OF lp13_header [OF u] q]
    by (rule lp_done_after [OF buf_readByte_parses])
  from lp_body_step [OF this] show ?thesis
    by (simp only: e lp13_value [OF u] v append.simps)
qed

lemma encodeListPackInt_parses:
  assumes "- (2 ^ 63) \<le> i" "i < 2 ^ 63" "\<not> (-127 \<le> i \<and> i \<le> -1)"
  shows "bparses buf (readListPackEntry buf)
     (encodeListPackInt i @ encodeBacklen (of_nat (length (encodeListPackInt i))))
     (LpInt (lpReadBack i), of_nat (length (encodeListPackInt i)) + getBackLen (of_nat (length (encodeListPackInt i))))"
proof -
  consider (a) "0 \<le> i" "i \<le> 127" | (b) "(128 \<le> i \<and> i \<le> 8191) \<or> (-8191 \<le> i \<and> i \<le> -128)"
    | (c) "i < -8191 \<or> 8191 < i" "-32767 \<le> i" "i \<le> 32767"
    | (d) "i < -32767 \<or> 32767 < i" "-8388607 \<le> i" "i \<le> 8388607"
    | (e) "i < -8388607 \<or> 8388607 < i" "-2147483647 \<le> i" "i \<le> 2147483647"
    | (f) "i < -2147483647 \<or> 2147483647 < i" using assms(3) by linarith
  then show ?thesis
  proof cases
    case a
    have "unat (of_int i :: byte) = nat i" using a by (simp add: unat_eq_nat_uint uint_word_of_int)
    then have "unat (of_int i :: byte) < 128" using a by simp
    moreover have "sint (of_int i :: byte) = i" using a by (intro sint_of_int) auto
    ultimately have "bparses buf (readListPackBody buf (of_int i)) (encodeBacklen 1) (LpInt i, 1 + getBackLen 1)"
      by (simp only: lp_body_cases(1) lpDone_parses)
    from lp_body_step [OF this] a show ?thesis by (simp add: encodeListPackInt_def lpReadBack_def)
  next
    case b
    then have "length (encodeListPackInt i) = 2" by (auto simp: encodeListPackInt_def Let_def)
    with encodeListPackInt13_parses [OF b] show ?thesis by simp
  next
    case c
    let ?u = "of_int i :: u16"
    have e: "encodeListPackInt i = 0xF1 # le_bytes 2 (unat ?u)"
      using c by (auto simp: encodeListPackInt_def Let_def lp_int_bytes [symmetric])
    have "sint ?u = i" using c by (intro sint_of_int) auto
    then have "bparses buf (readListPackBody buf 0xF1) (le_bytes 2 (unat ?u) @ encodeBacklen 3) (LpInt i, 3 + getBackLen 3)"
      using lp_done_after [OF buf_readBytes_parses [of "le_bytes 2 (unat ?u)" 2], of buf 3 "\<lambda>bs. LpInt (sint (of_nat (le_val bs) :: u16))"]
      by (simp add: readListPackBody_def)
    from lp_body_step [OF this] c show ?thesis by (auto simp: e lpReadBack_def)
  next
    case d
    let ?u = "of_int i :: u32"
    have e: "encodeListPackInt i = 0xF2 # le_bytes 3 (unat ?u)"
      using d by (auto simp: encodeListPackInt_def Let_def lp_int_bytes [symmetric])
    have "take 3 (le_bytes 4 (unat ?u)) = le_bytes 3 (unat ?u)" by (rule take_le_bytes) simp
    then have "int24 (le_bytes 3 (unat ?u)) = i" using d int24_le [of i] by auto
    then have "bparses buf (readListPackBody buf 0xF2) (le_bytes 3 (unat ?u) @ encodeBacklen 4) (LpInt i, 4 + getBackLen 4)"
      using lp_done_after [OF buf_readBytes_parses [of "le_bytes 3 (unat ?u)" 3], of buf 4 "\<lambda>bs. LpInt (int24 bs)"]
      by (simp add: readListPackBody_def)
    from lp_body_step [OF this] d show ?thesis by (auto simp: e lpReadBack_def)
  next
    case e
    let ?u = "of_int i :: u32"
    have e': "encodeListPackInt i = 0xF3 # le_bytes 4 (unat ?u)"
      using e by (auto simp: encodeListPackInt_def Let_def lp_int_bytes [symmetric])
    have "sint ?u = i" using e by (intro sint_of_int) auto
    then have "bparses buf (readListPackBody buf 0xF3) (le_bytes 4 (unat ?u) @ encodeBacklen 5) (LpInt i, 5 + getBackLen 5)"
      using lp_done_after [OF buf_readBytes_parses [of "le_bytes 4 (unat ?u)" 4], of buf 5 "\<lambda>bs. LpInt (sint (of_nat (le_val bs) :: u32))"]
      by (simp add: readListPackBody_def)
    from lp_body_step [OF this] e show ?thesis by (auto simp: e' lpReadBack_def)
  next
    case f
    let ?u = "of_int i :: u64"
    have e: "encodeListPackInt i = 0xF4 # le_bytes 8 (unat ?u)"
      using f by (auto simp: encodeListPackInt_def Let_def le_bytes_word)
    have "sint ?u = i" using assms by (intro sint_of_int) auto
    then have "bparses buf (readListPackBody buf 0xF4) (le_bytes 8 (unat ?u) @ encodeBacklen 9) (LpInt i, 9 + getBackLen 9)"
      using lp_done_after [OF buf_readBytes_parses [of "le_bytes 8 (unat ?u)" 8], of buf 9 "\<lambda>bs. LpInt (sint (of_nat (le_val bs) :: u64))"]
      by (simp add: readListPackBody_def)
    from lp_body_step [OF this] f show ?thesis by (auto simp: e lpReadBack_def)
  qed
qed

subsection \<open>Whole listpacks\<close>

definition lpBytes :: "listpackEntry \<Rightarrow> bytes" where
  "lpBytes x = encodeLpEntry x @ encodeBacklen (of_nat (length (encodeLpEntry x)))"

definition lpValue :: "listpackEntry \<Rightarrow> lp_entry" where
  "lpValue x = (if strVal x \<noteq> [] then LpStr (strVal x) else LpInt (intVal x))"

definition lp_ok :: "listpackEntry \<Rightarrow> bool" where
  "lp_ok x \<longleftrightarrow> (if strVal x \<noteq> [] then lp_str_ok (strVal x) else lp_int_ok (intVal x))"

definition lpSize :: "listpackEntry \<Rightarrow> u32" where
  "lpSize x = (let n = of_nat (length (encodeLpEntry x)) in n + getBackLen n)"

lemma lpReadBack_ok: "lp_int_ok i \<Longrightarrow> lpReadBack i = i"
  by (auto simp: lp_int_ok_def lpReadBack_def)

lemma lpEntry_parses:
  "lp_ok x \<Longrightarrow> bparses buf (readListPackEntry buf) (lpBytes x) (lpValue x, lpSize x)"
  using encodeListPackString_parses [of "strVal x" buf] encodeListPackInt_parses [of "intVal x" buf]
  by (auto simp: lp_ok_def lpBytes_def lpValue_def lpSize_def encodeLpEntry_def Let_def
      lpReadBack_ok lp_int_ok_def)

lemma lpEntry_string_parses:
  assumes "lp_ok x"
  shows "bparses buf (readListPackEntryAsString buf) (lpBytes x) (lpString (lpValue x))"
  using buf.parses_bnd [OF buf.parses_wrapErr [OF lpEntry_parses [OF assms]], of buf
      "\<lambda>(x, _). ret (lpString x)" "[]" "lpString (lpValue x)" "''read from failed''"]
  by (simp add: readListPackEntryAsString_def buf.parses_ret)

lemma lpEntry_int_parses:
  assumes "lp_ok x" "strVal x = []"
  shows "bparses buf (readListPackEntryAsInt buf) (lpBytes x) (intVal x)"
  using buf.parses_bnd [OF buf.parses_wrapErr [OF lpEntry_parses [OF assms(1)]], of buf
      "\<lambda>(x, _). case x of LpStr s \<Rightarrow> fail (MsgArgs ''is not a integer'' (map uint s)) | LpInt i \<Rightarrow> ret i"
      "[]" "intVal x" "''read from failed''"] assms(2)
  by (simp add: readListPackEntryAsInt_def buf.parses_ret lpValue_def)

lemma addBacklens_concat:
  assumes "i \<le> length encoded" and "\<forall>e \<in> set encoded. length e < 2 ^ 32"
  shows "addBacklens (concat encoded) (map (\<lambda>e. of_nat (length e)) encoded) i final =
    concat (map (\<lambda>e. e @ encodeBacklen (of_nat (length e))) (take i encoded)) @ final"
  using assms(1)
proof (induction i arbitrary: final)
  case (Suc i)
  then have i: "i < length encoded" by simp
  have "e \<in> set (take i encoded) \<Longrightarrow> unat (of_nat (length e) :: u32) = length e" for e
    using assms(2) by (auto simp: unat_of_nat dest!: in_set_takeD)
  then have "sum_list (map unat (take i (map (\<lambda>e. of_nat (length e) :: u32) encoded))) =
      sum_list (map length (take i encoded))"
    by (simp add: take_map cong: map_cong)
  also have "\<dots> = length (concat (take i encoded))" by (simp add: length_concat take_map)
  finally have start: "sum_list (map unat (take i (map (\<lambda>e. of_nat (length e) :: u32) encoded))) =
      length (concat (take i encoded))" .
  have "concat encoded = concat (take i encoded) @ encoded ! i @ concat (drop (Suc i) encoded)"
    by (metis append_take_drop_id concat.simps(2) concat_append i Cons_nth_drop_Suc)
  moreover have "unat (of_nat (length (encoded ! i)) :: u32) = length (encoded ! i)"
    using assms(2) nth_mem [OF i] by (simp add: unat_of_nat)
  ultimately have "take (unat (of_nat (length (encoded ! i)) :: u32))
      (drop (length (concat (take i encoded))) (concat encoded)) = encoded ! i" by simp
  with Suc i start show ?case by (simp add: Let_def take_Suc_conv_app_nth)
qed simp

lemma buildListpack_eq:
  assumes "\<forall>x \<in> set entries. length (encodeLpEntry x) < 2 ^ 32"
  shows "buildListpackWithBacklen entries =
    (le_bytes 4 (length (concat (map lpBytes entries)) + 6) @ le_bytes 2 (length entries)) @
    concat (map lpBytes entries)"
proof -
  have "addBacklens (concat (map encodeLpEntry entries))
      (map (\<lambda>e. of_nat (length e)) (map encodeLpEntry entries)) (length entries) [] = concat (map lpBytes entries)"
    using addBacklens_concat [of "length entries" "map encodeLpEntry entries" "[]"] assms
    by (simp add: lpBytes_def [abs_def] comp_def)
  then show ?thesis by (simp add: buildListpackWithBacklen_def Let_def)
qed

lemma readListPackLength_parses:
  assumes "length h = 4" and "n < 65536"
  shows "bparses buf (readListPackLength buf) (h @ le_bytes 2 n) n"
  unfolding parses_def
proof (intro allI impI)
  fix c tail
  assume c: "buf_at buf c ((h @ le_bytes 2 n) @ tail)"
  have "drop (c + 4) buf = drop 4 (drop c buf)" by (simp add: add.commute)
  also have "\<dots> = le_bytes 2 n @ tail" using c assms(1) by simp
  finally have "take 2 (drop (c + 4) buf) = le_bytes 2 n" by simp
  moreover have "c + 6 \<le> length buf" using buf_at_length [OF c] assms(1) by simp
  ultimately show "readListPackLength buf c = (Inr n, buf_adv (length (h @ le_bytes 2 n)) c)"
    using assms by (simp add: readListPackLength_def le_val_le_bytes)
qed

lemma length_encodeLpEntry: "lp_ok x \<Longrightarrow> length (encodeLpEntry x) < 2 ^ 32"
  by (auto simp: encodeLpEntry_def lp_ok_def lp_str_ok_def encodeListPackString_def
      encodeListPackInt_def Let_def)

text \<open>A listpack is a byte source with an item codec on its elements.\<close>

interpretation lp_codec: item_codec "buf_at buf" buf_adv lpBytes
    "bnd (readListPackEntry buf) (\<lambda>(x, _). ret (case x of LpStr s \<Rightarrow> \<lparr>intVal = 0, strVal = s\<rparr>
       | LpInt i \<Rightarrow> \<lparr>intVal = i, strVal = []\<rparr>))" "\<lambda>x. lp_ok x \<and> (strVal x \<noteq> [] \<longrightarrow> intVal x = 0)" for buf
proof unfold_locales
  fix x
  assume x: "lp_ok x \<and> (strVal x \<noteq> [] \<longrightarrow> intVal x = 0)"
  let ?f = "\<lambda>y. case y of LpStr s \<Rightarrow> \<lparr>intVal = 0, strVal = s\<rparr> | LpInt i \<Rightarrow> \<lparr>intVal = i, strVal = []\<rparr>"
  have "?f (lpValue x) = x" using x by (cases x) (auto simp: lpValue_def)
  then have "bparses buf (bnd (readListPackEntry buf) (\<lambda>(x, _). ret (?f x))) (lpBytes x @ []) x"
    by (intro buf.parses_bnd [OF lpEntry_parses]) (use x in \<open>simp_all add: buf.parses_ret\<close>)
  then
  show "bparses buf (bnd (readListPackEntry buf) (\<lambda>(x, _). ret (case x of LpStr s \<Rightarrow> \<lparr>intVal = 0, strVal = s\<rparr>
       | LpInt i \<Rightarrow> \<lparr>intVal = i, strVal = []\<rparr>))) (lpBytes x) x"
    by (simp only: append_Nil2)
qed

lemma buildListpack_parses:
  assumes "list_all lp_ok es" "length es < 65536"
    and "raw = buildListpackWithBacklen es"
    and "\<And>x. lp_ok x \<Longrightarrow> bparses raw m (lpBytes x) (f x)"
  shows "onBuf (bnd (readListPackLength raw) (\<lambda>size. readN size m)) s = (Inr (map f es), s)"
proof -
  have raw: "raw = (le_bytes 4 (length (concat (map lpBytes es)) + 6) @ le_bytes 2 (length es)) @
      concat (map lpBytes es)"
    using assms(1) length_encodeLpEntry
    by (subst assms(3), intro buildListpack_eq) (auto simp: list_all_iff)
  have "bparses raw (readN (length (map f es)) m) (concat (map lpBytes es)) (map f es)"
    using assms(1,4) by (intro buf.parses_readN) (auto simp: list_all2_conv_all_nth list_all_length)
  then have "bparses raw (bnd (readListPackLength raw) (\<lambda>size. readN size m)) raw (map f es)"
    by (subst (3) raw, intro buf.parses_bnd [OF readListPackLength_parses]) (use assms(2) in simp_all)
  then show ?thesis by (rule onBuf_parses)
qed

subsection \<open>Properties\<close>

text \<open>
  C37: a listpack the stream encoder builds is read back element by element: the same
  strings and integers, each with the size it takes, for non-empty strings and for the
  integers \<open>lp_int_ok\<close> lists, up to 65535 elements.
\<close>

theorem listpack_roundtrip:
  assumes "list_all lp_ok es" and "length es < 65536"
  shows "onBuf (bnd (readListPackLength (buildListpackWithBacklen es))
      (\<lambda>size. readN size (readListPackEntry (buildListpackWithBacklen es)))) d =
    (Inr (map (\<lambda>x. (lpValue x, lpSize x)) es), d)"
  using assms lpEntry_parses by (intro buildListpack_parses) auto

theorem listpack_roundtrip_witness:
  "onBuf (bnd (readListPackLength (buildListpackWithBacklen [\<lparr>intVal = 300, strVal = []\<rparr>, \<lparr>intVal = 0, strVal = [97]\<rparr>]))
      (\<lambda>size. readN size (readListPackEntry (buildListpackWithBacklen
        [\<lparr>intVal = 300, strVal = []\<rparr>, \<lparr>intVal = 0, strVal = [97]\<rparr>])))) () =
    (Inr [(LpInt 300, 3), (LpStr [97], 3)], ())"
  using listpack_roundtrip [of "[\<lparr>intVal = 300, strVal = []\<rparr>, \<lparr>intVal = 0, strVal = [97]\<rparr>]" "()"]
  by (simp add: lp_ok_def lp_int_ok_def lp_str_ok_def lpValue_def lpSize_def encodeLpEntry_def
      encodeListPackInt_def encodeListPackString_def getBackLen_def Let_def)

text \<open>
  C38: what the reader makes of an integer the encoder wrote, for every 64-bit integer
  outside -127 to -1: the integer itself, except that 4096 to 8191 lose 8192 and -8191 to
  -4097 gain 8192, because the encoder uses the 13-bit form for them.
\<close>

theorem listpack_int_readback:
  assumes "- (2 ^ 63) \<le> i" and "i < 2 ^ 63" and "i < -127 \<or> 0 \<le> i"
  shows "\<exists>n. readListPackEntry
      (pre @ encodeListPackInt i @ encodeBacklen (of_nat (length (encodeListPackInt i))) @ rest) (length pre) =
    (Inr (LpInt (if 4096 \<le> i \<and> i \<le> 8191 then i - 8192
                 else if -8191 \<le> i \<and> i \<le> -4097 then i + 8192 else i), n),
     length pre + length (encodeListPackInt i) + length (encodeBacklen (of_nat (length (encodeListPackInt i)))))"
proof -
  have "\<not> (-127 \<le> i \<and> i \<le> -1)" using assms(3) by linarith
  from buf.parses_apply [OF encodeListPackInt_parses [OF assms(1,2) this], of "length pre"
      "pre @ encodeListPackInt i @ encodeBacklen (of_nat (length (encodeListPackInt i))) @ rest" rest]
  show ?thesis unfolding lpReadBack_def by simp
qed

theorem listpack_int_readback_witness:
  "\<exists>n. readListPackEntry (encodeListPackInt 5000 @ encodeBacklen (of_nat (length (encodeListPackInt 5000)))) 0 =
    (Inr (LpInt (-3192), n), length (encodeListPackInt 5000) +
       length (encodeBacklen (of_nat (length (encodeListPackInt 5000)))))"
  using listpack_int_readback [of 5000 "[]" "[]"] by simp

text \<open>
  The integer -1 is written as the single byte \<^verbatim>\<open>0xff\<close>, which the reader rejects as
  the end of the listpack, whatever surrounds it.
\<close>

theorem listpack_minus_one_rejected:
  "readListPackEntry (pre @ encodeListPackInt (-1) @ rest) (length pre) =
    (Inl (Msg ''unexpected end''), length pre + 1)"
proof -
  have "buf_readByte (pre @ 0xff # rest) (length pre) = (Inr 0xff, length pre + 1)"
    by (simp add: buf_readByte_def)
  moreover have "encodeListPackInt (-1) = [0xff]" by (simp add: encodeListPackInt_def)
  ultimately show ?thesis
    by (simp add: readListPackEntry_def readListPackBody_def bnd_def fail_def)
qed

text \<open>
  An empty string is written as the integer 0, so it is read back as the string \<^verbatim>\<open>0\<close>.
\<close>

theorem listpack_empty_string_is_zero:
  "fst (readListPackEntryAsString (pre @ encodeLpEntry \<lparr>intVal = 0, strVal = []\<rparr> @ encodeBacklen 1 @ rest)
      (length pre)) = Inr (strlit ''0'')"
proof -
  have e: "encodeLpEntry \<lparr>intVal = 0, strVal = []\<rparr> = encodeListPackInt 0" "length (encodeListPackInt 0) = 1"
    by (simp_all add: encodeLpEntry_def encodeListPackInt_def)
  from buf.parses_apply [OF buf.parses_wrapErr [OF encodeListPackInt_parses [of 0]], of "length pre"
      "pre @ encodeListPackInt 0 @ encodeBacklen 1 @ rest" rest "''read from failed''"] e
  show ?thesis
    by (simp add: readListPackEntryAsString_def bnd_def ret_def lpReadBack_def strlit_def itoa_def
        digits.simps)
qed

end
