(* ===== verification/Lists.thy ===== *)
theory Lists
  imports ListPack
begin

section \<open>Lists (core/list.go)\<close>

text \<open>
  The three list encodings: plain, a quicklist of ziplists and a quicklist of listpacks or
  plain nodes for reading; a ziplist or a quicklist of ziplists for writing.  The writer
  cuts the values into pages; \<open>quickPages_concat\<close> says that no value is lost or moved, and
  the round trips say that the reader gives the values back.
\<close>

definition typeString :: byte where "typeString = 0"
definition typeList :: byte where "typeList = 1"
definition typeSet :: byte where "typeSet = 2"
definition typeZset :: byte where "typeZset = 3"
definition typeHash :: byte where "typeHash = 4"
definition typeZset2 :: byte where "typeZset2 = 5"
definition typeModule :: byte where "typeModule = 6"
definition typeModule2 :: byte where "typeModule2 = 7"
definition typeHashZipMap :: byte where "typeHashZipMap = 9"
definition typeListZipList :: byte where "typeListZipList = 10"
definition typeSetIntSet :: byte where "typeSetIntSet = 11"
definition typeZsetZipList :: byte where "typeZsetZipList = 12"
definition typeHashZipList :: byte where "typeHashZipList = 13"
definition typeListQuickList :: byte where "typeListQuickList = 14"
definition typeStreamListPacks :: byte where "typeStreamListPacks = 15"
definition typeHashListPack :: byte where "typeHashListPack = 16"
definition typeZsetListPack :: byte where "typeZsetListPack = 17"
definition typeListQuickList2 :: byte where "typeListQuickList2 = 18"
definition typeStreamListPacks2 :: byte where "typeStreamListPacks2 = 19"
definition typeSetListPack :: byte where "typeSetListPack = 20"
definition typeStreamListPacks3 :: byte where "typeStreamListPacks3 = 21"
definition typeHashWithHfeRc :: byte where "typeHashWithHfeRc = 22"
definition typeHashListPackWithHfeRc :: byte where "typeHashListPackWithHfeRc = 23"
definition typeHashWithHfe :: byte where "typeHashWithHfe = 24"
definition typeHashListPackWithHfe :: byte where "typeHashListPackWithHfe = 25"
definition typeHash2 :: byte where "typeHash2 = typeHashWithHfeRc"

lemmas type_consts =
  typeString_def typeList_def typeSet_def typeZset_def typeHash_def typeZset2_def typeModule_def
  typeModule2_def typeHashZipMap_def typeListZipList_def typeSetIntSet_def typeZsetZipList_def
  typeHashZipList_def typeListQuickList_def typeStreamListPacks_def typeHashListPack_def
  typeZsetListPack_def typeListQuickList2_def typeStreamListPacks2_def typeSetListPack_def
  typeStreamListPacks3_def typeHashWithHfeRc_def typeHashListPackWithHfeRc_def
  typeHashWithHfe_def typeHashListPackWithHfe_def typeHash2_def

subsection \<open>Details of an encoding (model/detail.go)\<close>

datatype detail =
    QuicklistDetail "bytes list list"
  | Quicklist2Detail "int list" "u32 list list"
  | IntsetDetail nat
  | ZiplistDetail nat
  | ListpackDetail nat

subsection \<open>Readers\<close>

text \<open>A counted sequence of strings: \<^verbatim>\<open>readList\<close> and \<^verbatim>\<open>readSet\<close>.\<close>

definition readList :: "(dstate, bytes list) gom" where
  "readList =
     bnd readLength (\<lambda>(size64, _).
     bnd (makeslice 24 (sint size64)) (\<lambda>_.
     readN (nat (sint size64)) readString))"

definition readQuickList :: "(dstate, bytes list \<times> detail) gom" where
  "readQuickList =
     bnd readLength (\<lambda>(size, _).
     bnd (readN (nat (sint size)) readZipList) (\<lambda>pages.
     ret (concat pages, QuicklistDetail pages)))"

datatype quick_node = PlainNode bytes | PackedNode "bytes list" "u32 list"

definition quicklistNodeContainerPlain :: int where "quicklistNodeContainerPlain = 1"
definition quicklistNodeContainerPacked :: int where "quicklistNodeContainerPacked = 2"

definition readQuickNode :: "(dstate, quick_node) gom" where
  "readQuickNode =
     bnd readLength (\<lambda>(len, _).
       if uint len = quicklistNodeContainerPlain then bnd readString (\<lambda>entry. ret (PlainNode entry))
       else if uint len = quicklistNodeContainerPacked then
         bnd readListPack (\<lambda>(page, lengths). ret (PackedNode page lengths))
       else fail (Msg ''unknown quicklist node type''))"

fun nodeEntries :: "quick_node \<Rightarrow> bytes list" where
  "nodeEntries (PlainNode entry) = [entry]"
| "nodeEntries (PackedNode page lengths) = page"

fun nodeEncoding :: "quick_node \<Rightarrow> int" where
  "nodeEncoding (PlainNode entry) = quicklistNodeContainerPlain"
| "nodeEncoding (PackedNode page lengths) = quicklistNodeContainerPacked"

fun nodeSizes :: "quick_node \<Rightarrow> u32 list list" where
  "nodeSizes (PlainNode entry) = []"
| "nodeSizes (PackedNode page lengths) = [lengths]"

definition readQuickList2 :: "(dstate, bytes list \<times> detail) gom" where
  "readQuickList2 =
     bnd readLength (\<lambda>(size, _).
     bnd (readN (nat (sint size)) readQuickNode) (\<lambda>nodes.
     ret (concat (map nodeEntries nodes),
       Quicklist2Detail (map nodeEncoding nodes) (concat (map nodeSizes nodes)))))"

subsection \<open>Writers\<close>

definition listFits :: "zipListOpt option \<Rightarrow> bytes list \<Rightarrow> bool" where
  "listFits zop vals \<longleftrightarrow> int (length vals) \<le> getMaxEntries zop \<and>
     list_all (\<lambda>v. int (length v) \<le> getMaxValue zop) vals"

definition tryWriteListZipList :: "bytes \<Rightarrow> bytes list \<Rightarrow> (encoder, bool) gom" where
  "tryWriteListZipList key vals =
     bnd (getEnc (\<lambda>e. listFits (listZipListOpt e) vals)) (\<lambda>fits.
       if \<not> fits then ret False
       else bnd (enc_write [typeListZipList]) (\<lambda>_.
            bnd (writeString key) (\<lambda>_.
            bnd (writeZipList vals) (\<lambda>_. ret True))))"

text \<open>The loop that cuts the values into pages: the finished pages, the page size, the page.\<close>

fun pageLoop :: "int \<Rightarrow> bytes list list \<Rightarrow> int \<Rightarrow> bytes list \<Rightarrow> bytes list \<Rightarrow> bytes list list" where
  "pageLoop maxSize pages pageSize curPage [] = (if curPage \<noteq> [] then pages @ [curPage] else pages)"
| "pageLoop maxSize pages pageSize curPage (value # vals) =
     (let curPage' = curPage @ [value]; pageSize' = pageSize + int (length value)
      in if maxSize \<le> pageSize' then pageLoop maxSize (pages @ [curPage']) 0 [] vals
         else pageLoop maxSize pages pageSize' curPage' vals)"

definition quickPages :: "int \<Rightarrow> bytes list \<Rightarrow> bytes list list" where
  "quickPages maxSize vals = pageLoop maxSize [] 0 [] vals"

definition writeQuickList :: "bytes \<Rightarrow> bytes list \<Rightarrow> (encoder, unit) gom" where
  "writeQuickList key vals =
     bnd (getEnc (\<lambda>e. quickPages (listZipListSize e) vals)) (\<lambda>pages.
     bnd (enc_write [typeListQuickList]) (\<lambda>_.
     bnd (writeString key) (\<lambda>_.
     bnd (writeLength (of_nat (length pages))) (\<lambda>_.
     forEach writeZipList pages))))"

subsection \<open>Pages\<close>

lemma pageLoop_concat:
  "concat (pageLoop maxSize pages pageSize curPage vals) = concat pages @ curPage @ vals"
  by (induction maxSize pages pageSize curPage vals rule: pageLoop.induct) (simp_all add: Let_def)

lemma quickPages_concat: "concat (quickPages maxSize vals) = vals"
  by (simp add: quickPages_def pageLoop_concat)

lemma pageLoop_all:
  assumes "list_all P (concat pages)" "list_all P curPage" "list_all P vals"
    and "page \<in> set (pageLoop maxSize pages pageSize curPage vals)"
  shows "list_all P page"
proof -
  have "list_all P (concat (pageLoop maxSize pages pageSize curPage vals))"
    using assms(1-3) by (simp add: pageLoop_concat)
  with assms(4) show ?thesis by (auto simp: list_all_iff)
qed

lemma pageLoop_nonempty:
  "[] \<notin> set pages \<Longrightarrow> [] \<notin> set (pageLoop maxSize pages pageSize curPage vals)"
  by (induction maxSize pages pageSize curPage vals rule: pageLoop.induct) (auto simp: Let_def)

lemma length_quickPages_le: "length (quickPages maxSize vals) \<le> length vals"
proof -
  have ne: "[] \<notin> set (quickPages maxSize vals)" by (simp add: quickPages_def pageLoop_nonempty)
  have "[] \<notin> set pss \<Longrightarrow> length pss \<le> length (concat pss)" for pss :: "bytes list list"
    by (induction pss) (auto simp: Suc_le_eq add_strict_increasing)
  from this [OF ne] show ?thesis by (simp add: quickPages_concat)
qed

subsection \<open>Ziplists as items\<close>

text \<open>The bytes of a ziplist the writer can build, and the lists for which they read back.\<close>

definition zipRaw :: "bytes list \<Rightarrow> bytes" where
  "zipRaw vals = (case zipListBytes vals of Inr raw \<Rightarrow> raw | Inl _ \<Rightarrow> [])"

definition zl_ok :: "bool \<Rightarrow> bytes list \<Rightarrow> bool" where
  "zl_ok c vals \<longleftrightarrow> ziplist_ok vals \<and> string_ok c (zipRaw vals)"

lemma zipRaw_eq: "ziplist_ok vals \<Longrightarrow> zipListBytes vals = Inr (zipRaw vals)"
  using zipListBytes_ok [of vals] by (auto simp: zipRaw_def)

lemma zl_parses: "zl_ok c vals \<Longrightarrow> dparses readZipList (nanBytes c (zipRaw vals)) vals"
  by (auto simp: zl_ok_def intro: readZipList_parses zipRaw_eq)

lemma zl_writes: "zl_ok c vals \<Longrightarrow> ewrites c (writeZipList vals) (nanBytes c (zipRaw vals)) ()"
  by (auto simp: zl_ok_def intro: writeZipList_writes zipRaw_eq)

interpretation zl_codec: item_codec dec_at dec_adv "\<lambda>vals. nanBytes c (zipRaw vals)" readZipList "zl_ok c" for c
  by unfold_locales (rule zl_parses)

subsection \<open>Round trips\<close>

lemma makeslice_then:
  assumes "0 \<le> n" "n * e \<le> maxAlloc" "dparses m bs x"
  shows "dparses (bnd (makeslice e n) (\<lambda>_. m)) bs x"
  using src.parses_bnd [OF makeslice_parses [OF assms(1,2)], of "\<lambda>_. m" bs x] assms(3) by simp

lemma counted_parses:
  assumes "int n \<le> maxAlloc" and "dparses (f (of_nat n, False)) bs x"
  shows "dparses (bnd readLength f) (lengthBytes (of_nat n) @ bs) x"
  by (rule src.parses_bnd [OF readLength_parses]) (rule assms(2))

lemma nat_sint_of_length: "int n \<le> maxAlloc \<Longrightarrow> nat (sint (of_nat n :: u64)) = n"
  by (simp add: sint_of_length)

lemma readList_parses:
  assumes "list_all (string_ok c) vals" "int (length vals) * 24 \<le> maxAlloc"
  shows "dparses readList (lengthBytes (of_nat (length vals)) @ concat (map (stringBytes c) vals)) vals"
proof -
  have n: "int (length vals) \<le> maxAlloc" using assms(2) by linarith
  show ?thesis
    unfolding readList_def
    by (rule counted_parses [OF n])
      (use assms n in \<open>simp add: sint_of_length makeslice_then str_codec.items\<close>)
qed

definition quickBytes :: "bool \<Rightarrow> bytes list list \<Rightarrow> bytes" where
  "quickBytes c pages =
     lengthBytes (of_nat (length pages)) @ concat (map (\<lambda>page. nanBytes c (zipRaw page)) pages)"

lemma readQuickList_parses:
  assumes "list_all (zl_ok c) pages" "int (length pages) \<le> maxAlloc"
  shows "dparses readQuickList (quickBytes c pages) (concat pages, QuicklistDetail pages)"
  unfolding readQuickList_def quickBytes_def
  by (rule counted_parses [OF assms(2)])
    (simp add: nat_sint_of_length assms(2), rule src.parses_bnd_ret [OF zl_codec.items [OF assms(1)]], simp)

text \<open>What the two writers append for a list, on the bytes of an encoder with options \<open>e\<close>.\<close>

definition listPayload :: "encoder \<Rightarrow> bytes list \<Rightarrow> bytes" where
  "listPayload e vals =
     (if listFits (listZipListOpt e) vals then nanBytes (compress e) (zipRaw vals)
      else quickBytes (compress e) (quickPages (listZipListSize e) vals))"

definition listType :: "encoder \<Rightarrow> bytes list \<Rightarrow> byte" where
  "listType e vals = (if listFits (listZipListOpt e) vals then typeListZipList else typeListQuickList)"

definition list_ok :: "encoder \<Rightarrow> bytes list \<Rightarrow> bool" where
  "list_ok e vals \<longleftrightarrow> int (length vals) \<le> maxAlloc \<and>
     (if listFits (listZipListOpt e) vals then zl_ok (compress e) vals
      else list_all (zl_ok (compress e)) (quickPages (listZipListSize e) vals))"

definition writeListBody :: "bytes \<Rightarrow> bytes list \<Rightarrow> (encoder, unit) gom" where
  "writeListBody key vals =
     bnd (tryWriteListZipList key vals) (\<lambda>ok. if \<not> ok then writeQuickList key vals else ret ())"

lemma writeListBody_emits:
  assumes "ready e" "string_ok (compress e) key" "list_ok e vals"
  shows "writeListBody key vals e =
    (Inr (), emit (listType e vals # stringBytes (compress e) key @ listPayload e vals) e)"
proof (cases "listFits (listZipListOpt e) vals")
  case True
  then have "ewrites (compress e) (bnd (enc_write [typeListZipList]) (\<lambda>_. bnd (writeString key) (\<lambda>_.
      bnd (writeZipList vals) (\<lambda>_. ret True))))
      ([typeListZipList] @ stringBytes (compress e) key @ nanBytes (compress e) (zipRaw vals)) True"
    using assms by (intro sink.writes_seq sink.writes_last enc_write_writes writeString_writes zl_writes)
      (auto simp: list_ok_def)
  from sink.writes_apply [OF this] True assms(1)
  have "tryWriteListZipList key vals e = (Inr True, emit (typeListZipList #
      stringBytes (compress e) key @ nanBytes (compress e) (zipRaw vals)) e)"
    by (simp add: tryWriteListZipList_def)
  with True show ?thesis
    by (simp add: writeListBody_def bnd_def ret_def listType_def listPayload_def)
next
  case False
  let ?pages = "quickPages (listZipListSize e) vals"
  have "ewrites (compress e) (bnd (enc_write [typeListQuickList]) (\<lambda>_. bnd (writeString key) (\<lambda>_.
      bnd (writeLength (of_nat (length ?pages))) (\<lambda>_. forEach writeZipList ?pages))))
      ([typeListQuickList] @ stringBytes (compress e) key @ quickBytes (compress e) ?pages) ()"
    unfolding quickBytes_def using assms False
    by (intro sink.writes_seq enc_write_writes writeString_writes writeLength_writes sink.writes_forEach zl_writes)
      (auto simp: list_ok_def list_all_iff)
  from sink.writes_apply [OF this] False assms(1)
  have "writeQuickList key vals e = (Inr (), emit (typeListQuickList #
      stringBytes (compress e) key @ quickBytes (compress e) ?pages) e)"
    by (simp add: writeQuickList_def)
  moreover have "tryWriteListZipList key vals e = (Inr False, e)"
    using False by (simp add: tryWriteListZipList_def ret_def)
  ultimately show ?thesis using False
    by (simp add: writeListBody_def bnd_def listType_def listPayload_def)
qed

lemma listPayload_parses:
  assumes "list_ok e vals"
  shows "listFits (listZipListOpt e) vals \<Longrightarrow> dparses readZipList (listPayload e vals) vals"
    and "\<not> listFits (listZipListOpt e) vals \<Longrightarrow> dparses readQuickList (listPayload e vals)
      (vals, QuicklistDetail (quickPages (listZipListSize e) vals))"
proof -
  show "dparses readZipList (listPayload e vals) vals" if "listFits (listZipListOpt e) vals"
    using assms that by (simp add: listPayload_def list_ok_def zl_parses)
  show "dparses readQuickList (listPayload e vals)
      (vals, QuicklistDetail (quickPages (listZipListSize e) vals))"
    if "\<not> listFits (listZipListOpt e) vals"
    using assms that readQuickList_parses [of "compress e" "quickPages (listZipListSize e) vals"]
      length_quickPages_le [of "listZipListSize e" vals]
    by (simp add: listPayload_def list_ok_def quickPages_concat)
qed

subsection \<open>Movement\<close>

lemma readListPack_advances: "dadvances readListPack"
  unfolding readListPack_def by (intro string_advances)

lemma readZipList_advances: "dadvances readZipList"
  unfolding readZipList_def by (intro string_advances)

lemma readList_advances: "dadvances readList"
  unfolding readList_def by (intro string_advances)

lemma readQuickList_advances: "dadvances readQuickList"
  unfolding readQuickList_def by (intro string_advances readZipList_advances)

lemma readQuickList2_advances: "dadvances readQuickList2"
  unfolding readQuickList2_def readQuickNode_def by (intro string_advances readListPack_advances)

lemmas list_advances =
  readZipList_advances readList_advances readQuickList_advances readQuickList2_advances

end
