(* ===== verification/Sets.thy ===== *)
theory Sets
  imports Lists "HOL-Library.Multiset"
begin

section \<open>Sets and sorted sets (core/set.go, core/zset.go)\<close>

text \<open>
  The readers of the plain, intset and listpack encodings of a set and of the plain,
  binary, ziplist and listpack encodings of a sorted set; the writers, which choose an
  intset when every member is a canonical integer and a ziplist when a sorted set is
  small.  \<^verbatim>\<open>strconv.ParseFloat\<close> and \<^verbatim>\<open>FormatFloat\<close> are the parameters \<open>pf\<close> and \<open>ff\<close>; the round
  trip of a ziplist score needs that \<open>pf\<close> inverts \<open>ff\<close> on the scores, as the shortest
  decimal form does.
\<close>

subsection \<open>Readers\<close>

definition readSet :: "(dstate, bytes list) gom" where
  "readSet =
     bnd readLength (\<lambda>(size64, _).
     bnd (makeslice 24 (sint size64)) (\<lambda>_.
     readN (nat (sint size64)) readString))"

definition intsetInt :: "nat \<Rightarrow> bytes \<Rightarrow> int" where
  "intsetInt intSize bs =
     (if intSize = 2 then sint (of_nat (le_val bs) :: u16)
      else if intSize = 4 then sint (of_nat (le_val bs) :: u32)
      else sint (of_nat (le_val bs) :: u64))"

definition readIntSetBuf :: "bytes \<Rightarrow> (nat, bytes list) gom" where
  "readIntSetBuf buf =
     (if length buf < 4 then fail (GoPanic ''slice bounds out of range'')
      else let intSize = le_val (take 4 buf) in
        if intSize \<noteq> 2 \<and> intSize \<noteq> 4 \<and> intSize \<noteq> 8 then
          fail (MsgArgs ''unknown intset encoding'' [int intSize])
        else if length buf < 8 then fail (GoPanic ''slice bounds out of range'')
        else bnd (buf_skip 8) (\<lambda>_.
          readN (le_val (take 4 (drop 4 buf)))
            (bnd (buf_readBytes buf intSize) (\<lambda>intBytes. ret (itoa (intsetInt intSize intBytes))))))"

definition readIntSet :: "(dstate, bytes list \<times> detail) gom" where
  "readIntSet =
     bnd readString (\<lambda>buf.
     bnd (onBuf (readIntSetBuf buf)) (\<lambda>result. ret (result, IntsetDetail (length buf))))"

definition readListPackSet :: "(dstate, bytes list \<times> detail) gom" where
  "readListPackSet =
     bnd readString (\<lambda>buf.
     bnd (onBuf (bnd (readListPackLength buf) (\<lambda>size. readN size (readListPackEntryAsString buf)))) (\<lambda>vals.
     ret (vals, ListpackDetail (length buf))))"

record zset_entry =
  zMember :: bytes
  zScore :: float64

definition readZSet :: "(bytes \<Rightarrow> float64 option) \<Rightarrow> bool \<Rightarrow> (dstate, zset_entry list) gom" where
  "readZSet pf zset2 =
     bnd readLength (\<lambda>(len, _).
     bnd (makeslice 8 (sint len)) (\<lambda>_.
     readN (unat len)
       (bnd readString (\<lambda>member.
        bnd (if zset2 then readFloat else readLiteralFloat pf) (\<lambda>score.
        ret \<lparr>zMember = member, zScore = score\<rparr>)))))"

text \<open>Two entries of a packed buffer, the second one parsed as a score.\<close>

definition readScored :: "(bytes \<Rightarrow> float64 option) \<Rightarrow> (nat, bytes) gom \<Rightarrow> (nat, zset_entry) gom" where
  "readScored pf entry =
     bnd entry (\<lambda>member.
     bnd entry (\<lambda>scoreLiteral.
     case pf scoreLiteral of
       None \<Rightarrow> fail (MsgArgs ''ParseFloat'' (map uint scoreLiteral))
     | Some score \<Rightarrow> ret \<lparr>zMember = member, zScore = score\<rparr>))"

definition readZipListZSet :: "(bytes \<Rightarrow> float64 option) \<Rightarrow> (dstate, zset_entry list \<times> detail) gom" where
  "readZipListZSet pf =
     bnd readString (\<lambda>buf.
     bnd (onBuf (bnd (readZipListLength buf) (\<lambda>size.
       readN ((size + 1) div 2) (readScored pf (readZipListEntry buf))))) (\<lambda>entries.
     ret (entries, ZiplistDetail (length buf))))"

definition readListPackZSet :: "(bytes \<Rightarrow> float64 option) \<Rightarrow> (dstate, zset_entry list \<times> detail) gom" where
  "readListPackZSet pf =
     bnd readString (\<lambda>buf.
     bnd (onBuf (bnd (readListPackLength buf) (\<lambda>size.
       readN ((size + 1) div 2) (readScored pf (readListPackEntryAsString buf))))) (\<lambda>entries.
     ret (entries, ListpackDetail (length buf))))"

subsection \<open>Writers\<close>

definition intsetSize :: "int list \<Rightarrow> nat" where
  "intsetSize ints =
     (let mx = foldl max (- (2 ^ 63)) ints; mn = foldl min (2 ^ 63 - 1) ints
      in if - (2 ^ 15) \<le> mn \<and> mx \<le> 2 ^ 15 - 1 then 2
         else if - (2 ^ 31) \<le> mn \<and> mx \<le> 2 ^ 31 - 1 then 4
         else 8)"

definition intsetElem :: "nat \<Rightarrow> int \<Rightarrow> bytes" where
  "intsetElem intSize v =
     (if intSize = 2 then le_bytes 2 (unat (of_int v :: u16))
      else if intSize = 4 then le_bytes 4 (unat (of_int v :: u32))
      else le_bytes 8 (unat (of_int v :: u64)))"

definition intsetRaw :: "int list \<Rightarrow> bytes" where
  "intsetRaw ints =
     (let intSize = intsetSize ints
      in le_bytes 4 intSize @ le_bytes 4 (length ints) @ concat (map (intsetElem intSize) (sort ints)))"

definition tryWriteIntSetEncoding :: "bytes \<Rightarrow> bytes list \<Rightarrow> (encoder, bool) gom" where
  "tryWriteIntSetEncoding key vals = (case those (map isEncodableUint64 vals) of
     None \<Rightarrow> ret False
   | Some intList \<Rightarrow>
       bnd (enc_write [typeSetIntSet]) (\<lambda>_.
       bnd (writeString key) (\<lambda>_.
       bnd (writeNanString (intsetRaw intList)) (\<lambda>_. ret True))))"

definition writeSetEncoding :: "bytes \<Rightarrow> bytes list \<Rightarrow> (encoder, unit) gom" where
  "writeSetEncoding key vals =
     bnd (enc_write [typeSet]) (\<lambda>_.
     bnd (writeString key) (\<lambda>_.
     bnd (writeLength (of_nat (length vals))) (\<lambda>_.
     forEach writeString vals)))"

definition zsetFits :: "zipListOpt option \<Rightarrow> zset_entry list \<Rightarrow> bool" where
  "zsetFits zop entries \<longleftrightarrow> int (length entries) \<le> getMaxEntries zop \<and>
     list_all (\<lambda>x. int (length (zMember x)) \<le> getMaxValue zop) entries"

definition zsetElements :: "(float64 \<Rightarrow> bytes) \<Rightarrow> zset_entry list \<Rightarrow> bytes list" where
  "zsetElements ff entries = concat (map (\<lambda>x. [zMember x, ff (zScore x)]) entries)"

definition tryWriteZipListZSet :: "(float64 \<Rightarrow> bytes) \<Rightarrow> bytes \<Rightarrow> zset_entry list \<Rightarrow> (encoder, bool) gom" where
  "tryWriteZipListZSet ff key entries =
     bnd (getEnc (\<lambda>e. zsetFits (zsetZipListOpt e) entries)) (\<lambda>fits.
       if \<not> fits then ret False
       else bnd (enc_write [typeZsetZipList]) (\<lambda>_.
            bnd (writeString key) (\<lambda>_.
            bnd (writeZipList (zsetElements ff entries)) (\<lambda>_. ret True))))"

definition writeZSet2Encoding :: "bytes \<Rightarrow> zset_entry list \<Rightarrow> (encoder, unit) gom" where
  "writeZSet2Encoding key entries =
     bnd (enc_write [typeZset2]) (\<lambda>_.
     bnd (writeString key) (\<lambda>_.
     bnd (writeLength (of_nat (length entries))) (\<lambda>_.
     forEach (\<lambda>x. bnd (writeString (zMember x)) (\<lambda>_. writeFloat64 (zScore x))) entries)))"

subsection \<open>Intsets\<close>

lemma foldl_max_ge: "a \<le> foldl max (a :: int) xs \<and> (\<forall>x \<in> set xs. x \<le> foldl max a xs)"
proof (induction xs arbitrary: a)
  case (Cons x xs)
  from Cons [of "max a x"] show ?case by auto
qed simp

lemma foldl_min_le: "foldl min (a :: int) xs \<le> a \<and> (\<forall>x \<in> set xs. foldl min a xs \<le> x)"
proof (induction xs arbitrary: a)
  case (Cons x xs)
  from Cons [of "min a x"] show ?case by auto
qed simp

lemma those_Some: "those xs = Some ys \<longleftrightarrow> xs = map Some ys"
  by (induction xs arbitrary: ys) (auto split: option.splits)

text \<open>The element size chosen for a list of 64-bit integers holds each of them.\<close>

lemma intsetSize_cases:
  assumes "i \<in> set ints"
  shows "intsetSize ints = 2 \<and> - (2 ^ 15) \<le> i \<and> i < 2 ^ 15 \<or>
    intsetSize ints = 4 \<and> - (2 ^ 31) \<le> i \<and> i < 2 ^ 31 \<or> intsetSize ints = 8"
  using foldl_max_ge [of "- (2 ^ 63)" ints] foldl_min_le [of "2 ^ 63 - 1" ints] assms
  by (force simp: intsetSize_def Let_def)

lemma intsetSize_values: "intsetSize ints = 2 \<or> intsetSize ints = 4 \<or> intsetSize ints = 8"
  by (simp add: intsetSize_def Let_def)

lemma intsetElem_parses:
  assumes "i \<in> set ints" "- (2 ^ 63) \<le> i" "i < 2 ^ 63"
  shows "bparses buf (bnd (buf_readBytes buf (intsetSize ints)) (\<lambda>bs. ret (itoa (intsetInt (intsetSize ints) bs))))
    (intsetElem (intsetSize ints) i) (itoa i)"
proof -
  let ?n = "intsetSize ints"
  have len: "length (intsetElem ?n i) = ?n"
    using intsetSize_values [of ints] by (auto simp: intsetElem_def)
  have "intsetInt ?n (intsetElem ?n i) = i"
    using intsetSize_cases [OF assms(1)] assms(2,3) sint_of_int [of i, where 'a = 16]
      sint_of_int [of i, where 'a = 32] sint_of_int [of i, where 'a = 64]
    by (auto simp: intsetElem_def intsetInt_def)
  then show ?thesis
    by (intro buf.parses_bnd_ret [OF buf_readBytes_parses [OF len]]) simp
qed

lemma readIntSetBuf_parses:
  assumes "length ints < 2 ^ 32" and "\<forall>i \<in> set ints. - (2 ^ 63) \<le> i \<and> i < 2 ^ 63"
  shows "onBuf (readIntSetBuf (intsetRaw ints)) s = (Inr (map itoa (sort ints)), s)"
proof -
  let ?n = "intsetSize ints" and ?raw = "intsetRaw ints"
  let ?m = "bnd (buf_readBytes ?raw ?n) (\<lambda>bs. ret (itoa (intsetInt ?n bs)))"
  have raw: "?raw = (le_bytes 4 ?n @ le_bytes 4 (length ints)) @ concat (map (intsetElem ?n) (sort ints))"
    by (simp add: intsetRaw_def Let_def)
  have n: "le_val (take 4 ?raw) = ?n" "le_val (take 4 (drop 4 ?raw)) = length ints" "8 \<le> length ?raw"
    using intsetSize_values [of ints] assms(1) by (auto simp: raw le_val_le_bytes)
  have "bparses ?raw (readN (length (map itoa (sort ints))) ?m)
      (concat (map (intsetElem ?n) (sort ints))) (map itoa (sort ints))"
    using assms(2) by (intro buf.parses_readN)
      (auto simp: list.rel_map list_all2_same intro!: intsetElem_parses)
  then have "bparses ?raw (bnd (buf_skip 8) (\<lambda>_. readN (length ints) ?m))
      ((le_bytes 4 ?n @ le_bytes 4 (length ints)) @ concat (map (intsetElem ?n) (sort ints))) (map itoa (sort ints))"
    by (intro buf.parses_bnd [OF buf_skip_parses]) simp_all
  then have "onBuf (bnd (buf_skip 8) (\<lambda>_. readN (length ints) ?m)) s = (Inr (map itoa (sort ints)), s)"
    unfolding raw [symmetric] by (rule onBuf_parses)
  moreover have "readIntSetBuf ?raw = bnd (buf_skip 8) (\<lambda>_. readN (length ints) ?m)"
    using n intsetSize_values [of ints] by (auto simp: readIntSetBuf_def Let_def)
  ultimately show ?thesis by simp
qed

lemma readSet_readList: "readSet = readList"
  by (simp add: readSet_def readList_def)

subsection \<open>Round trip of sets\<close>

text \<open>What the writers append for a set, and the members the reader returns.\<close>

definition setType :: "bytes list \<Rightarrow> byte" where
  "setType vals = (if those (map isEncodableUint64 vals) = None then typeSet else typeSetIntSet)"

definition setPayload :: "bool \<Rightarrow> bytes list \<Rightarrow> bytes" where
  "setPayload c vals = (case those (map isEncodableUint64 vals) of
     None \<Rightarrow> lengthBytes (of_nat (length vals)) @ concat (map (stringBytes c) vals)
   | Some ints \<Rightarrow> nanBytes c (intsetRaw ints))"

definition set_ok :: "bool \<Rightarrow> bytes list \<Rightarrow> bool" where
  "set_ok c vals \<longleftrightarrow> int (length vals) * 24 \<le> maxAlloc \<and> (case those (map isEncodableUint64 vals) of
     None \<Rightarrow> list_all (string_ok c) vals
   | Some ints \<Rightarrow> length vals < 2 ^ 32 \<and> string_ok c (intsetRaw ints))"

definition setRead :: "bytes list \<Rightarrow> bytes list" where
  "setRead vals = (case those (map isEncodableUint64 vals) of
     None \<Rightarrow> vals | Some ints \<Rightarrow> map itoa (sort ints))"

definition writeSetBody :: "bytes \<Rightarrow> bytes list \<Rightarrow> (encoder, unit) gom" where
  "writeSetBody key vals =
     bnd (tryWriteIntSetEncoding key vals) (\<lambda>ok. if \<not> ok then writeSetEncoding key vals else ret ())"

lemma writeSetBody_emits:
  assumes "string_ok c key" "set_ok c vals"
  shows "ewrites c (writeSetBody key vals) (setType vals # stringBytes c key @ setPayload c vals) ()"
proof (cases "those (map isEncodableUint64 vals)")
  case None
  have "ewrites c (writeSetEncoding key vals) ([typeSet] @ stringBytes c key @
      lengthBytes (of_nat (length vals)) @ concat (map (stringBytes c) vals)) ()"
    unfolding writeSetEncoding_def using assms None
    by (intro sink.writes_seq enc_write_writes writeString_writes writeLength_writes sink.writes_forEach)
      (auto simp: set_ok_def list_all_iff)
  moreover have "tryWriteIntSetEncoding key vals = ret False"
    using None by (simp add: tryWriteIntSetEncoding_def)
  ultimately show ?thesis using None
    by (simp add: writes_def writeSetBody_def bnd_ret setType_def setPayload_def)
next
  case (Some ints)
  have "ewrites c (tryWriteIntSetEncoding key vals) ([typeSetIntSet] @ stringBytes c key @
      nanBytes c (intsetRaw ints)) True"
    unfolding tryWriteIntSetEncoding_def using assms Some
    by (simp only: option.case)
      (intro sink.writes_seq sink.writes_last enc_write_writes writeString_writes writeNanString_writes,
        auto simp: set_ok_def)
  with Some show ?thesis
    by (simp add: writes_def writeSetBody_def bnd_def ret_def setType_def setPayload_def)
qed

lemma setRead_mset: "mset (setRead vals) = mset vals"
proof (cases "those (map isEncodableUint64 vals)")
  case (Some ints)
  then have m: "map isEncodableUint64 vals = map Some ints" by (simp add: those_Some)
  have "map itoa ints = vals"
  proof (rule nth_equalityI)
    show "length (map itoa ints) = length vals" using arg_cong [OF m, of length] by simp
    fix k assume "k < length (map itoa ints)"
    then have k: "k < length ints" "k < length vals" using arg_cong [OF m, of length] by simp_all
    then have "isEncodableUint64 (vals ! k) = Some (ints ! k)" using m by (metis nth_map)
    with k show "map itoa ints ! k = vals ! k" by (auto dest: isEncodableUint64_Some)
  qed
  then have "mset (map itoa (sort ints)) = mset vals" by (metis mset_map mset_sort)
  with Some show ?thesis by (simp add: setRead_def)
qed (simp add: setRead_def)

lemma setInts:
  assumes "those (map isEncodableUint64 vals) = Some ints"
  shows "length ints = length vals \<and> (\<forall>i \<in> set ints. - (2 ^ 63) \<le> i \<and> i < 2 ^ 63)"
proof -
  have m: "map isEncodableUint64 vals = map Some ints" using assms by (simp add: those_Some)
  have "- (2 ^ 63) \<le> i \<and> i < 2 ^ 63" if "i \<in> set ints" for i
  proof -
    have "Some i \<in> set (map isEncodableUint64 vals)" using m that by simp
    then obtain v where "isEncodableUint64 v = Some i" by auto
    then show ?thesis using isEncodableUint64_Some [of v i] by auto
  qed
  with arg_cong [OF m, of length] show ?thesis by simp
qed

lemma setPayload_parses:
  assumes "set_ok c vals"
  shows "setType vals = typeSet \<Longrightarrow> dparses readSet (setPayload c vals) (setRead vals)"
    and "setType vals = typeSetIntSet \<Longrightarrow> \<exists>n. dparses readIntSet (setPayload c vals) (setRead vals, IntsetDetail n)"
proof -
  have t: "typeSet \<noteq> typeSetIntSet" by (simp add: type_consts)
  show "dparses readSet (setPayload c vals) (setRead vals)" if "setType vals = typeSet"
    using assms that t readList_parses [of c vals]
    by (auto simp: setType_def set_ok_def setPayload_def setRead_def readSet_readList split: if_splits)
  show "\<exists>n. dparses readIntSet (setPayload c vals) (setRead vals, IntsetDetail n)" if st: "setType vals = typeSetIntSet"
  proof -
    obtain ints where ints: "those (map isEncodableUint64 vals) = Some ints"
      using st t by (auto simp: setType_def split: if_splits)
    have "dparses (bnd (onBuf (readIntSetBuf (intsetRaw ints)))
        (\<lambda>result. ret (result, IntsetDetail (length (intsetRaw ints))))) []
        (setRead vals, IntsetDetail (length (intsetRaw ints)))"
      using readIntSetBuf_parses [of ints] setInts [OF ints] assms ints
      by (intro src.parses_bnd_ret [OF src.parses_pure [of _ "setRead vals"]])
        (simp_all add: setRead_def set_ok_def)
    then have "dparses readIntSet (nanBytes c (intsetRaw ints) @ []) (setRead vals, IntsetDetail (length (intsetRaw ints)))"
      unfolding readIntSet_def using assms ints
      by (intro src.parses_bnd [OF readString_nan]) (auto simp: set_ok_def)
    then show ?thesis using ints by (auto simp: setPayload_def)
  qed
qed

subsection \<open>Round trip of sorted sets\<close>

definition zset_ok :: "(bytes \<Rightarrow> float64 option) \<Rightarrow> (float64 \<Rightarrow> bytes) \<Rightarrow> encoder \<Rightarrow> zset_entry list \<Rightarrow> bool" where
  "zset_ok pf ff e entries \<longleftrightarrow> int (length entries) * 8 \<le> maxAlloc \<and>
     (if zsetFits (zsetZipListOpt e) entries
      then zl_ok (compress e) (zsetElements ff entries) \<and>
        list_all (\<lambda>x. pf (ff (zScore x)) = Some (zScore x)) entries
      else list_all (\<lambda>x. string_ok (compress e) (zMember x)) entries)"

definition zsetType :: "encoder \<Rightarrow> zset_entry list \<Rightarrow> byte" where
  "zsetType e entries = (if zsetFits (zsetZipListOpt e) entries then typeZsetZipList else typeZset2)"

definition zsetItem :: "bool \<Rightarrow> zset_entry \<Rightarrow> bytes" where
  "zsetItem c x = stringBytes c (zMember x) @ le_bytes 8 (unat (zScore x))"

definition zsetPayload :: "(float64 \<Rightarrow> bytes) \<Rightarrow> encoder \<Rightarrow> zset_entry list \<Rightarrow> bytes" where
  "zsetPayload ff e entries =
     (if zsetFits (zsetZipListOpt e) entries then nanBytes (compress e) (zipRaw (zsetElements ff entries))
      else lengthBytes (of_nat (length entries)) @ concat (map (zsetItem (compress e)) entries))"

definition writeZSetBody :: "(float64 \<Rightarrow> bytes) \<Rightarrow> bytes \<Rightarrow> zset_entry list \<Rightarrow> (encoder, unit) gom" where
  "writeZSetBody ff key entries =
     bnd (tryWriteZipListZSet ff key entries) (\<lambda>ok. if \<not> ok then writeZSet2Encoding key entries else ret ())"

lemma writeZSetBody_emits:
  assumes "ready e" "string_ok (compress e) key" "zset_ok pf ff e entries"
  shows "writeZSetBody ff key entries e =
    (Inr (), emit (zsetType e entries # stringBytes (compress e) key @ zsetPayload ff e entries) e)"
proof (cases "zsetFits (zsetZipListOpt e) entries")
  case True
  then have "ewrites (compress e) (bnd (enc_write [typeZsetZipList]) (\<lambda>_. bnd (writeString key) (\<lambda>_.
      bnd (writeZipList (zsetElements ff entries)) (\<lambda>_. ret True))))
      ([typeZsetZipList] @ stringBytes (compress e) key @ zsetPayload ff e entries) True"
    using assms by (intro sink.writes_seq sink.writes_last enc_write_writes writeString_writes)
      (auto simp: zset_ok_def zsetPayload_def intro: zl_writes)
  from sink.writes_apply [OF this] True assms(1)
  have "tryWriteZipListZSet ff key entries e = (Inr True, emit (typeZsetZipList #
      stringBytes (compress e) key @ zsetPayload ff e entries) e)"
    by (simp add: tryWriteZipListZSet_def)
  with True show ?thesis by (simp add: writeZSetBody_def bnd_def ret_def zsetType_def)
next
  case False
  have "ewrites (compress e) (bnd (writeString (zMember x)) (\<lambda>_. writeFloat64 (zScore x)))
      (zsetItem (compress e) x) ()" if "x \<in> set entries" for x
    unfolding zsetItem_def using assms(3) False that
    by (intro sink.writes_seq writeString_writes writeFloat64_writes) (auto simp: zset_ok_def list_all_iff)
  then have "ewrites (compress e) (writeZSet2Encoding key entries)
      ([typeZset2] @ stringBytes (compress e) key @ lengthBytes (of_nat (length entries)) @
       concat (map (zsetItem (compress e)) entries)) ()"
    unfolding writeZSet2Encoding_def using assms(2)
    by (intro sink.writes_seq enc_write_writes writeString_writes writeLength_writes sink.writes_forEach)
  from sink.writes_apply [OF this] False assms(1)
  have "writeZSet2Encoding key entries e = (Inr (), emit (typeZset2 # stringBytes (compress e) key @
      zsetPayload ff e entries) e)" by (simp add: zsetPayload_def)
  moreover have "tryWriteZipListZSet ff key entries e = (Inr False, e)"
    using False by (simp add: tryWriteZipListZSet_def ret_def)
  ultimately show ?thesis using False by (simp add: writeZSetBody_def bnd_def zsetType_def)
qed

lemma zset2Item_parses:
  assumes "string_ok c (zMember x)"
  shows "dparses (bnd readString (\<lambda>member. bnd (if True then readFloat else readLiteralFloat pf) (\<lambda>score.
      ret \<lparr>zMember = member, zScore = score\<rparr>))) (zsetItem c x) x"
  unfolding zsetItem_def
  by (rule src.parses_bnd [OF readString_parses [OF assms]])
    (use src.parses_bnd_ret [OF readFloat_parses, of x "\<lambda>s. \<lparr>zMember = zMember x, zScore = s\<rparr>" "zScore x"] in simp)

lemma readScored_parses:
  assumes "bparses buf entry b1 (zMember x)" "bparses buf entry b2 (ff (zScore x))"
    and "pf (ff (zScore x)) = Some (zScore x)"
  shows "bparses buf (readScored pf entry) (b1 @ b2) x"
proof -
  have x: "\<lparr>zMember = zMember x, zScore = zScore x\<rparr> = x" by (cases x) simp
  have "bparses buf (readScored pf entry) (b1 @ b2 @ []) x"
    unfolding readScored_def
    by (rule buf.parses_bnd [OF assms(1)], rule buf.parses_bnd [OF assms(2)])
      (simp add: assms(3) x buf.parses_ret)
  then show ?thesis by simp
qed

lemma zsetElements_eq: "zsetElements ff entries = concat (map (\<lambda>x. [zMember x, ff (zScore x)]) entries)"
  by (simp add: zsetElements_def)

lemma zsetPayload_parses:
  assumes "zset_ok pf ff e entries"
  shows "zsetFits (zsetZipListOpt e) entries \<Longrightarrow>
      \<exists>n. dparses (readZipListZSet pf) (zsetPayload ff e entries) (entries, ZiplistDetail n)"
    and "\<not> zsetFits (zsetZipListOpt e) entries \<Longrightarrow>
      dparses (readZSet pf True) (zsetPayload ff e entries) entries"
proof -
  show "\<exists>n. dparses (readZipListZSet pf) (zsetPayload ff e entries) (entries, ZiplistDetail n)"
    if fits: "zsetFits (zsetZipListOpt e) entries"
  proof -
    let ?els = "zsetElements ff entries"
    have ok: "ziplist_ok ?els" "string_ok (compress e) (zipRaw ?els)"
      and inv: "list_all (\<lambda>x. pf (ff (zScore x)) = Some (zScore x)) entries"
      using assms fits by (simp_all add: zset_ok_def zl_ok_def)
    have raw: "zipListBytes ?els = Inr (zipRaw ?els)" by (rule zipRaw_eq [OF ok(1)])
    have "onBuf (bnd (readZipListLength (zipRaw ?els)) (\<lambda>size. readN ((size + 1) div 2)
        (readScored pf (readZipListEntry (zipRaw ?els))))) s = (Inr (map (\<lambda>x. x) entries), s)" for s :: dstate
      using ok(1) raw inv unfolding zsetElements_eq
      by (intro zipList_pairs readScored_parses) (auto simp: list_all_iff)
    then have "dparses (bnd (onBuf (bnd (readZipListLength (zipRaw ?els)) (\<lambda>size. readN ((size + 1) div 2)
        (readScored pf (readZipListEntry (zipRaw ?els)))))) (\<lambda>entries. ret (entries, ZiplistDetail (length (zipRaw ?els)))))
        [] (entries, ZiplistDetail (length (zipRaw ?els)))"
      by (intro src.parses_bnd_ret [OF src.parses_pure [of _ entries]]) simp_all
    then have "dparses (readZipListZSet pf) (nanBytes (compress e) (zipRaw ?els) @ []) (entries, ZiplistDetail (length (zipRaw ?els)))"
      unfolding readZipListZSet_def by (intro src.parses_bnd [OF readString_nan [OF ok(2)]])
    with fits show ?thesis by (auto simp: zsetPayload_def)
  qed
  show "dparses (readZSet pf True) (zsetPayload ff e entries) entries"
    if fits: "\<not> zsetFits (zsetZipListOpt e) entries"
  proof -
    let ?m = "bnd readString (\<lambda>member. bnd (if True then readFloat else readLiteralFloat pf) (\<lambda>score.
      ret \<lparr>zMember = member, zScore = score\<rparr>))"
    have n: "int (length entries) \<le> maxAlloc" "int (length entries) * 8 \<le> maxAlloc"
      using assms by (simp_all add: zset_ok_def)
    have "list_all2 (\<lambda>bs x. dparses ?m bs x) (map (zsetItem (compress e)) entries) (map (\<lambda>x. x) entries)"
      unfolding list.rel_map list_all2_same using assms fits zset2Item_parses
      by (auto simp: zset_ok_def list_all_iff)
    from src.parses_readN [OF this]
    have "dparses (readN (length entries) ?m) (concat (map (zsetItem (compress e)) entries)) entries" by simp
    from makeslice_then [OF _ n(2) this]
    have "dparses (readZSet pf True) (lengthBytes (of_nat (length entries)) @ concat (map (zsetItem (compress e)) entries)) entries"
      unfolding readZSet_def
      by (intro counted_parses [OF n(1)]) (simp add: sint_of_length [OF n(1)] unat_of_length [OF n(1)])
    with fits show ?thesis by (simp add: zsetPayload_def)
  qed
qed

subsection \<open>Movement\<close>

lemma readSet_advances: "dadvances readSet"
  unfolding readSet_def by (intro string_advances)

lemma readIntSet_advances: "dadvances readIntSet"
  unfolding readIntSet_def by (intro string_advances)

lemma readListPackSet_advances: "dadvances readListPackSet"
  unfolding readListPackSet_def by (intro string_advances)

lemma readZSet_advances: "dadvances (readZSet pf b)"
  unfolding readZSet_def by (intro string_advances)

lemma readZipListZSet_advances: "dadvances (readZipListZSet pf)"
  unfolding readZipListZSet_def by (intro string_advances)

lemma readListPackZSet_advances: "dadvances (readListPackZSet pf)"
  unfolding readListPackZSet_def by (intro string_advances)

lemmas set_advances =
  readSet_advances readIntSet_advances readListPackSet_advances readZSet_advances
  readZipListZSet_advances readListPackZSet_advances

end
