(* ===== verification/Hashes.thy ===== *)
theory Hashes
  imports Sets
begin

unbundle bit_operations_syntax

section \<open>Hashes (core/hash.go)\<close>

text \<open>
  The readers of the plain, zipmap, ziplist and listpack encodings of a hash and of their
  variants with field expirations (Redis 7.4 relative and absolute, Valkey absolute), and
  the three writers.  A Go map is the association list of its entries in iteration order,
  with distinct keys; a reader inserts the pairs one by one (\<open>mapOf\<close>), so that a repeated
  field keeps its place and takes the last value.  For a writer the list is the order in
  which the writing loop happens to visit the map.
\<close>

definition mapOf :: "('k \<times> 'v) list \<Rightarrow> ('k \<times> 'v) list" where
  "mapOf ps = fold (\<lambda>(k, v). AList.update k v) ps []"

definition EB_EXPIRE_TIME_MAX :: int where "EB_EXPIRE_TIME_MAX = 0x0000FFFFFFFFFFFF"
definition EB_EXPIRE_TIME_INVALID :: int where "EB_EXPIRE_TIME_INVALID = EB_EXPIRE_TIME_MAX + 1"

type_synonym hash = "(bytes \<times> bytes) list"
type_synonym expirations = "(bytes \<times> int) list"

subsection \<open>Readers\<close>

definition readField :: "(dstate, bytes \<times> bytes) gom" where
  "readField = bnd readString (\<lambda>field. bnd readString (\<lambda>val. ret (field, val)))"

definition readHashMap :: "(dstate, hash) gom" where
  "readHashMap =
     bnd readLength (\<lambda>(size, _).
     bnd (readN (nat (sint size)) readField) (\<lambda>ps. ret (mapOf ps)))"

text \<open>A field with its expiration; the three components of a list of them.\<close>

type_synonym hfield = "bytes \<times> bytes \<times> int"

definition fieldsOf :: "hfield list \<Rightarrow> hash" where
  "fieldsOf fs = mapOf (map (\<lambda>(f, v, x). (f, v)) fs)"

definition expiresOf :: "hfield list \<Rightarrow> expirations" where
  "expiresOf fs = mapOf (map (\<lambda>(f, v, x). (f, x)) fs)"

definition fieldExpire :: "bool \<Rightarrow> int \<Rightarrow> u64 \<Rightarrow> int" where
  "fieldExpire rc minExpire ttl =
     (if rc then sint ttl
      else if ttl = 0 then 0
      else sint (ttl + of_int minExpire - 1))"

definition readFieldEx :: "bool \<Rightarrow> int \<Rightarrow> (dstate, hfield) gom" where
  "readFieldEx rc minExpire =
     bnd readLength (\<lambda>(ttl, _).
       let expire = fieldExpire rc minExpire ttl
       in if EB_EXPIRE_TIME_MAX < expire then fail (MsgArgs ''invalid expireAt time'' [expire])
          else bnd readString (\<lambda>field. bnd readString (\<lambda>val. ret (field, val, expire))))"

definition readMinExpire :: "bool \<Rightarrow> (dstate, int) gom" where
  "readMinExpire rc =
     (if rc then ret EB_EXPIRE_TIME_INVALID
      else bnd readInt64 (\<lambda>m.
        if EB_EXPIRE_TIME_INVALID < m then fail (MsgArgs ''hash read invalid minExpire value'' [m])
        else ret m))"

definition readHashMapEx :: "bool \<Rightarrow> (dstate, hash \<times> expirations) gom" where
  "readHashMapEx rc =
     bnd (readMinExpire rc) (\<lambda>minExpire.
     bnd readLength (\<lambda>(size, _).
       if size = 0 then fail (Msg ''hash read empty key'')
       else bnd (readN (nat (sint size)) (readFieldEx rc minExpire)) (\<lambda>fs.
         ret (fieldsOf fs, expiresOf fs))))"

definition readFieldValkey :: "(dstate, hfield) gom" where
  "readFieldValkey =
     bnd readString (\<lambda>field.
     bnd readString (\<lambda>val.
     bnd readInt64 (\<lambda>expire. ret (field, val, if expire < 0 then 0 else expire))))"

definition readHashMapExValkey :: "(dstate, hash \<times> expirations) gom" where
  "readHashMapExValkey =
     bnd readLength (\<lambda>(size, _).
       if size = 0 then fail (Msg ''hash read empty key'')
       else bnd (readN (nat (sint size)) readFieldValkey) (\<lambda>fs. ret (fieldsOf fs, expiresOf fs)))"

text \<open>
  Zipmaps.  The length of an item is \<open>None\<close> for the end marker 255, otherwise the length
  and the number of free bytes behind the item.
\<close>

definition readZipMapEntryLen :: "bytes \<Rightarrow> bool \<Rightarrow> (nat, (nat \<times> nat) option) gom" where
  "readZipMapEntryLen buf readFree =
     bnd (buf_readByte buf) (\<lambda>b.
       if b = 253 then
         bnd (buf_readBytes buf 5) (\<lambda>bs. ret (Some (be_val (take 4 bs), unat (bs ! 4))))
       else if b = 254 then fail (Msg ''illegal zip map item length'')
       else if b = 255 then ret None
       else if readFree then bnd (buf_readByte buf) (\<lambda>free. ret (Some (unat b, unat free)))
       else ret (Some (unat b, 0)))"

definition readZipMapEntry :: "bytes \<Rightarrow> bool \<Rightarrow> (nat, bytes) gom" where
  "readZipMapEntry buf readFree =
     bnd (readZipMapEntryLen buf readFree) (\<lambda>r. case r of
       None \<Rightarrow> ret []
     | Some (len, free) \<Rightarrow>
         bnd (buf_readBytes buf len) (\<lambda>val. bnd (buf_skip free) (\<lambda>_. ret val)))"

lemma readZipMapEntryLen_forward:
  "readZipMapEntryLen buf b c = (Inr x, c') \<Longrightarrow> c < c' \<and> c < length buf"
  by (auto simp: readZipMapEntryLen_def bnd_eq_Inr_iff buf_readByte_def buf_readBytes_def ret_def fail_def
      split: if_splits)

function countZipMapEntries :: "bytes \<Rightarrow> nat \<Rightarrow> (nat, nat) gom" where
  "countZipMapEntries buf n cursor =
     (case readZipMapEntryLen buf (n mod 2 \<noteq> 0) cursor of
        (Inl e, c) \<Rightarrow> (Inl e, c)
      | (Inr None, c) \<Rightarrow> (Inr n, 0)
      | (Inr (Some (len, free)), c) \<Rightarrow> countZipMapEntries buf (n + 1) (c + len + free))"
  by pat_completeness auto
termination
  by (relation "measure (\<lambda>(buf, n, cursor). length buf - cursor)")
    (auto dest!: sym [of "(Inr _, _)"] readZipMapEntryLen_forward)

declare countZipMapEntries.simps [simp del]

definition readZipMapBuf :: "bytes \<Rightarrow> (nat, hash) gom" where
  "readZipMapBuf buf =
     bnd (buf_readByte buf) (\<lambda>bLen.
     bnd (if 254 < unat bLen
          then (\<lambda>cursor0. case countZipMapEntries buf 0 cursor0 of
                  (Inl e, c) \<Rightarrow> (Inl e, c)
                | (Inr n, c) \<Rightarrow> (Inr (n div 2), cursor0))
          else ret (unat bLen)) (\<lambda>len.
     bnd (readN len
           (bnd (readZipMapEntry buf False) (\<lambda>field.
            bnd (readZipMapEntry buf True) (\<lambda>val. ret (field, val))))) (\<lambda>ps.
     ret (mapOf ps))))"

definition readZipMapHash :: "(dstate, hash) gom" where
  "readZipMapHash = bnd readString (\<lambda>buf. onBuf (readZipMapBuf buf))"

definition readPair :: "(nat, bytes) gom \<Rightarrow> (nat, bytes \<times> bytes) gom" where
  "readPair entry = bnd entry (\<lambda>key. bnd entry (\<lambda>val. ret (key, val)))"

definition readZipListHash :: "(dstate, hash \<times> detail) gom" where
  "readZipListHash =
     bnd readString (\<lambda>buf.
     bnd (onBuf (bnd (readZipListLength buf) (\<lambda>size.
       readN ((size + 1) div 2) (readPair (readZipListEntry buf))))) (\<lambda>ps.
     ret (mapOf ps, ZiplistDetail (length buf))))"

definition readListPackHash :: "(dstate, hash \<times> detail) gom" where
  "readListPackHash =
     bnd readString (\<lambda>buf.
     bnd (onBuf (bnd (readListPackLength buf) (\<lambda>size.
       readN ((size + 1) div 2) (readPair (readListPackEntryAsString buf))))) (\<lambda>ps.
     ret (mapOf ps, ListpackDetail (length buf))))"

definition readListPackHashEx :: "bool \<Rightarrow> (dstate, hash \<times> expirations \<times> detail) gom" where
  "readListPackHashEx rc =
     bnd (if rc then ret () else bnd readInt64 (\<lambda>_. ret ())) (\<lambda>_.
     bnd readString (\<lambda>buf.
     bnd (onBuf (bnd (readListPackLength buf) (\<lambda>size.
       if size = 0 then fail (Msg ''hash listpack read empty key'')
       else if size mod 3 \<noteq> 0 then fail (MsgArgs ''hash listpack read invalid size'' [int size])
       else readN (size div 3)
         (bnd (readListPackEntryAsString buf) (\<lambda>key.
          bnd (readListPackEntryAsString buf) (\<lambda>val.
          bnd (readListPackEntryAsInt buf) (\<lambda>expire. ret (key, val, expire)))))))) (\<lambda>fs.
     ret (fieldsOf fs, expiresOf fs, ListpackDetail (length buf)))))"

subsection \<open>Writers\<close>

definition hashFits :: "zipListOpt option \<Rightarrow> hash \<Rightarrow> bool" where
  "hashFits zop h \<longleftrightarrow> int (length h) \<le> getMaxEntries zop \<and>
     list_all (\<lambda>(k, v). int (length v) \<le> getMaxValue zop) h"

definition tryWriteZipListHashMap :: "bytes \<Rightarrow> hash \<Rightarrow> (encoder, bool) gom" where
  "tryWriteZipListHashMap key h =
     bnd (getEnc (\<lambda>e. hashFits (hashZipListOpt e) h)) (\<lambda>fits.
       if \<not> fits then ret False
       else bnd (enc_write [typeHashZipList]) (\<lambda>_.
            bnd (writeString key) (\<lambda>_.
            bnd (writeZipList (concat (map (\<lambda>p. [fst p, snd p]) h))) (\<lambda>_. ret True))))"

definition writeHashEncoding :: "bytes \<Rightarrow> hash \<Rightarrow> (encoder, unit) gom" where
  "writeHashEncoding key h =
     bnd (enc_write [typeHash]) (\<lambda>_.
     bnd (writeString key) (\<lambda>_.
     bnd (writeLength (of_nat (length h))) (\<lambda>_.
     forEach (\<lambda>(field, val). bnd (writeString field) (\<lambda>_. writeString val)) h)))"

definition expireOf :: "expirations \<Rightarrow> bytes \<Rightarrow> int" where
  "expireOf expire field = (case map_of expire field of None \<Rightarrow> 0 | Some x \<Rightarrow> x)"

definition minExpireOf :: "expirations \<Rightarrow> int" where
  "minExpireOf expire =
     (let m = foldl (\<lambda>m x. if 0 < x \<and> x < m then x else m) EB_EXPIRE_TIME_INVALID (map snd expire)
      in if m = EB_EXPIRE_TIME_INVALID then 0 else m)"

definition fieldTtl :: "int \<Rightarrow> int \<Rightarrow> u64" where
  "fieldTtl minExpire x = (if x = 0 then 0 else of_int (x - minExpire + 1))"

definition writeHashEncodingEx :: "bytes \<Rightarrow> hash \<Rightarrow> expirations \<Rightarrow> (encoder, unit) gom" where
  "writeHashEncodingEx key h expire =
     (let minExpire = minExpireOf expire in
      bnd (enc_write [typeHashWithHfe]) (\<lambda>_.
      bnd (writeString key) (\<lambda>_.
      bnd (enc_write (le_bytes 8 (unat (of_int minExpire :: u64)))) (\<lambda>_.
      bnd (writeLength (of_nat (length h))) (\<lambda>_.
      forEach (\<lambda>(field, val).
        bnd (writeLength (fieldTtl minExpire (expireOf expire field))) (\<lambda>_.
        bnd (writeString field) (\<lambda>_. writeString val))) h)))))"

definition ttlBytes :: "int \<Rightarrow> bytes" where
  "ttlBytes x = le_bytes 8 (unat (if x = 0 then - 1 else of_int x :: u64))"

definition writeHash2Encoding :: "bytes \<Rightarrow> hash \<Rightarrow> expirations \<Rightarrow> (encoder, unit) gom" where
  "writeHash2Encoding key h expire =
     bnd (enc_write [typeHash2]) (\<lambda>_.
     bnd (writeString key) (\<lambda>_.
     bnd (writeLength (of_nat (length h))) (\<lambda>_.
     forEach (\<lambda>(field, val).
       bnd (writeString field) (\<lambda>_.
       bnd (writeString val) (\<lambda>_.
       enc_write (ttlBytes (expireOf expire field))))) h)))"

subsection \<open>Maps\<close>

lemma fold_update_distinct:
  "distinct (map fst (qs @ ps)) \<Longrightarrow> fold (\<lambda>(k, v). AList.update k v) ps qs = qs @ ps"
proof (induction ps arbitrary: qs)
  case (Cons p ps)
  have "AList.update k v qs = qs @ [(k, v)]" if "k \<notin> fst ` set qs" for k v
    using that by (induction qs) auto
  with Cons.prems have "AList.update (fst p) (snd p) qs = qs @ [p]" by simp
  moreover have "distinct (map fst ((qs @ [p]) @ ps))" using Cons.prems by simp
  ultimately show ?case using Cons.IH [of "qs @ [p]"] by (simp add: case_prod_beta)
qed simp

lemma mapOf_distinct: "distinct (map fst ps) \<Longrightarrow> mapOf ps = ps"
  using fold_update_distinct [of "[]" ps] by (simp add: mapOf_def)

lemma distinct_mapOf: "distinct (map fst (mapOf ps))"
proof -
  have "distinct (map fst m) \<Longrightarrow> distinct (map fst (fold (\<lambda>(k, v). AList.update k v) ps m))" for m
    by (induction ps arbitrary: m) (auto simp: distinct_update)
  then show ?thesis by (simp add: mapOf_def)
qed

lemma map_of_mapOf: "map_of (mapOf ps) = map_of (rev ps)"
proof -
  have "map_of (fold (\<lambda>(k, v). AList.update k v) ps m) = map_of m ++ map_of (rev ps)" for m
    by (induction ps arbitrary: m) (auto simp: update_conv' fun_eq_iff map_add_def split: option.splits)
  then show ?thesis by (simp add: mapOf_def)
qed

subsection \<open>Round trip of hashes without expirations\<close>

definition hash_ok :: "encoder \<Rightarrow> hash \<Rightarrow> bool" where
  "hash_ok e h \<longleftrightarrow> distinct (map fst h) \<and> int (length h) \<le> maxAlloc \<and>
     (if hashFits (hashZipListOpt e) h then zl_ok (compress e) (concat (map (\<lambda>p. [fst p, snd p]) h))
      else list_all (\<lambda>p. string_ok (compress e) (fst p) \<and> string_ok (compress e) (snd p)) h)"

definition hashType :: "encoder \<Rightarrow> hash \<Rightarrow> byte" where
  "hashType e h = (if hashFits (hashZipListOpt e) h then typeHashZipList else typeHash)"

definition fieldBytes :: "bool \<Rightarrow> bytes \<times> bytes \<Rightarrow> bytes" where
  "fieldBytes c p = stringBytes c (fst p) @ stringBytes c (snd p)"

definition hashPayload :: "encoder \<Rightarrow> hash \<Rightarrow> bytes" where
  "hashPayload e h =
     (if hashFits (hashZipListOpt e) h
      then nanBytes (compress e) (zipRaw (concat (map (\<lambda>p. [fst p, snd p]) h)))
      else lengthBytes (of_nat (length h)) @ concat (map (fieldBytes (compress e)) h))"

definition writeHashBody :: "bytes \<Rightarrow> hash \<Rightarrow> (encoder, unit) gom" where
  "writeHashBody key h =
     bnd (tryWriteZipListHashMap key h) (\<lambda>ok. if \<not> ok then writeHashEncoding key h else ret ())"

lemma writeHashBody_emits:
  assumes "ready e" "string_ok (compress e) key" "hash_ok e h"
  shows "writeHashBody key h e =
    (Inr (), emit (hashType e h # stringBytes (compress e) key @ hashPayload e h) e)"
proof (cases "hashFits (hashZipListOpt e) h")
  case True
  then have "ewrites (compress e) (bnd (enc_write [typeHashZipList]) (\<lambda>_. bnd (writeString key) (\<lambda>_.
      bnd (writeZipList (concat (map (\<lambda>p. [fst p, snd p]) h))) (\<lambda>_. ret True))))
      ([typeHashZipList] @ stringBytes (compress e) key @ hashPayload e h) True"
    using assms by (intro sink.writes_seq sink.writes_last enc_write_writes writeString_writes)
      (auto simp: hash_ok_def hashPayload_def intro: zl_writes)
  from sink.writes_apply [OF this] True assms(1)
  have "tryWriteZipListHashMap key h e = (Inr True, emit (typeHashZipList #
      stringBytes (compress e) key @ hashPayload e h) e)"
    by (simp add: tryWriteZipListHashMap_def)
  with True show ?thesis by (simp add: writeHashBody_def bnd_def ret_def hashType_def)
next
  case False
  have "ewrites (compress e) (case p of (field, val) \<Rightarrow> bnd (writeString field) (\<lambda>_. writeString val))
      (fieldBytes (compress e) p) ()" if "p \<in> set h" for p
    unfolding fieldBytes_def case_prod_beta using assms(3) False that
    by (intro sink.writes_seq writeString_writes) (auto simp: hash_ok_def list_all_iff)
  then have "ewrites (compress e) (writeHashEncoding key h)
      ([typeHash] @ stringBytes (compress e) key @ lengthBytes (of_nat (length h)) @
       concat (map (fieldBytes (compress e)) h)) ()"
    unfolding writeHashEncoding_def using assms(2)
    by (intro sink.writes_seq enc_write_writes writeString_writes writeLength_writes sink.writes_forEach)
  from sink.writes_apply [OF this] False assms(1)
  have "writeHashEncoding key h e = (Inr (), emit (typeHash # stringBytes (compress e) key @
      hashPayload e h) e)" by (simp add: hashPayload_def)
  moreover have "tryWriteZipListHashMap key h e = (Inr False, e)"
    using False by (simp add: tryWriteZipListHashMap_def ret_def)
  ultimately show ?thesis using False by (simp add: writeHashBody_def bnd_def hashType_def)
qed

lemma readField_parses:
  assumes "string_ok c (fst p)" "string_ok c (snd p)"
  shows "dparses readField (fieldBytes c p) p"
proof -
  have "dparses (bnd readString (\<lambda>v. ret (fst p, v))) (stringBytes c (snd p)) p"
    by (rule src.parses_bnd_ret [OF readString_parses [OF assms(2)]]) simp
  then show ?thesis
    unfolding readField_def fieldBytes_def by (rule src.parses_bnd [OF readString_parses [OF assms(1)]])
qed

text \<open>A counted sequence of fields, for the three readers that are built like this.\<close>

lemma fields_parses:
  assumes "int (length xs) \<le> maxAlloc" "\<And>x. x \<in> set xs \<Longrightarrow> dparses m (enc x) x" "y = g xs"
  shows "dparses (bnd readLength (\<lambda>(size, _). bnd (readN (nat (sint size)) m) (\<lambda>fs. ret (g fs))))
    (lengthBytes (of_nat (length xs)) @ concat (map enc xs)) y"
proof (rule counted_parses [OF assms(1)])
  have "list_all2 (\<lambda>bs x. dparses m bs x) (map enc xs) (map (\<lambda>x. x) xs)"
    unfolding list.rel_map list_all2_same using assms(2) by blast
  from src.parses_readN [OF this]
  have "dparses (readN (length xs) m) (concat (map enc xs)) xs" by simp
  then show "dparses (case (of_nat (length xs), False) of (n, _) \<Rightarrow>
      bnd (readN (nat (sint (n :: u64))) m) (\<lambda>fs. ret (g fs))) (concat (map enc xs)) y"
    using src.parses_bnd_ret [of _ _ _ y g] assms(3) by (simp add: nat_sint_of_length [OF assms(1)])
qed

lemma hashPayload_parses:
  assumes "hash_ok e h"
  shows "hashFits (hashZipListOpt e) h \<Longrightarrow> \<exists>n. dparses readZipListHash (hashPayload e h) (h, ZiplistDetail n)"
    and "\<not> hashFits (hashZipListOpt e) h \<Longrightarrow> dparses readHashMap (hashPayload e h) h"
proof -
  show "\<exists>n. dparses readZipListHash (hashPayload e h) (h, ZiplistDetail n)"
    if fits: "hashFits (hashZipListOpt e) h"
  proof -
    let ?els = "concat (map (\<lambda>p. [fst p, snd p]) h)"
    have ok: "ziplist_ok ?els" "string_ok (compress e) (zipRaw ?els)" "mapOf h = h"
      using assms fits by (simp_all add: hash_ok_def zl_ok_def mapOf_distinct)
    have "onBuf (bnd (readZipListLength (zipRaw ?els)) (\<lambda>size. readN ((size + 1) div 2)
        (readPair (readZipListEntry (zipRaw ?els))))) s = (Inr (map (\<lambda>x. x) h), s)" for s :: dstate
    proof (rule zipList_pairs [OF ok(1) zipRaw_eq [OF ok(1)]])
      fix x :: "bytes \<times> bytes" and b1 b2
      assume b: "bparses (zipRaw ?els) (readZipListEntry (zipRaw ?els)) b1 (fst x)"
        "bparses (zipRaw ?els) (readZipListEntry (zipRaw ?els)) b2 (snd x)"
      show "bparses (zipRaw ?els) (readPair (readZipListEntry (zipRaw ?els))) (b1 @ b2) x"
        unfolding readPair_def
        by (rule buf.parses_bnd [OF b(1)]) (rule buf.parses_bnd_ret [OF b(2)], simp)
    qed
    then have "dparses (bnd (onBuf (bnd (readZipListLength (zipRaw ?els)) (\<lambda>size. readN ((size + 1) div 2)
        (readPair (readZipListEntry (zipRaw ?els)))))) (\<lambda>ps. ret (mapOf ps, ZiplistDetail (length (zipRaw ?els)))))
        [] (h, ZiplistDetail (length (zipRaw ?els)))"
      using ok(3) by (intro src.parses_bnd_ret [OF src.parses_pure [of _ h]]) simp_all
    then have "dparses readZipListHash (nanBytes (compress e) (zipRaw ?els) @ []) (h, ZiplistDetail (length (zipRaw ?els)))"
      unfolding readZipListHash_def by (intro src.parses_bnd [OF readString_nan [OF ok(2)]])
    with fits show ?thesis by (auto simp: hashPayload_def)
  qed
  show "dparses readHashMap (hashPayload e h) h" if fits: "\<not> hashFits (hashZipListOpt e) h"
    using assms fits unfolding readHashMap_def hashPayload_def if_not_P [OF fits]
    by (intro fields_parses readField_parses) (auto simp: hash_ok_def list_all_iff mapOf_distinct)
qed

subsection \<open>Round trip of hashes with expirations\<close>

definition withExpire :: "expirations \<Rightarrow> hash \<Rightarrow> hfield list" where
  "withExpire expire h = map (\<lambda>(f, v). (f, v, expireOf expire f)) h"

definition hashEx_ok :: "bool \<Rightarrow> hash \<Rightarrow> expirations \<Rightarrow> bool" where
  "hashEx_ok c h expire \<longleftrightarrow> distinct (map fst h) \<and> h \<noteq> [] \<and> int (length h) \<le> maxAlloc \<and>
     list_all (\<lambda>p. string_ok c (fst p) \<and> string_ok c (snd p)) h \<and>
     (\<forall>x \<in> snd ` set expire. 0 \<le> x \<and> x \<le> EB_EXPIRE_TIME_MAX)"

lemma minExpire_le:
  "(\<forall>x \<in> set xs. 0 < x \<longrightarrow> foldl (\<lambda>m x. if 0 < x \<and> x < m then x else m) a xs \<le> x) \<and>
   foldl (\<lambda>m x. if 0 < x \<and> x < m then x else m) (a :: int) xs \<le> a"
proof (induction xs arbitrary: a)
  case (Cons x xs)
  from Cons [of "if 0 < x \<and> x < a then x else a"] show ?case by (auto split: if_splits)
qed simp

lemma minExpire_pos:
  "0 < (a :: int) \<Longrightarrow> 0 < foldl (\<lambda>m x. if 0 < x \<and> x < m then x else m) a xs"
  by (induction xs arbitrary: a) auto

lemma minExpireOf_bounds:
  "0 \<le> minExpireOf expire \<and> minExpireOf expire \<le> EB_EXPIRE_TIME_MAX"
  using minExpire_le [of "map snd expire" EB_EXPIRE_TIME_INVALID]
    minExpire_pos [of EB_EXPIRE_TIME_INVALID "map snd expire"]
  by (auto simp: minExpireOf_def Let_def EB_EXPIRE_TIME_INVALID_def EB_EXPIRE_TIME_MAX_def)

lemma minExpireOf_le:
  assumes "x \<in> snd ` set expire" "0 < x" "x \<le> EB_EXPIRE_TIME_MAX"
  shows "0 < minExpireOf expire \<and> minExpireOf expire \<le> x"
  using minExpire_le [of "map snd expire" EB_EXPIRE_TIME_INVALID]
    minExpire_pos [of EB_EXPIRE_TIME_INVALID "map snd expire"] assms
  by (auto simp: minExpireOf_def Let_def EB_EXPIRE_TIME_INVALID_def EB_EXPIRE_TIME_MAX_def)

lemma expireOf_cases: "expireOf expire f = 0 \<or> expireOf expire f \<in> snd ` set expire"
  by (force simp: expireOf_def split: option.split dest: map_of_SomeD)

lemma fieldExpire_ttl:
  assumes "0 \<le> m" "m \<le> x \<or> x = 0" "0 \<le> x" "x \<le> EB_EXPIRE_TIME_MAX"
  shows "fieldExpire False m (fieldTtl m x) = x"
proof (cases "x = 0")
  case False
  let ?d = "x - m + 1"
  have d: "0 < ?d" "?d < 2 ^ 63" using assms False by (auto simp: EB_EXPIRE_TIME_MAX_def)
  then have "uint (of_int ?d :: u64) = ?d" by (subst uint_word_of_int) (auto intro!: mod_pos_pos_trivial)
  with d have "of_int ?d \<noteq> (0 :: u64)" by (metis uint_0_eq less_irrefl)
  moreover have "of_int ?d + of_int m - 1 = (of_int x :: u64)" by simp
  moreover have "sint (of_int x :: u64) = x"
    using assms by (intro sint_of_int) (auto simp: EB_EXPIRE_TIME_MAX_def)
  ultimately show ?thesis using False by (simp add: fieldExpire_def fieldTtl_def)
qed (simp add: fieldExpire_def fieldTtl_def)

lemma fieldsOf_withExpire: "distinct (map fst h) \<Longrightarrow> fieldsOf (withExpire expire h) = h"
proof -
  assume d: "distinct (map fst h)"
  have "map (\<lambda>(f, v, x). (f, v)) (withExpire expire h) = h"
    by (simp add: withExpire_def case_prod_beta comp_def)
  with d show ?thesis by (simp add: fieldsOf_def mapOf_distinct)
qed

lemma expiresOf_withExpire:
  "distinct (map fst h) \<Longrightarrow> expiresOf (withExpire expire h) = map (\<lambda>(f, v). (f, expireOf expire f)) h"
proof -
  assume d: "distinct (map fst h)"
  have m: "map (\<lambda>(f, v, x). (f, x)) (withExpire expire h) = map (\<lambda>(f, v). (f, expireOf expire f)) h"
    by (simp add: withExpire_def case_prod_beta)
  have "map fst (map (\<lambda>(f, v). (f, expireOf expire f)) h) = map fst h" by (simp add: case_prod_beta)
  with d m show ?thesis by (simp only: expiresOf_def mapOf_distinct)
qed

definition hexBytes :: "bool \<Rightarrow> int \<Rightarrow> hfield \<Rightarrow> bytes" where
  "hexBytes c m fx = (case fx of (f, v, x) \<Rightarrow> lengthBytes (fieldTtl m x) @ stringBytes c f @ stringBytes c v)"

definition valkeyBytes :: "bool \<Rightarrow> hfield \<Rightarrow> bytes" where
  "valkeyBytes c fx = (case fx of (f, v, x) \<Rightarrow> stringBytes c f @ stringBytes c v @ ttlBytes x)"

definition hashExPayload :: "bool \<Rightarrow> hash \<Rightarrow> expirations \<Rightarrow> bytes" where
  "hashExPayload c h expire =
     le_bytes 8 (unat (of_int (minExpireOf expire) :: u64)) @ lengthBytes (of_nat (length h)) @
     concat (map (hexBytes c (minExpireOf expire)) (withExpire expire h))"

definition hash2Payload :: "bool \<Rightarrow> hash \<Rightarrow> expirations \<Rightarrow> bytes" where
  "hash2Payload c h expire =
     lengthBytes (of_nat (length h)) @ concat (map (valkeyBytes c) (withExpire expire h))"

lemma writeHashEncodingEx_emits:
  assumes "string_ok c key" "hashEx_ok c h expire"
  shows "ewrites c (writeHashEncodingEx key h expire)
    (typeHashWithHfe # stringBytes c key @ hashExPayload c h expire) ()"
proof -
  let ?m = "minExpireOf expire"
  have "ewrites c (case p of (field, val) \<Rightarrow> bnd (writeLength (fieldTtl ?m (expireOf expire field))) (\<lambda>_.
        bnd (writeString field) (\<lambda>_. writeString val)))
      ((hexBytes c ?m \<circ> (\<lambda>(f, v). (f, v, expireOf expire f))) p) ()" if "p \<in> set h" for p
    unfolding hexBytes_def case_prod_beta comp_def fst_conv snd_conv using assms(2) that
    by (intro sink.writes_seq writeLength_writes writeString_writes) (auto simp: hashEx_ok_def list_all_iff)
  then have "ewrites c (writeHashEncodingEx key h expire) ([typeHashWithHfe] @ stringBytes c key @
      le_bytes 8 (unat (of_int ?m :: u64)) @ lengthBytes (of_nat (length h)) @
      concat (map (hexBytes c ?m \<circ> (\<lambda>(f, v). (f, v, expireOf expire f))) h)) ()"
    unfolding writeHashEncodingEx_def Let_def using assms(1)
    by (intro sink.writes_seq enc_write_writes writeString_writes writeLength_writes sink.writes_forEach)
  then show ?thesis by (simp add: hashExPayload_def withExpire_def)
qed

lemma writeHash2Encoding_emits:
  assumes "string_ok c key" "hashEx_ok c h expire"
  shows "ewrites c (writeHash2Encoding key h expire)
    (typeHash2 # stringBytes c key @ hash2Payload c h expire) ()"
proof -
  have "ewrites c (case p of (field, val) \<Rightarrow> bnd (writeString field) (\<lambda>_.
        bnd (writeString val) (\<lambda>_. enc_write (ttlBytes (expireOf expire field)))))
      ((valkeyBytes c \<circ> (\<lambda>(f, v). (f, v, expireOf expire f))) p) ()" if "p \<in> set h" for p
    unfolding valkeyBytes_def case_prod_beta comp_def fst_conv snd_conv using assms(2) that
    by (intro sink.writes_seq enc_write_writes writeString_writes) (auto simp: hashEx_ok_def list_all_iff)
  then have "ewrites c (writeHash2Encoding key h expire) ([typeHash2] @ stringBytes c key @
      lengthBytes (of_nat (length h)) @
      concat (map (valkeyBytes c \<circ> (\<lambda>(f, v). (f, v, expireOf expire f))) h)) ()"
    unfolding writeHash2Encoding_def using assms(1)
    by (intro sink.writes_seq enc_write_writes writeString_writes writeLength_writes sink.writes_forEach)
  then show ?thesis by (simp add: hash2Payload_def withExpire_def)
qed

lemma expireOf_bounds:
  "\<forall>x \<in> snd ` set expire. 0 \<le> x \<and> x \<le> EB_EXPIRE_TIME_MAX \<Longrightarrow>
   0 \<le> expireOf expire f \<and> expireOf expire f \<le> EB_EXPIRE_TIME_MAX"
  using expireOf_cases [of expire f] by (auto simp: EB_EXPIRE_TIME_MAX_def)

lemma readFieldEx_parses:
  assumes "0 \<le> m" "m \<le> x \<or> x = 0" "0 \<le> x" "x \<le> EB_EXPIRE_TIME_MAX" "string_ok c f" "string_ok c v"
  shows "dparses (readFieldEx False m) (hexBytes c m (f, v, x)) (f, v, x)"
proof -
  have v: "dparses (bnd readString (\<lambda>val. ret (f, val, x))) (stringBytes c v) (f, v, x)"
    by (rule src.parses_bnd_ret [OF readString_parses [OF assms(6)]]) simp
  have fv: "dparses (bnd readString (\<lambda>field. bnd readString (\<lambda>val. ret (field, val, x))))
      (stringBytes c f @ stringBytes c v) (f, v, x)"
    by (rule src.parses_bnd [OF readString_parses [OF assms(5)]]) (rule v)
  show ?thesis
    unfolding readFieldEx_def hexBytes_def prod.case
    by (rule src.parses_bnd [OF readLength_parses])
      (use fv assms in \<open>simp add: Let_def fieldExpire_ttl\<close>)
qed

lemma readFieldValkey_parses:
  assumes "0 \<le> x" "x \<le> EB_EXPIRE_TIME_MAX" "string_ok c f" "string_ok c v"
  shows "dparses readFieldValkey (valkeyBytes c (f, v, x)) (f, v, x)"
proof -
  let ?w = "if x = 0 then - 1 else of_int x :: u64"
  have "sint (of_int x :: u64) = x"
    using assms(1,2) by (intro sint_of_int) (auto simp: EB_EXPIRE_TIME_MAX_def)
  then have "(if sint ?w < 0 then 0 else sint ?w) = x" using assms(1) by auto
  then have "dparses (bnd readInt64 (\<lambda>expire. ret (f, v, if expire < 0 then 0 else expire))) (ttlBytes x) (f, v, x)"
    unfolding ttlBytes_def by (intro src.parses_bnd_ret [OF readInt64_parses]) simp
  then have "dparses (bnd readString (\<lambda>val. bnd readInt64 (\<lambda>expire. ret (f, val, if expire < 0 then 0 else expire))))
      (stringBytes c v @ ttlBytes x) (f, v, x)"
    by (rule src.parses_bnd [OF readString_parses [OF assms(4)]])
  then show ?thesis
    unfolding readFieldValkey_def valkeyBytes_def prod.case
    by (rule src.parses_bnd [OF readString_parses [OF assms(3)]])
qed

lemma nonempty_count:
  "int (length h) \<le> maxAlloc \<Longrightarrow> h \<noteq> [] \<Longrightarrow> of_nat (length h) \<noteq> (0 :: u64)"
  using unat_of_length [of "length h"] by auto

lemma fieldsEx_parses:
  assumes "int (length xs) \<le> maxAlloc" "xs \<noteq> []" "\<And>x. x \<in> set xs \<Longrightarrow> dparses m (enc x) x"
  shows "dparses (bnd readLength (\<lambda>(size, _). if size = 0 then fail (Msg ''hash read empty key'')
       else bnd (readN (nat (sint size)) m) (\<lambda>fs. ret (fieldsOf fs, expiresOf fs))))
    (lengthBytes (of_nat (length xs)) @ concat (map enc xs)) (fieldsOf xs, expiresOf xs)"
proof (rule counted_parses [OF assms(1)])
  have "list_all2 (\<lambda>bs x. dparses m bs x) (map enc xs) (map (\<lambda>x. x) xs)"
    unfolding list.rel_map list_all2_same using assms(3) by blast
  from src.parses_readN [OF this]
  have "dparses (readN (length xs) m) (concat (map enc xs)) xs" by simp
  then have "dparses (bnd (readN (length xs) m) (\<lambda>fs. ret (fieldsOf fs, expiresOf fs)))
      (concat (map enc xs)) (fieldsOf xs, expiresOf xs)"
    by (rule src.parses_bnd_ret) simp
  then show "dparses (case (of_nat (length xs), False) of (n, _) \<Rightarrow> if n = 0 then fail (Msg ''hash read empty key'')
       else bnd (readN (nat (sint (n :: u64))) m) (\<lambda>fs. ret (fieldsOf fs, expiresOf fs)))
      (concat (map enc xs)) (fieldsOf xs, expiresOf xs)"
    using nonempty_count [OF assms(1,2)] by (simp add: nat_sint_of_length [OF assms(1)])
qed

lemma hashExPayload_parses:
  assumes "hashEx_ok c h expire"
  shows "dparses (readHashMapEx False) (hashExPayload c h expire)
    (h, map (\<lambda>(f, v). (f, expireOf expire f)) h)"
proof -
  let ?m = "minExpireOf expire" and ?fs = "withExpire expire h"
  have ok: "int (length ?fs) \<le> maxAlloc" "length ?fs = length h" "?fs \<noteq> []"
    using assms by (auto simp: hashEx_ok_def withExpire_def)
  have m: "0 \<le> ?m" "?m \<le> EB_EXPIRE_TIME_MAX" using minExpireOf_bounds by auto
  have item: "dparses (readFieldEx False ?m) (hexBytes c ?m fx) fx" if "fx \<in> set ?fs" for fx
  proof -
    obtain f v where fx: "fx = (f, v, expireOf expire f)" and fv: "(f, v) \<in> set h"
      using \<open>fx \<in> set ?fs\<close> by (auto simp: withExpire_def)
    have b: "0 \<le> expireOf expire f \<and> expireOf expire f \<le> EB_EXPIRE_TIME_MAX"
      using assms by (intro expireOf_bounds) (simp add: hashEx_ok_def)
    have "?m \<le> expireOf expire f \<or> expireOf expire f = 0"
      using expireOf_cases [of expire f] minExpireOf_le [of "expireOf expire f" expire] b by force
    with b m(1) fv assms show ?thesis
      unfolding fx by (intro readFieldEx_parses) (auto simp: hashEx_ok_def list_all_iff)
  qed
  have body: "dparses (bnd readLength (\<lambda>(size, _). if size = 0 then fail (Msg ''hash read empty key'')
       else bnd (readN (nat (sint size)) (readFieldEx False ?m)) (\<lambda>fs. ret (fieldsOf fs, expiresOf fs))))
      (lengthBytes (of_nat (length ?fs)) @ concat (map (hexBytes c ?m) ?fs))
      (fieldsOf ?fs, expiresOf ?fs)"
    using ok(1,3) item by (rule fieldsEx_parses)
  have min: "dparses (readMinExpire False) (le_bytes 8 (unat (of_int ?m :: u64))) ?m"
  proof -
    have s: "sint (of_int ?m :: u64) = ?m"
      using m by (intro sint_of_int) (auto simp: EB_EXPIRE_TIME_MAX_def)
    have "dparses (readMinExpire False) (le_bytes 8 (unat (of_int ?m :: u64)) @ []) ?m"
      unfolding readMinExpire_def if_False
      by (rule src.parses_bnd [OF readInt64_parses])
        (use m s in \<open>simp add: EB_EXPIRE_TIME_INVALID_def src.parses_ret\<close>)
    then show ?thesis by simp
  qed
  have "dparses (readHashMapEx False) (hashExPayload c h expire) (fieldsOf ?fs, expiresOf ?fs)"
    unfolding readHashMapEx_def hashExPayload_def ok(2) [symmetric]
    by (rule src.parses_bnd [OF min]) (rule body)
  with assms show ?thesis by (simp add: fieldsOf_withExpire expiresOf_withExpire hashEx_ok_def)
qed

lemma hash2Payload_parses:
  assumes "hashEx_ok c h expire"
  shows "dparses readHashMapExValkey (hash2Payload c h expire)
    (h, map (\<lambda>(f, v). (f, expireOf expire f)) h)"
proof -
  let ?fs = "withExpire expire h"
  have ok: "int (length ?fs) \<le> maxAlloc" "length ?fs = length h" "?fs \<noteq> []"
    using assms by (auto simp: hashEx_ok_def withExpire_def)
  have item: "dparses readFieldValkey (valkeyBytes c fx) fx" if "fx \<in> set ?fs" for fx
  proof -
    obtain f v where fx: "fx = (f, v, expireOf expire f)" and fv: "(f, v) \<in> set h"
      using \<open>fx \<in> set ?fs\<close> by (auto simp: withExpire_def)
    have "0 \<le> expireOf expire f \<and> expireOf expire f \<le> EB_EXPIRE_TIME_MAX"
      using assms by (intro expireOf_bounds) (simp add: hashEx_ok_def)
    with fv assms show ?thesis
      unfolding fx by (intro readFieldValkey_parses) (auto simp: hashEx_ok_def list_all_iff)
  qed
  have "dparses readHashMapExValkey (hash2Payload c h expire) (fieldsOf ?fs, expiresOf ?fs)"
    unfolding readHashMapExValkey_def hash2Payload_def ok(2) [symmetric]
    using ok(1,3) item by (rule fieldsEx_parses)
  with assms show ?thesis by (simp add: fieldsOf_withExpire expiresOf_withExpire hashEx_ok_def)
qed

subsection \<open>Movement\<close>

lemma readHashMap_advances: "dadvances readHashMap"
  unfolding readHashMap_def readField_def by (intro string_advances)

lemma advances_Let: "(\<And>x. dadvances (f x)) \<Longrightarrow> dadvances (Let y f)"
  by (simp add: Let_def)

lemma readHashMapEx_advances: "dadvances (readHashMapEx rc)"
  unfolding readHashMapEx_def readFieldEx_def readMinExpire_def by (intro string_advances advances_Let)

lemma readHashMapExValkey_advances: "dadvances readHashMapExValkey"
  unfolding readHashMapExValkey_def readFieldValkey_def by (intro string_advances)

lemma readZipMapHash_advances: "dadvances readZipMapHash"
  unfolding readZipMapHash_def by (intro string_advances)

lemma readZipListHash_advances: "dadvances readZipListHash"
  unfolding readZipListHash_def by (intro string_advances)

lemma readListPackHash_advances: "dadvances readListPackHash"
  unfolding readListPackHash_def by (intro string_advances)

lemma readListPackHashEx_advances: "dadvances (readListPackHashEx rc)"
  unfolding readListPackHashEx_def by (intro string_advances)

lemmas hash_advances =
  readHashMap_advances readHashMapEx_advances readHashMapExValkey_advances readZipMapHash_advances
  readZipListHash_advances readListPackHash_advances readListPackHashEx_advances

end
