(* ===== verification/Streams.thy ===== *)
theory Streams
  imports Hashes
begin

unbundle bit_operations_syntax

section \<open>Streams (core/stream.go, model/stream.go)\<close>

text \<open>
  The reader and the writer of stream objects: the entries, each a listpack of messages
  whose ids are relative to the id of the first one and whose fields may be those of the
  master entry, the ids of the stream, and the consumer groups with their pending lists.
  Pointers that both sides dereference without a test are values; \<open>firstId\<close> and
  \<open>maxDeletedId\<close>, which the writer tests, are options.
\<close>

record stream_id =
  idMs :: u64
  idSequence :: u64

record stream_message =
  msgId :: stream_id
  msgFields :: "(bytes \<times> bytes) list"
  msgDeleted :: bool

record stream_entry =
  firstMsgId :: stream_id
  entryFields :: "bytes list"
  entryMsgs :: "stream_message list"

record stream_nack =
  nackId :: stream_id
  deliveryTime :: u64
  deliveryCount :: u64

record stream_consumer =
  consumerName :: bytes
  seenTime :: u64
  consumerPending :: "stream_id list"
  activeTime :: u64

record stream_group =
  groupName :: bytes
  groupLastId :: stream_id
  groupPending :: "stream_nack list"
  groupConsumers :: "stream_consumer list"
  entriesRead :: u64

record stream_object =
  streamVersion :: nat
  streamEntries :: "stream_entry list"
  streamGroups :: "stream_group list"
  streamLength :: u64
  lastId :: stream_id
  firstId :: "stream_id option"
  maxDeletedId :: "stream_id option"
  addedEntriesCount :: u64

definition streamItemFlagNone :: int where "streamItemFlagNone = 0"
definition streamItemFlagDeleted :: int where "streamItemFlagDeleted = 1"
definition streamItemFlagSameFields :: int where "streamItemFlagSameFields = 2"

lemmas stream_flags =
  streamItemFlagNone_def streamItemFlagDeleted_def streamItemFlagSameFields_def

subsection \<open>Reader\<close>

text \<open>A loop over a list that collects one result per element.\<close>

fun mapG :: "('a \<Rightarrow> ('s, 'b) gom) \<Rightarrow> 'a list \<Rightarrow> ('s, 'b list) gom" where
  "mapG f [] = ret []"
| "mapG f (x # xs) = bnd (f x) (\<lambda>y. bnd (mapG f xs) (\<lambda>ys. ret (y # ys)))"

definition readStreamId :: "(dstate, stream_id) gom" where
  "readStreamId =
     bnd readLength (\<lambda>(ms, _).
     bnd readLength (\<lambda>(sq, _). ret \<lparr>idMs = ms, idSequence = sq\<rparr>))"

definition readMessageFields :: "bytes \<Rightarrow> int \<Rightarrow> bytes list \<Rightarrow> (nat, (bytes \<times> bytes) list) gom" where
  "readMessageFields buf flag masterFieldNames =
     (if flag AND streamItemFlagSameFields = 0
          then bnd (wrapErr ''read stream item field number failed'' (readListPackEntryAsInt buf)) (\<lambda>fieldNum.
               readN (nat fieldNum)
                 (bnd (wrapErr ''read stream item field name failed'' (readListPackEntryAsString buf)) (\<lambda>fieldName.
                  bnd (wrapErr ''read stream item field value failed'' (readListPackEntryAsString buf)) (\<lambda>fieldValue.
                  ret (fieldName, fieldValue)))))
          else mapG (\<lambda>fieldName.
                 bnd (wrapErr ''read stream item field value failed'' (readListPackEntryAsString buf)) (\<lambda>fieldValue.
                 ret (fieldName, fieldValue))) masterFieldNames)"

definition readStreamMessage :: "bytes \<Rightarrow> stream_id \<Rightarrow> bytes list \<Rightarrow> (nat, stream_message) gom" where
  "readStreamMessage buf first masterFieldNames =
     bnd (wrapErr ''read stream item flag failed'' (readListPackEntryAsInt buf)) (\<lambda>flag.
     bnd (wrapErr ''read stream item id ms failed'' (readListPackEntryAsInt buf)) (\<lambda>ms.
     bnd (wrapErr ''read stream item id seq failed'' (readListPackEntryAsInt buf)) (\<lambda>sq.
     bnd (readMessageFields buf flag masterFieldNames) (\<lambda>ps.
     bnd (wrapErr ''read fields end flag failed'' (readListPackEntryAsString buf)) (\<lambda>_.
     ret \<lparr>msgId = \<lparr>idMs = of_int ms + idMs first, idSequence = of_int sq + idSequence first\<rparr>,
          msgFields = mapOf ps, msgDeleted = (0 < flag AND streamItemFlagDeleted)\<rparr>)))))"

definition readStreamEntryContent :: "bytes \<Rightarrow> stream_id \<Rightarrow> (nat, stream_entry) gom" where
  "readStreamEntryContent buf first =
     bnd (wrapErr ''read stream entry count failed'' (readListPackEntryAsInt buf)) (\<lambda>count.
     bnd (wrapErr ''read stream entry deleted count failed'' (readListPackEntryAsInt buf)) (\<lambda>deleted.
     bnd (wrapErr ''read stream field number failed'' (readListPackEntryAsInt buf)) (\<lambda>masterFieldNum.
     bnd (makeslice 16 masterFieldNum) (\<lambda>_.
     bnd (readN (nat masterFieldNum)
            (wrapErr ''read field name of stream entry failed'' (readListPackEntryAsString buf))) (\<lambda>masterFieldNames.
     bnd (wrapErr ''read fields end flag failed'' (readListPackEntryAsString buf)) (\<lambda>_.
     let total = sint (of_int count + of_int deleted :: u64) in
     bnd (makeslice 8 total) (\<lambda>_.
     bnd (readN (nat total) (readStreamMessage buf first masterFieldNames)) (\<lambda>msgs.
     ret \<lparr>firstMsgId = first, entryFields = masterFieldNames, entryMsgs = msgs\<rparr>))))))))"

definition readStreamHeader :: "bytes \<Rightarrow> (nat, stream_id) gom" where
  "readStreamHeader header =
     bnd (buf_readBytes header 8) (\<lambda>msBin.
     bnd (buf_readBytes header 8) (\<lambda>seqBin.
     ret \<lparr>idMs = of_nat (be_val msBin), idSequence = of_nat (be_val seqBin)\<rparr>))"

definition readStreamEntry :: "(dstate, stream_entry) gom" where
  "readStreamEntry =
     bnd readString (\<lambda>header.
     bnd (onBuf (readStreamHeader header)) (\<lambda>first.
     bnd readString (\<lambda>buf.
     onBuf (bnd (ignoreErr [] (buf_readBytes buf 6)) (\<lambda>_. readStreamEntryContent buf first)))))"

definition readStreamEntries :: "(dstate, stream_entry list) gom" where
  "readStreamEntries = bnd readLength (\<lambda>(len, _). readN (unat len) readStreamEntry)"

definition readBinId :: "(dstate, stream_id) gom" where
  "readBinId =
     bnd (dec_readFull 8) (\<lambda>ms.
     bnd (dec_readFull 8) (\<lambda>sq.
     ret \<lparr>idMs = of_nat (be_val ms), idSequence = of_nat (be_val sq)\<rparr>))"

definition readNAck :: "(dstate, stream_nack) gom" where
  "readNAck =
     bnd readBinId (\<lambda>i.
     bnd (dec_readFull 8) (\<lambda>t.
     bnd readLength (\<lambda>(n, _).
     ret \<lparr>nackId = i, deliveryTime = of_nat (le_val t), deliveryCount = n\<rparr>)))"

definition readCounted :: "int \<Rightarrow> (dstate, 'a) gom \<Rightarrow> (dstate, 'a list) gom" where
  "readCounted elemSize m =
     bnd readLength (\<lambda>(n, _). bnd (makeslice elemSize (sint n)) (\<lambda>_. readN (unat n) m))"

definition readConsumer :: "nat \<Rightarrow> (dstate, stream_consumer) gom" where
  "readConsumer version =
     bnd readString (\<lambda>name.
     bnd (dec_readFull 8) (\<lambda>s.
     bnd (if 3 \<le> version then dec_readFull 8 else ret s) (\<lambda>a.
     bnd (readCounted 8 readBinId) (\<lambda>pending.
     ret \<lparr>consumerName = name, seenTime = of_nat (le_val s), consumerPending = pending,
          activeTime = of_nat (le_val a)\<rparr>))))"

definition readGroup :: "nat \<Rightarrow> (dstate, stream_group) gom" where
  "readGroup version =
     bnd (ignoreErr [] readString) (\<lambda>name.
     bnd readStreamId (\<lambda>lst.
     bnd (if 2 \<le> version then bnd readLength (\<lambda>(n, _). ret n) else ret 0) (\<lambda>nread.
     bnd (readCounted 8 readNAck) (\<lambda>pending.
     bnd (readCounted 8 (readConsumer version)) (\<lambda>consumers.
     ret \<lparr>groupName = name, groupLastId = lst, groupPending = pending,
          groupConsumers = consumers, entriesRead = nread\<rparr>)))))"

definition readStreamGroups :: "nat \<Rightarrow> (dstate, stream_group list) gom" where
  "readStreamGroups version = readCounted 8 (readGroup version)"

definition readStreamV2 :: "nat \<Rightarrow> (dstate, stream_id option \<times> stream_id option \<times> u64) gom" where
  "readStreamV2 version =
     (if 2 \<le> version
      then bnd readStreamId (\<lambda>fst'.
           bnd readStreamId (\<lambda>mx.
           bnd readLength (\<lambda>(n, _). ret (Some fst', Some mx, n))))
      else ret (None, None, 0))"

definition readStreamListPacks :: "nat \<Rightarrow> (dstate, stream_object) gom" where
  "readStreamListPacks version =
     bnd readStreamEntries (\<lambda>entries.
     bnd readLength (\<lambda>(len, _).
     bnd readStreamId (\<lambda>lst.
     bnd (readStreamV2 version) (\<lambda>(fst', mx, added).
     bnd (readStreamGroups version) (\<lambda>groups.
     ret \<lparr>streamVersion = version, streamEntries = entries, streamGroups = groups,
          streamLength = len, lastId = lst, firstId = fst', maxDeletedId = mx,
          addedEntriesCount = added\<rparr>)))))"

subsection \<open>Writer\<close>

definition writeStreamId :: "stream_id \<Rightarrow> (encoder, unit) gom" where
  "writeStreamId i = bnd (writeLength (idMs i)) (\<lambda>_. writeLength (idSequence i))"

definition lpI :: "int \<Rightarrow> listpackEntry" where "lpI i = \<lparr>intVal = i, strVal = []\<rparr>"
definition lpS :: "bytes \<Rightarrow> listpackEntry" where "lpS s = \<lparr>intVal = 0, strVal = s\<rparr>"

definition sameFields :: "bytes list \<Rightarrow> stream_message \<Rightarrow> bool" where
  "sameFields fieldNames msg \<longleftrightarrow> length (msgFields msg) = length fieldNames \<and>
     list_all (\<lambda>field. map_of (msgFields msg) field \<noteq> None) fieldNames"

definition messageFlag :: "bytes list \<Rightarrow> stream_message \<Rightarrow> int" where
  "messageFlag fieldNames msg =
     (streamItemFlagNone OR (if msgDeleted msg then streamItemFlagDeleted else 0)) OR
     (if sameFields fieldNames msg then streamItemFlagSameFields else 0)"

definition messageFieldEntries :: "bytes list \<Rightarrow> stream_message \<Rightarrow> listpackEntry list" where
  "messageFieldEntries fieldNames msg =
     (if messageFlag fieldNames msg AND streamItemFlagSameFields = 0
      then lpI (int (length (msgFields msg))) # concat (map (\<lambda>(f, v). [lpS f, lpS v]) (msgFields msg))
      else map (\<lambda>field. lpS (case map_of (msgFields msg) field of None \<Rightarrow> [] | Some v \<Rightarrow> v)) fieldNames)"

definition messageEntries :: "stream_entry \<Rightarrow> stream_message \<Rightarrow> listpackEntry list" where
  "messageEntries entry msg =
     (let fieldNames = entryFields entry in
      [lpI (messageFlag fieldNames msg),
       lpI (sint (idMs (msgId msg) - idMs (firstMsgId entry))),
       lpI (sint (idSequence (msgId msg) - idSequence (firstMsgId entry)))] @
      messageFieldEntries fieldNames msg @
      [lpS (itoa (int (length (msgFields msg))))])"

definition entryContent :: "stream_entry \<Rightarrow> listpackEntry list" where
  "entryContent entry =
     (let deletedCount = length (filter msgDeleted (entryMsgs entry));
          validCount = length (entryMsgs entry) - deletedCount in
      [lpI (int validCount), lpI (int deletedCount), lpI (int (length (entryFields entry)))] @
      map lpS (entryFields entry) @ [lpS (itoa (int (length (entryFields entry))))] @
      concat (map (messageEntries entry) (entryMsgs entry)))"

definition writeStreamEntryContent :: "stream_entry \<Rightarrow> (encoder, unit) gom" where
  "writeStreamEntryContent entry = writeString (buildListpackWithBacklen (entryContent entry))"

definition writeStreamEntries :: "stream_entry list \<Rightarrow> (encoder, unit) gom" where
  "writeStreamEntries entries =
     bnd (writeLength (of_nat (length entries))) (\<lambda>_.
     forEach (\<lambda>entry.
       bnd (writeString (be_bytes 8 (unat (idMs (firstMsgId entry))) @
              be_bytes 8 (unat (idSequence (firstMsgId entry))))) (\<lambda>_.
       writeStreamEntryContent entry)) entries)"

definition writeBinId :: "stream_id \<Rightarrow> (encoder, unit) gom" where
  "writeBinId i =
     bnd (enc_write (be_bytes 8 (unat (idMs i)))) (\<lambda>_. enc_write (be_bytes 8 (unat (idSequence i))))"

definition writeNAck :: "stream_nack \<Rightarrow> (encoder, unit) gom" where
  "writeNAck p =
     bnd (writeBinId (nackId p)) (\<lambda>_.
     bnd (enc_write (le_bytes 8 (unat (deliveryTime p)))) (\<lambda>_.
     writeLength (deliveryCount p)))"

definition writeConsumer :: "nat \<Rightarrow> stream_consumer \<Rightarrow> (encoder, unit) gom" where
  "writeConsumer version c =
     bnd (writeString (consumerName c)) (\<lambda>_.
     bnd (enc_write (le_bytes 8 (unat (seenTime c)))) (\<lambda>_.
     bnd (if 3 \<le> version then enc_write (le_bytes 8 (unat (activeTime c))) else ret ()) (\<lambda>_.
     bnd (writeLength (of_nat (length (consumerPending c)))) (\<lambda>_.
     forEach writeBinId (consumerPending c)))))"

definition writeGroup :: "nat \<Rightarrow> stream_group \<Rightarrow> (encoder, unit) gom" where
  "writeGroup version g =
     bnd (writeString (groupName g)) (\<lambda>_.
     bnd (writeStreamId (groupLastId g)) (\<lambda>_.
     bnd (if 2 \<le> version then writeLength (entriesRead g) else ret ()) (\<lambda>_.
     bnd (writeLength (of_nat (length (groupPending g)))) (\<lambda>_.
     bnd (forEach writeNAck (groupPending g)) (\<lambda>_.
     bnd (writeLength (of_nat (length (groupConsumers g)))) (\<lambda>_.
     forEach (writeConsumer version) (groupConsumers g)))))))"

definition writeStreamGroups :: "stream_group list \<Rightarrow> nat \<Rightarrow> (encoder, unit) gom" where
  "writeStreamGroups groups version =
     bnd (writeLength (of_nat (length groups))) (\<lambda>_. forEach (writeGroup version) groups)"

definition streamType :: "nat \<Rightarrow> byte" where
  "streamType version =
     (if version = 1 then typeStreamListPacks
      else if version = 2 then typeStreamListPacks2
      else if version = 3 then typeStreamListPacks3
      else typeStreamListPacks)"

definition zeroId :: stream_id where "zeroId = \<lparr>idMs = 0, idSequence = 0\<rparr>"

definition orZero :: "stream_id option \<Rightarrow> stream_id" where
  "orZero i = (case i of None \<Rightarrow> zeroId | Some i \<Rightarrow> i)"

text \<open>\<^verbatim>\<open>WriteStreamObject\<close> after \<^verbatim>\<open>beforeWriteObject\<close>.\<close>

definition writeStreamBody :: "bytes \<Rightarrow> stream_object \<Rightarrow> (encoder, unit) gom" where
  "writeStreamBody key s =
     bnd (enc_write [streamType (streamVersion s)]) (\<lambda>_.
     bnd (writeString key) (\<lambda>_.
     bnd (writeStreamEntries (streamEntries s)) (\<lambda>_.
     bnd (writeLength (streamLength s)) (\<lambda>_.
     bnd (writeStreamId (lastId s)) (\<lambda>_.
     bnd (if 2 \<le> streamVersion s
          then bnd (writeStreamId (orZero (firstId s))) (\<lambda>_.
               bnd (writeStreamId (orZero (maxDeletedId s))) (\<lambda>_.
               writeLength (addedEntriesCount s)))
          else ret ()) (\<lambda>_.
     writeStreamGroups (streamGroups s) (streamVersion s)))))))"

subsection \<open>Round trip of a message\<close>

context byte_source begin

lemma parses_mapG:
  "(\<And>x. x \<in> set xs \<Longrightarrow> parses at adv (f x) (enc x) (g x)) \<Longrightarrow>
   parses at adv (mapG f xs) (concat (map enc xs)) (map g xs)"
proof (induction xs)
  case Nil
  then show ?case by (simp add: parses_ret)
next
  case (Cons x xs)
  have "parses at adv (bnd (mapG f xs) (\<lambda>ys. ret (g x # ys))) (concat (map enc xs)) (g x # map g xs)"
    using Cons by (intro parses_bnd_ret) auto
  with Cons.prems [of x] show ?case by (auto intro: parses_bnd)
qed

lemma parses_readN_map:
  assumes "\<And>x. x \<in> set xs \<Longrightarrow> parses at adv m (enc x) (g x)"
  shows "parses at adv (readN (length xs) m) (concat (map enc xs)) (map g xs)"
proof -
  have "list_all2 (\<lambda>bs y. parses at adv m bs y) (map enc xs) (map g xs)"
    unfolding list.rel_map list_all2_same using assms by blast
  from parses_readN [OF this] show ?thesis by simp
qed

end

definition lp_text :: "bytes \<Rightarrow> bool" where
  "lp_text s \<longleftrightarrow> s \<noteq> [] \<and> lp_str_ok s"

lemma lpI_parses:
  "lp_int_ok i \<Longrightarrow> bparses buf (wrapErr m (readListPackEntryAsInt buf)) (lpBytes (lpI i)) i"
  using lpEntry_int_parses [of "lpI i" buf] by (auto simp: lpI_def lp_ok_def intro: buf.parses_wrapErr)

lemma lpS_parses:
  "lp_text s \<Longrightarrow> bparses buf (wrapErr m (readListPackEntryAsString buf)) (lpBytes (lpS s)) s"
  using lpEntry_string_parses [of "lpS s" buf]
  by (auto simp: lpS_def lp_ok_def lp_text_def lpValue_def intro: buf.parses_wrapErr)

definition msg_ok :: "stream_entry \<Rightarrow> stream_message \<Rightarrow> bool" where
  "msg_ok entry msg \<longleftrightarrow>
     lp_int_ok (sint (idMs (msgId msg) - idMs (firstMsgId entry))) \<and>
     lp_int_ok (sint (idSequence (msgId msg) - idSequence (firstMsgId entry))) \<and>
     distinct (map fst (msgFields msg)) \<and> length (msgFields msg) < 4096 \<and>
     list_all (\<lambda>(f, v). lp_text f \<and> lp_text v) (msgFields msg)"

text \<open>
  The message with its fields in the order the reader meets them: that of the master entry
  when the fields are the same.  As a map the fields are unchanged.
\<close>

definition valueOf :: "stream_message \<Rightarrow> bytes \<Rightarrow> bytes" where
  "valueOf msg field = (case map_of (msgFields msg) field of None \<Rightarrow> [] | Some v \<Rightarrow> v)"

definition readMsg :: "stream_entry \<Rightarrow> stream_message \<Rightarrow> stream_message" where
  "readMsg entry msg = msg\<lparr>msgFields :=
     (if sameFields (entryFields entry) msg
      then map (\<lambda>f. (f, valueOf msg f)) (entryFields entry) else msgFields msg)\<rparr>"

lemma sameFields_map_of:
  assumes "sameFields (entryFields entry) msg" "distinct (entryFields entry)" "distinct (map fst (msgFields msg))"
  shows "map_of (map (\<lambda>f. (f, valueOf msg f)) (entryFields entry)) = map_of (msgFields msg)"
proof (rule ext)
  fix f
  have sub: "set (entryFields entry) \<subseteq> fst ` set (msgFields msg)"
    using assms(1) by (auto simp: sameFields_def list_all_iff map_of_eq_None_iff)
  have "card (set (entryFields entry)) = card (set (map fst (msgFields msg)))"
    using assms by (simp add: distinct_card sameFields_def del: set_map)
  with sub have eq: "set (entryFields entry) = fst ` set (msgFields msg)"
    by (intro card_subset_eq) (auto simp: image_iff)
  show "map_of (map (\<lambda>f. (f, valueOf msg f)) (entryFields entry)) f = map_of (msgFields msg) f"
  proof (cases "f \<in> set (entryFields entry)")
    case True
    then obtain v where "map_of (msgFields msg) f = Some v"
      using eq by (auto simp: map_of_eq_None_iff dest: weak_map_of_SomeI)
    with True show ?thesis by (simp add: map_of_map_restrict valueOf_def)
  next
    case False
    then have "map_of (msgFields msg) f = None" using eq by (simp add: map_of_eq_None_iff)
    with False show ?thesis by (simp add: map_of_map_restrict)
  qed
qed

lemma readMsg_map_of:
  assumes "distinct (entryFields entry)" "distinct (map fst (msgFields msg))"
  shows "map_of (msgFields (readMsg entry msg)) = map_of (msgFields msg)"
  using sameFields_map_of [OF _ assms] by (simp add: readMsg_def)

lemma messageFlag_cases:
  "messageFlag fs msg = (if msgDeleted msg then 1 else 0) + (if sameFields fs msg then 2 else 0)"
  "(messageFlag fs msg AND streamItemFlagSameFields = 0) = (\<not> sameFields fs msg)"
  "(0 < messageFlag fs msg AND streamItemFlagDeleted) = msgDeleted msg"
  by (simp_all add: messageFlag_def stream_flags)

lemma length_digits: "length (digits n) \<le> Suc n"
proof (induction n rule: digits.induct)
  case (1 n)
  show ?case
  proof (cases "n < 10")
    case False
    then have "length (digits (n div 10)) \<le> Suc (n div 10)" using 1 by simp
    with False show ?thesis by (simp add: digits_large)
  qed (simp add: digits_small)
qed

lemma lp_text_itoa: "n < 4096 \<Longrightarrow> lp_text (itoa (int n))"
  using length_digits [of n] by (simp add: lp_text_def itoa_def lp_str_ok_def)

lemma lp_int_ok_count: "n < 4096 \<Longrightarrow> lp_int_ok (int n)"
  by (simp add: lp_int_ok_def)

lemma lp_int_ok_small: "0 \<le> i \<Longrightarrow> i < 4096 \<Longrightarrow> lp_int_ok i"
  by (simp add: lp_int_ok_def)

lemma stream_id_eq [simp]: "\<lparr>idMs = idMs i, idSequence = idSequence i\<rparr> = i"
  by (cases i) simp

lemma unrelative: "of_int (sint (a - b)) + b = (a :: u64)"
  by simp

lemma valueOf_text:
  assumes "sameFields (entryFields entry) msg" "f \<in> set (entryFields entry)"
    "list_all (\<lambda>(f, v). lp_text f \<and> lp_text v) (msgFields msg)"
  shows "lp_text (valueOf msg f)"
proof -
  obtain v where "map_of (msgFields msg) f = Some v"
    using assms(1,2) by (auto simp: sameFields_def list_all_iff)
  with assms(3) show ?thesis by (auto simp: valueOf_def list_all_iff dest!: map_of_SomeD)
qed

text \<open>The fields of a message, in both forms.\<close>

lemma messageFields_parses:
  assumes "msg_ok entry msg" "distinct (entryFields entry)"
  shows "\<exists>ps. mapOf ps = msgFields (readMsg entry msg) \<and>
    bparses buf (readMessageFields buf (messageFlag (entryFields entry) msg) (entryFields entry))
      (concat (map lpBytes (messageFieldEntries (entryFields entry) msg))) ps"
proof (cases "sameFields (entryFields entry) msg")
  case True
  let ?ps = "map (\<lambda>f. (f, valueOf msg f)) (entryFields entry)"
  have "bparses buf (bnd (wrapErr ''read stream item field value failed'' (readListPackEntryAsString buf)) (\<lambda>v. ret (f, v)))
      (lpBytes (lpS (valueOf msg f))) (f, valueOf msg f)" if "f \<in> set (entryFields entry)" for f
    using valueOf_text [OF True that] assms(1)
    by (intro buf.parses_bnd_ret [OF lpS_parses]) (auto simp: msg_ok_def)
  then have "bparses buf (mapG (\<lambda>f. bnd (wrapErr ''read stream item field value failed'' (readListPackEntryAsString buf)) (\<lambda>v. ret (f, v)))
      (entryFields entry)) (concat (map (\<lambda>f. lpBytes (lpS (valueOf msg f))) (entryFields entry))) ?ps"
    by (rule buf.parses_mapG)
  moreover have "mapOf ?ps = msgFields (readMsg entry msg)"
    using True assms(2) by (simp add: readMsg_def mapOf_distinct comp_def)
  ultimately show ?thesis using True
    by (intro exI [of _ ?ps]) (simp add: readMessageFields_def messageFieldEntries_def messageFlag_cases(2) valueOf_def comp_def)
next
  case False
  let ?m = "bnd (wrapErr ''read stream item field name failed'' (readListPackEntryAsString buf)) (\<lambda>fieldName.
            bnd (wrapErr ''read stream item field value failed'' (readListPackEntryAsString buf)) (\<lambda>fieldValue. ret (fieldName, fieldValue)))"
  have "bparses buf ?m (lpBytes (lpS (fst p)) @ lpBytes (lpS (snd p))) p" if "p \<in> set (msgFields msg)" for p
  proof -
    have t: "lp_text (fst p)" "lp_text (snd p)"
      using assms(1) that by (auto simp: msg_ok_def list_all_iff)
    show ?thesis
      by (rule buf.parses_bnd [OF lpS_parses [OF t(1)]])
        (rule buf.parses_bnd_ret [OF lpS_parses [OF t(2)]], simp)
  qed
  from buf.parses_readN_map [of "msgFields msg" buf ?m _ "\<lambda>p. p", OF this]
  have r: "bparses buf (readN (length (msgFields msg)) ?m)
      (concat (map (\<lambda>p. lpBytes (lpS (fst p)) @ lpBytes (lpS (snd p))) (msgFields msg))) (msgFields msg)" by simp
  have c: "concat (map lpBytes (concat (map (\<lambda>(f, v). [lpS f, lpS v]) ps))) =
      concat (map (\<lambda>p. lpBytes (lpS (fst p)) @ lpBytes (lpS (snd p))) ps)" for ps
    by (induction ps) auto
  have n: "lp_int_ok (int (length (msgFields msg)))" using assms(1) by (simp add: msg_ok_def lp_int_ok_count)
  have "bparses buf (bnd (wrapErr ''read stream item field number failed'' (readListPackEntryAsInt buf)) (\<lambda>fieldNum. readN (nat fieldNum) ?m))
      (lpBytes (lpI (int (length (msgFields msg)))) @
       concat (map (\<lambda>p. lpBytes (lpS (fst p)) @ lpBytes (lpS (snd p))) (msgFields msg))) (msgFields msg)"
    by (rule buf.parses_bnd [OF lpI_parses [OF n]]) (simp add: r)
  then show ?thesis using False assms(1)
    by (intro exI [of _ "msgFields msg"]) (simp add: readMessageFields_def messageFieldEntries_def messageFlag_cases(2) c readMsg_def mapOf_distinct msg_ok_def)
qed

lemma readStreamMessage_parses:
  assumes "msg_ok entry msg" "distinct (entryFields entry)"
  shows "bparses buf (readStreamMessage buf (firstMsgId entry) (entryFields entry))
    (concat (map lpBytes (messageEntries entry msg))) (readMsg entry msg)"
proof -
  let ?flag = "messageFlag (entryFields entry) msg"
  let ?ms = "sint (idMs (msgId msg) - idMs (firstMsgId entry))"
  let ?sq = "sint (idSequence (msgId msg) - idSequence (firstMsgId entry))"
  have e: "concat (map lpBytes (messageEntries entry msg)) =
      lpBytes (lpI ?flag) @ lpBytes (lpI ?ms) @ lpBytes (lpI ?sq) @
      concat (map lpBytes (messageFieldEntries (entryFields entry) msg)) @
      lpBytes (lpS (itoa (int (length (msgFields msg)))))"
    by (simp add: messageEntries_def Let_def)
  have ok: "lp_int_ok ?flag" "lp_int_ok ?ms" "lp_int_ok ?sq"
    and t: "lp_text (itoa (int (length (msgFields msg))))"
    using assms(1) by (simp_all add: messageFlag_cases(1) lp_int_ok_def msg_ok_def lp_text_itoa)
  obtain ps where ps: "mapOf ps = msgFields (readMsg entry msg)"
    and p: "bparses buf (readMessageFields buf ?flag (entryFields entry))
      (concat (map lpBytes (messageFieldEntries (entryFields entry) msg))) ps"
    using messageFields_parses [OF assms] by blast
  have "\<lparr>msgId = msgId msg, msgFields = msgFields (readMsg entry msg), msgDeleted = msgDeleted msg\<rparr> = readMsg entry msg"
    by (cases msg) (simp add: readMsg_def)
  then have r: "readMsg entry msg = \<lparr>msgId = \<lparr>idMs = of_int ?ms + idMs (firstMsgId entry),
      idSequence = of_int ?sq + idSequence (firstMsgId entry)\<rparr>, msgFields = mapOf ps,
      msgDeleted = (0 < ?flag AND streamItemFlagDeleted)\<rparr>"
    using ps by (simp add: messageFlag_cases(3) unrelative)
  show ?thesis
    unfolding readStreamMessage_def e
    by (rule buf.parses_bnd [OF lpI_parses [OF ok(1)]], rule buf.parses_bnd [OF lpI_parses [OF ok(2)]],
        rule buf.parses_bnd [OF lpI_parses [OF ok(3)]], rule buf.parses_bnd [OF p],
        rule buf.parses_bnd_ret [OF lpS_parses [OF t]], rule r)
qed

subsection \<open>Round trip of an entry\<close>

definition entry_ok :: "bool \<Rightarrow> stream_entry \<Rightarrow> bool" where
  "entry_ok c entry \<longleftrightarrow> distinct (entryFields entry) \<and> length (entryFields entry) < 4096 \<and>
     list_all lp_text (entryFields entry) \<and> length (entryMsgs entry) < 4096 \<and>
     list_all (msg_ok entry) (entryMsgs entry) \<and>
     string_ok c (buildListpackWithBacklen (entryContent entry))"

definition readEntry :: "stream_entry \<Rightarrow> stream_entry" where
  "readEntry entry = entry\<lparr>entryMsgs := map (readMsg entry) (entryMsgs entry)\<rparr>"

lemma lp_ok_lpI: "lp_int_ok i \<Longrightarrow> lp_ok (lpI i)" and lp_ok_lpS: "lp_text s \<Longrightarrow> lp_ok (lpS s)"
  by (simp_all add: lpI_def lpS_def lp_ok_def lp_text_def)

lemma messageEntries_ok:
  assumes "msg_ok entry msg"
  shows "x \<in> set (messageEntries entry msg) \<Longrightarrow> lp_ok x"
proof -
  assume "x \<in> set (messageEntries entry msg)"
  then consider "x = lpI (messageFlag (entryFields entry) msg)"
    | "x = lpI (sint (idMs (msgId msg) - idMs (firstMsgId entry)))"
    | "x = lpI (sint (idSequence (msgId msg) - idSequence (firstMsgId entry)))"
    | "x \<in> set (messageFieldEntries (entryFields entry) msg)"
    | "x = lpS (itoa (int (length (msgFields msg))))"
    by (auto simp: messageEntries_def Let_def)
  then show "lp_ok x"
  proof cases
    case 4
    show ?thesis
    proof (cases "sameFields (entryFields entry) msg")
      case True
      then obtain f where "f \<in> set (entryFields entry)" "x = lpS (valueOf msg f)"
        using 4 by (auto simp: messageFieldEntries_def messageFlag_cases(2) valueOf_def)
      with True assms show ?thesis by (auto simp: msg_ok_def intro!: lp_ok_lpS valueOf_text)
    next
      case False
      then have "x = lpI (int (length (msgFields msg))) \<or>
          (\<exists>p \<in> set (msgFields msg). x = lpS (fst p) \<or> x = lpS (snd p))"
        using 4 by (fastforce simp: messageFieldEntries_def messageFlag_cases(2))
      with assms show ?thesis
        by (fastforce simp: msg_ok_def list_all_iff intro: lp_ok_lpS lp_ok_lpI lp_int_ok_count)
    qed
  qed (use assms in \<open>auto simp: msg_ok_def messageFlag_cases(1) lp_int_ok_def intro!: lp_ok_lpI lp_ok_lpS lp_text_itoa\<close>)
qed

lemma entryContent_ok:
  assumes "entry_ok c entry" "x \<in> set (entryContent entry)"
  shows "lp_ok x"
proof -
  have "length (filter msgDeleted (entryMsgs entry)) \<le> length (entryMsgs entry)" by (rule length_filter_le)
  with assms show ?thesis
    by (auto simp: entryContent_def Let_def entry_ok_def list_all_iff
        intro!: lp_ok_lpI lp_ok_lpS lp_int_ok_small lp_text_itoa intro: messageEntries_ok
          le_less_trans [OF length_filter_le])
qed

lemma concat_map_concat_map:
  "concat (map f (concat (map g xs))) = concat (map (\<lambda>x. concat (map f (g x))) xs)"
  by (induction xs) auto

lemma buf_makeslice_then:
  assumes "bparses buf m bs x" "0 \<le> n" "n * e \<le> maxAlloc"
  shows "bparses buf (bnd (makeslice e n) (\<lambda>_. m)) bs x"
proof -
  have "bparses buf (bnd (makeslice e n) (\<lambda>_. m)) ([] @ bs) x"
    by (rule buf.parses_bnd [OF buf.parses_pure [OF makeslice_ok [OF assms(2,3)]]]) (rule assms(1))
  then show ?thesis by simp
qed

lemma entryContent_parses:
  assumes "entry_ok c entry"
  shows "bparses buf (readStreamEntryContent buf (firstMsgId entry))
    (concat (map lpBytes (entryContent entry))) (readEntry entry)"
proof -
  let ?del = "length (filter msgDeleted (entryMsgs entry))"
  let ?val = "length (entryMsgs entry) - ?del"
  let ?fs = "entryFields entry"
  let ?n = "length (entryMsgs entry)"
  have len: "?del \<le> ?n" by (rule length_filter_le)
  have n: "?n < 4096" "length ?fs < 4096" using assms by (simp_all add: entry_ok_def)
  have ok: "lp_int_ok (int ?val)" "lp_int_ok (int ?del)" "lp_int_ok (int (length ?fs))"
    and t: "lp_text (itoa (int (length ?fs)))"
    using n len by (auto intro!: lp_int_ok_small lp_text_itoa le_less_trans [OF length_filter_le])
  have e: "concat (map lpBytes (entryContent entry)) =
      lpBytes (lpI (int ?val)) @ lpBytes (lpI (int ?del)) @ lpBytes (lpI (int (length ?fs))) @
      concat (map (\<lambda>f. lpBytes (lpS f)) ?fs) @ lpBytes (lpS (itoa (int (length ?fs)))) @
      concat (map (\<lambda>m. concat (map lpBytes (messageEntries entry m))) (entryMsgs entry))"
    by (simp add: entryContent_def Let_def comp_def concat_map_concat_map)
  have names: "bparses buf (readN (length ?fs)
      (wrapErr ''read field name of stream entry failed'' (readListPackEntryAsString buf)))
      (concat (map (\<lambda>f. lpBytes (lpS f)) ?fs)) (map (\<lambda>f. f) ?fs)"
    using assms by (intro buf.parses_readN_map lpS_parses) (auto simp: entry_ok_def list_all_iff)
  have msgs: "bparses buf (readN ?n (readStreamMessage buf (firstMsgId entry) ?fs))
      (concat (map (\<lambda>m. concat (map lpBytes (messageEntries entry m))) (entryMsgs entry)))
      (map (readMsg entry) (entryMsgs entry))"
    using assms by (intro buf.parses_readN_map readStreamMessage_parses) (auto simp: entry_ok_def list_all_iff)
  have total: "sint (of_int (int ?val) + of_int (int ?del) :: u64) = int ?n"
  proof -
    have "of_int (int ?val) + of_int (int ?del) = (of_nat ?n :: u64)" using len by (simp flip: of_nat_add)
    then show ?thesis using n sint_of_length [of ?n] by (simp add: maxAlloc_def)
  qed
  have r: "readEntry entry = \<lparr>firstMsgId = firstMsgId entry, entryFields = map (\<lambda>f. f) ?fs,
      entryMsgs = map (readMsg entry) (entryMsgs entry)\<rparr>"
    by (cases entry) (simp add: readEntry_def)
  have tail: "bparses buf (bnd (makeslice 8 (int ?n)) (\<lambda>_.
      bnd (readN (nat (int ?n)) (readStreamMessage buf (firstMsgId entry) (map (\<lambda>f. f) ?fs))) (\<lambda>ms.
      ret \<lparr>firstMsgId = firstMsgId entry, entryFields = map (\<lambda>f. f) ?fs, entryMsgs = ms\<rparr>)))
      (concat (map (\<lambda>m. concat (map lpBytes (messageEntries entry m))) (entryMsgs entry))) (readEntry entry)"
    by (rule buf_makeslice_then) (use n msgs r in \<open>auto simp: maxAlloc_def intro!: buf.parses_bnd_ret\<close>)
  have tail2: "bparses buf (bnd (makeslice 16 (int (length ?fs))) (\<lambda>_.
      bnd (readN (nat (int (length ?fs)))
            (wrapErr ''read field name of stream entry failed'' (readListPackEntryAsString buf))) (\<lambda>masterFieldNames.
      bnd (wrapErr ''read fields end flag failed'' (readListPackEntryAsString buf)) (\<lambda>_.
      let total = sint (of_int (int ?val) + of_int (int ?del) :: u64) in
      bnd (makeslice 8 total) (\<lambda>_.
      bnd (readN (nat total) (readStreamMessage buf (firstMsgId entry) masterFieldNames)) (\<lambda>ms.
      ret \<lparr>firstMsgId = firstMsgId entry, entryFields = masterFieldNames, entryMsgs = ms\<rparr>))))))
      (concat (map (\<lambda>f. lpBytes (lpS f)) ?fs) @ lpBytes (lpS (itoa (int (length ?fs)))) @
       concat (map (\<lambda>m. concat (map lpBytes (messageEntries entry m))) (entryMsgs entry))) (readEntry entry)"
  proof (rule buf_makeslice_then)
    show "bparses buf (bnd (readN (nat (int (length ?fs)))
            (wrapErr ''read field name of stream entry failed'' (readListPackEntryAsString buf))) (\<lambda>masterFieldNames.
      bnd (wrapErr ''read fields end flag failed'' (readListPackEntryAsString buf)) (\<lambda>_.
      let total = sint (of_int (int ?val) + of_int (int ?del) :: u64) in
      bnd (makeslice 8 total) (\<lambda>_.
      bnd (readN (nat total) (readStreamMessage buf (firstMsgId entry) masterFieldNames)) (\<lambda>ms.
      ret \<lparr>firstMsgId = firstMsgId entry, entryFields = masterFieldNames, entryMsgs = ms\<rparr>)))))
      (concat (map (\<lambda>f. lpBytes (lpS f)) ?fs) @ lpBytes (lpS (itoa (int (length ?fs)))) @
       concat (map (\<lambda>m. concat (map lpBytes (messageEntries entry m))) (entryMsgs entry))) (readEntry entry)"
      unfolding nat_int Let_def total
      by (rule buf.parses_bnd [OF names], rule buf.parses_bnd [OF lpS_parses [OF t]]) (rule tail [unfolded nat_int])
  qed (use n in \<open>auto simp: maxAlloc_def\<close>)
  show ?thesis
    unfolding readStreamEntryContent_def e
    by (rule buf.parses_bnd [OF lpI_parses [OF ok(1)]], rule buf.parses_bnd [OF lpI_parses [OF ok(2)]],
        rule buf.parses_bnd [OF lpI_parses [OF ok(3)]], rule tail2)
qed

definition idHeader :: "stream_id \<Rightarrow> bytes" where
  "idHeader i = be_bytes 8 (unat (idMs i)) @ be_bytes 8 (unat (idSequence i))"

definition entryBytes :: "bool \<Rightarrow> stream_entry \<Rightarrow> bytes" where
  "entryBytes c entry = stringBytes c (idHeader (firstMsgId entry)) @
     stringBytes c (buildListpackWithBacklen (entryContent entry))"

lemma idHeader_ok: "string_ok c (idHeader i)"
  by (simp add: string_ok_def idHeader_def maxAlloc_def)

lemma readStreamHeader_parses: "bparses buf (readStreamHeader buf) (idHeader i) i"
  unfolding readStreamHeader_def idHeader_def
  by (rule buf.parses_bnd [OF buf_readBytes_parses [OF length_be_bytes]],
      rule buf.parses_bnd_ret [OF buf_readBytes_parses [OF length_be_bytes]]) simp

lemma parses_ignoreErr: "bparses buf m bs x \<Longrightarrow> bparses buf (ignoreErr d m) bs x"
  and dparses_ignoreErr: "dparses n bs' y \<Longrightarrow> dparses (ignoreErr d' n) bs' y"
  by (auto simp: parses_def ignoreErr_def)

lemma readStreamEntry_parses:
  assumes "entry_ok c entry"
  shows "dparses readStreamEntry (entryBytes c entry) (readEntry entry)"
proof -
  let ?raw = "buildListpackWithBacklen (entryContent entry)" and ?h = "idHeader (firstMsgId entry)"
  let ?head = "le_bytes 4 (length (concat (map lpBytes (entryContent entry))) + 6) @
      le_bytes 2 (length (entryContent entry))"
  have raw: "?raw = ?head @ concat (map lpBytes (entryContent entry))"
    using entryContent_ok [OF assms] length_encodeLpEntry by (intro buildListpack_eq) blast
  have "bparses ?raw (bnd (ignoreErr [] (buf_readBytes ?raw 6)) (\<lambda>_. readStreamEntryContent ?raw (firstMsgId entry)))
      (?head @ concat (map lpBytes (entryContent entry))) (readEntry entry)"
    by (rule buf.parses_bnd [OF parses_ignoreErr [OF buf_readBytes_parses]])
      (simp, rule entryContent_parses [OF assms])
  then have body: "onBuf (bnd (ignoreErr [] (buf_readBytes ?raw 6))
      (\<lambda>_. readStreamEntryContent ?raw (firstMsgId entry))) s = (Inr (readEntry entry), s)" for s :: dstate
    unfolding raw [symmetric] by (rule onBuf_parses)
  have h: "dparses (onBuf (readStreamHeader ?h)) [] (firstMsgId entry)"
    by (rule src.parses_pure) (rule onBuf_parses [OF readStreamHeader_parses])
  have "dparses readStreamEntry (stringBytes c ?h @ ([] @ (stringBytes c ?raw @ []))) (readEntry entry)"
    unfolding readStreamEntry_def
    by (rule src.parses_bnd [OF readString_parses [OF idHeader_ok]], rule src.parses_bnd [OF h],
        rule src.parses_bnd [OF readString_parses], use assms in \<open>simp add: entry_ok_def\<close>)
      (rule src.parses_pure, rule body)
  then show ?thesis by (simp add: entryBytes_def)
qed

lemma writeEntry_writes:
  assumes "entry_ok c entry"
  shows "ewrites c (bnd (writeString (be_bytes 8 (unat (idMs (firstMsgId entry))) @
      be_bytes 8 (unat (idSequence (firstMsgId entry))))) (\<lambda>_. writeStreamEntryContent entry))
    (entryBytes c entry) ()"
  unfolding entryBytes_def writeStreamEntryContent_def idHeader_def [symmetric]
  using assms by (intro sink.writes_seq writeString_writes idHeader_ok) (simp add: entry_ok_def)

subsection \<open>Round trip of the groups\<close>

definition binIdBytes :: "stream_id \<Rightarrow> bytes" where
  "binIdBytes i = idHeader i"

definition nackBytes :: "stream_nack \<Rightarrow> bytes" where
  "nackBytes p = binIdBytes (nackId p) @ le_bytes 8 (unat (deliveryTime p)) @ lengthBytes (deliveryCount p)"

definition countedBytes :: "('a \<Rightarrow> bytes) \<Rightarrow> 'a list \<Rightarrow> bytes" where
  "countedBytes enc xs = lengthBytes (of_nat (length xs)) @ concat (map enc xs)"

definition consumerBytes :: "bool \<Rightarrow> nat \<Rightarrow> stream_consumer \<Rightarrow> bytes" where
  "consumerBytes c version k = stringBytes c (consumerName k) @ le_bytes 8 (unat (seenTime k)) @
     (if 3 \<le> version then le_bytes 8 (unat (activeTime k)) else []) @ countedBytes binIdBytes (consumerPending k)"

definition idBytes :: "stream_id \<Rightarrow> bytes" where
  "idBytes i = lengthBytes (idMs i) @ lengthBytes (idSequence i)"

definition groupBytes :: "bool \<Rightarrow> nat \<Rightarrow> stream_group \<Rightarrow> bytes" where
  "groupBytes c version g = stringBytes c (groupName g) @ idBytes (groupLastId g) @
     (if 2 \<le> version then lengthBytes (entriesRead g) else []) @
     countedBytes nackBytes (groupPending g) @ countedBytes (consumerBytes c version) (groupConsumers g)"

text \<open>
  Older versions do not store the active time and the entries read: the reader takes the
  seen time and zero.
\<close>

definition readCons :: "nat \<Rightarrow> stream_consumer \<Rightarrow> stream_consumer" where
  "readCons version k = k\<lparr>activeTime := (if 3 \<le> version then activeTime k else seenTime k)\<rparr>"

definition readGrp :: "nat \<Rightarrow> stream_group \<Rightarrow> stream_group" where
  "readGrp version g = g\<lparr>groupConsumers := map (readCons version) (groupConsumers g),
     entriesRead := (if 2 \<le> version then entriesRead g else 0)\<rparr>"

definition counted_ok :: "'a list \<Rightarrow> bool" where
  "counted_ok xs \<longleftrightarrow> int (length xs) * 8 \<le> maxAlloc"

definition consumer_ok :: "bool \<Rightarrow> stream_consumer \<Rightarrow> bool" where
  "consumer_ok c k \<longleftrightarrow> string_ok c (consumerName k) \<and> counted_ok (consumerPending k)"

definition group_ok :: "bool \<Rightarrow> stream_group \<Rightarrow> bool" where
  "group_ok c g \<longleftrightarrow> string_ok c (groupName g) \<and> counted_ok (groupPending g) \<and>
     counted_ok (groupConsumers g) \<and> list_all (consumer_ok c) (groupConsumers g)"

lemma readCounted_parses:
  assumes "counted_ok xs" "\<And>x. x \<in> set xs \<Longrightarrow> dparses m (enc x) (g x)"
  shows "dparses (readCounted 8 m) (countedBytes enc xs) (map g xs)"
proof -
  have n: "int (length xs) \<le> maxAlloc" "int (length xs) * 8 \<le> maxAlloc"
    using assms(1) by (simp_all add: counted_ok_def)
  show ?thesis
    unfolding readCounted_def countedBytes_def
    by (rule counted_parses [OF n(1)])
      (simp add: sint_of_length [OF n(1)] unat_of_length [OF n(1)] makeslice_then n(2) src.parses_readN_map assms(2))
qed

lemma readBinId_parses: "dparses readBinId (binIdBytes i) i"
  unfolding readBinId_def binIdBytes_def idHeader_def
  by (rule src.parses_bnd [OF dec_readFull_parses [OF length_be_bytes]],
      rule src.parses_bnd_ret [OF dec_readFull_parses [OF length_be_bytes]]) simp

lemma readStreamId_parses: "dparses readStreamId (idBytes i) i"
proof -
  have "dparses (bnd readLength (\<lambda>(sq, _). ret \<lparr>idMs = idMs i, idSequence = sq\<rparr>)) (lengthBytes (idSequence i) @ []) i"
    by (rule src.parses_bnd [OF readLength_parses]) (simp add: src.parses_ret)
  then have "dparses (bnd readLength (\<lambda>(ms, _). bnd readLength (\<lambda>(sq, _). ret \<lparr>idMs = ms, idSequence = sq\<rparr>)))
      (lengthBytes (idMs i) @ (lengthBytes (idSequence i) @ [])) i"
    by (intro src.parses_bnd [OF readLength_parses]) simp
  then show ?thesis by (simp add: readStreamId_def idBytes_def)
qed

lemma readNAck_parses: "dparses readNAck (nackBytes p) p"
proof -
  have r: "\<lparr>nackId = nackId p, deliveryTime = deliveryTime p, deliveryCount = deliveryCount p\<rparr> = p" by (cases p) simp
  have "dparses (bnd readLength (\<lambda>(n, _). ret \<lparr>nackId = nackId p, deliveryTime = of_nat (le_val
      (le_bytes 8 (unat (deliveryTime p)))), deliveryCount = n\<rparr>)) (lengthBytes (deliveryCount p) @ []) p"
    by (intro src.parses_bnd [OF readLength_parses]) (simp add: src.parses_ret r)
  then have "dparses readNAck (binIdBytes (nackId p) @ (le_bytes 8 (unat (deliveryTime p)) @ (lengthBytes (deliveryCount p) @ []))) p"
    unfolding readNAck_def
    by (intro src.parses_bnd [OF readBinId_parses] src.parses_bnd [OF dec_readFull_parses [OF length_le_bytes]])
  then show ?thesis by (simp add: nackBytes_def)
qed

lemma readConsumer_parses:
  assumes "consumer_ok c k"
  shows "dparses (readConsumer version) (consumerBytes c version k) (readCons version k)"
proof -
  let ?s = "le_bytes 8 (unat (seenTime k))"
  let ?a = "if 3 \<le> version then le_bytes 8 (unat (activeTime k)) else ?s"
  have a: "dparses (if 3 \<le> version then dec_readFull 8 else ret ?s)
      (if 3 \<le> version then le_bytes 8 (unat (activeTime k)) else []) ?a"
    by (simp add: dec_readFull_parses src.parses_ret)
  have pend: "dparses (readCounted 8 readBinId) (countedBytes binIdBytes (consumerPending k)) (map (\<lambda>i. i) (consumerPending k))"
    using assms by (intro readCounted_parses readBinId_parses) (simp add: consumer_ok_def)
  have r: "readCons version k = \<lparr>consumerName = consumerName k, seenTime = of_nat (le_val ?s),
      consumerPending = map (\<lambda>i. i) (consumerPending k), activeTime = of_nat (le_val ?a)\<rparr>"
    by (cases k) (simp add: readCons_def)
  show ?thesis
    unfolding readConsumer_def consumerBytes_def
    by (rule src.parses_bnd [OF readString_parses], use assms in \<open>simp add: consumer_ok_def\<close>,
        rule src.parses_bnd [OF dec_readFull_parses [OF length_le_bytes]], rule src.parses_bnd [OF a],
        rule src.parses_bnd_ret [OF pend], rule r)
qed

lemma readGroup_parses:
  assumes "group_ok c g"
  shows "dparses (readGroup version) (groupBytes c version g) (readGrp version g)"
proof -
  let ?n = "if 2 \<le> version then entriesRead g else 0"
  have n: "dparses (if 2 \<le> version then bnd readLength (\<lambda>(n, _). ret n) else ret 0)
      (if 2 \<le> version then lengthBytes (entriesRead g) else []) ?n"
    using len_codec.item [of "entriesRead g"] by (simp add: src.parses_ret)
  have pend: "dparses (readCounted 8 readNAck) (countedBytes nackBytes (groupPending g)) (map (\<lambda>p. p) (groupPending g))"
    using assms by (intro readCounted_parses readNAck_parses) (simp add: group_ok_def)
  have cons: "dparses (readCounted 8 (readConsumer version)) (countedBytes (consumerBytes c version) (groupConsumers g))
      (map (readCons version) (groupConsumers g))"
    using assms by (intro readCounted_parses readConsumer_parses) (auto simp: group_ok_def list_all_iff)
  have r: "readGrp version g = \<lparr>groupName = groupName g, groupLastId = groupLastId g,
      groupPending = map (\<lambda>p. p) (groupPending g), groupConsumers = map (readCons version) (groupConsumers g),
      entriesRead = ?n\<rparr>"
    by (cases g) (simp add: readGrp_def)
  show ?thesis
    unfolding readGroup_def groupBytes_def
    by (rule src.parses_bnd [OF dparses_ignoreErr [OF readString_parses]], use assms in \<open>simp add: group_ok_def\<close>,
        rule src.parses_bnd [OF readStreamId_parses], rule src.parses_bnd [OF n],
        rule src.parses_bnd [OF pend], rule src.parses_bnd_ret [OF cons], rule r)
qed

subsection \<open>Round trip of a stream\<close>

definition streamPayload :: "bool \<Rightarrow> stream_object \<Rightarrow> bytes" where
  "streamPayload c s = countedBytes (entryBytes c) (streamEntries s) @ lengthBytes (streamLength s) @
     idBytes (lastId s) @
     (if 2 \<le> streamVersion s
      then idBytes (orZero (firstId s)) @ idBytes (orZero (maxDeletedId s)) @ lengthBytes (addedEntriesCount s)
      else []) @
     countedBytes (groupBytes c (streamVersion s)) (streamGroups s)"

definition stream_ok :: "bool \<Rightarrow> stream_object \<Rightarrow> bool" where
  "stream_ok c s \<longleftrightarrow> streamVersion s \<in> {1, 2, 3} \<and> counted_ok (streamEntries s) \<and> counted_ok (streamGroups s) \<and>
     list_all (entry_ok c) (streamEntries s) \<and> list_all (group_ok c) (streamGroups s)"

text \<open>The stream as it is read back: what its version does not store is lost.\<close>

definition readStream :: "stream_object \<Rightarrow> stream_object" where
  "readStream s = s\<lparr>streamEntries := map readEntry (streamEntries s),
     streamGroups := map (readGrp (streamVersion s)) (streamGroups s),
     firstId := (if 2 \<le> streamVersion s then Some (orZero (firstId s)) else None),
     maxDeletedId := (if 2 \<le> streamVersion s then Some (orZero (maxDeletedId s)) else None),
     addedEntriesCount := (if 2 \<le> streamVersion s then addedEntriesCount s else 0)\<rparr>"

lemma readStreamV2_parses:
  "dparses (readStreamV2 v)
     (if 2 \<le> v then idBytes i @ idBytes j @ lengthBytes n else [])
     (if 2 \<le> v then (Some i, Some j, n) else (None, None, 0))"
proof (cases "2 \<le> v")
  case True
  have "dparses (bnd readLength (\<lambda>(n, _). ret (Some i, Some j, n))) (lengthBytes n @ []) (Some i, Some j, n)"
    by (rule src.parses_bnd [OF readLength_parses]) (simp add: src.parses_ret)
  then have "dparses (readStreamV2 v) (idBytes i @ (idBytes j @ (lengthBytes n @ []))) (Some i, Some j, n)"
    unfolding readStreamV2_def if_P [OF True] by (intro src.parses_bnd [OF readStreamId_parses])
  with True show ?thesis by simp
qed (simp add: readStreamV2_def src.parses_ret)

lemma readStreamListPacks_parses:
  assumes "stream_ok c s"
  shows "dparses (readStreamListPacks (streamVersion s)) (streamPayload c s) (readStream s)"
proof -
  let ?v = "streamVersion s"
  have es: "dparses readStreamEntries (countedBytes (entryBytes c) (streamEntries s)) (map readEntry (streamEntries s))"
  proof -
    have n: "int (length (streamEntries s)) \<le> maxAlloc"
      using assms by (auto simp: stream_ok_def counted_ok_def)
    show ?thesis
      unfolding readStreamEntries_def countedBytes_def
      using assms by (intro counted_parses [OF n])
        (auto simp: unat_of_length [OF n] stream_ok_def list_all_iff intro!: src.parses_readN_map readStreamEntry_parses)
  qed
  have gs: "dparses (readStreamGroups ?v) (countedBytes (groupBytes c ?v) (streamGroups s))
      (map (readGrp ?v) (streamGroups s))"
    unfolding readStreamGroups_def
    using assms by (intro readCounted_parses readGroup_parses) (auto simp: stream_ok_def list_all_iff)
  have r: "readStream s = (case (if 2 \<le> ?v then (Some (orZero (firstId s)), Some (orZero (maxDeletedId s)), addedEntriesCount s)
      else (None, None, 0)) of (f, m, a) \<Rightarrow> \<lparr>streamVersion = ?v, streamEntries = map readEntry (streamEntries s),
      streamGroups = map (readGrp ?v) (streamGroups s), streamLength = streamLength s, lastId = lastId s,
      firstId = f, maxDeletedId = m, addedEntriesCount = a\<rparr>)"
    by (cases s) (simp add: readStream_def)
  have tail: "dparses (case x of (fst', mx, added) \<Rightarrow> bnd (readStreamGroups ?v) (\<lambda>groups.
      ret \<lparr>streamVersion = ?v, streamEntries = map readEntry (streamEntries s), streamGroups = groups,
        streamLength = streamLength s, lastId = lastId s, firstId = fst', maxDeletedId = mx, addedEntriesCount = added\<rparr>))
      (countedBytes (groupBytes c ?v) (streamGroups s))
      (case x of (f, m, a) \<Rightarrow> \<lparr>streamVersion = ?v, streamEntries = map readEntry (streamEntries s),
      streamGroups = map (readGrp ?v) (streamGroups s), streamLength = streamLength s, lastId = lastId s,
      firstId = f, maxDeletedId = m, addedEntriesCount = a\<rparr>)" for x
    by (cases x) (simp add: src.parses_bnd_ret [OF gs])
  have len: "dparses (case (streamLength s, False) of (len, _) \<Rightarrow> bnd readStreamId (\<lambda>lst.
     bnd (readStreamV2 ?v) (\<lambda>(fst', mx, added). bnd (readStreamGroups ?v) (\<lambda>groups.
     ret \<lparr>streamVersion = ?v, streamEntries = map readEntry (streamEntries s), streamGroups = groups,
          streamLength = len, lastId = lst, firstId = fst', maxDeletedId = mx, addedEntriesCount = added\<rparr>))))
     (idBytes (lastId s) @ (if 2 \<le> ?v then idBytes (orZero (firstId s)) @ idBytes (orZero (maxDeletedId s)) @
        lengthBytes (addedEntriesCount s) else []) @ countedBytes (groupBytes c ?v) (streamGroups s)) (readStream s)"
    unfolding prod.case r
    by (rule src.parses_bnd [OF readStreamId_parses], rule src.parses_bnd [OF readStreamV2_parses]) (rule tail)
  show ?thesis
    unfolding readStreamListPacks_def streamPayload_def
    by (rule src.parses_bnd [OF es], rule src.parses_bnd [OF readLength_parses], rule len)
qed

lemma writeStreamId_writes: "ewrites c (writeStreamId i) (idBytes i) ()"
  unfolding writeStreamId_def idBytes_def by (intro sink.writes_seq writeLength_writes)

lemma writeBinId_writes: "ewrites c (writeBinId i) (binIdBytes i) ()"
  unfolding writeBinId_def binIdBytes_def idHeader_def by (intro sink.writes_seq enc_write_writes)

lemma writeNAck_writes: "ewrites c (writeNAck p) (nackBytes p) ()"
  unfolding writeNAck_def nackBytes_def
  by (intro sink.writes_seq writeBinId_writes enc_write_writes writeLength_writes)

lemma writes_if:
  "ewrites c m bs () \<Longrightarrow> ewrites c (if b then m else ret ()) (if b then bs else []) ()"
  by (simp add: sink.writes_ret)

lemma writeConsumer_writes:
  "consumer_ok c k \<Longrightarrow> ewrites c (writeConsumer version k) (consumerBytes c version k) ()"
  unfolding writeConsumer_def consumerBytes_def countedBytes_def
  by (intro sink.writes_seq writes_if writeString_writes enc_write_writes writeLength_writes
      sink.writes_forEach writeBinId_writes) (simp add: consumer_ok_def)

lemma writeGroup_writes:
  assumes "group_ok c g"
  shows "ewrites c (writeGroup version g) (groupBytes c version g) ()"
proof -
  have "ewrites c (writeGroup version g) (stringBytes c (groupName g) @ idBytes (groupLastId g) @
     (if 2 \<le> version then lengthBytes (entriesRead g) else []) @
     lengthBytes (of_nat (length (groupPending g))) @ concat (map nackBytes (groupPending g)) @
     lengthBytes (of_nat (length (groupConsumers g))) @ concat (map (consumerBytes c version) (groupConsumers g))) ()"
    unfolding writeGroup_def using assms
    by (intro sink.writes_seq writes_if writeString_writes writeStreamId_writes writeLength_writes
        sink.writes_forEach writeNAck_writes writeConsumer_writes) (auto simp: group_ok_def list_all_iff)
  then show ?thesis by (simp add: groupBytes_def countedBytes_def)
qed

lemma writeStreamBody_writes:
  assumes "string_ok c key" "stream_ok c s"
  shows "ewrites c (writeStreamBody key s)
    (streamType (streamVersion s) # stringBytes c key @ streamPayload c s) ()"
proof -
  have es: "ewrites c (writeStreamEntries (streamEntries s)) (countedBytes (entryBytes c) (streamEntries s)) ()"
    unfolding writeStreamEntries_def countedBytes_def using assms(2)
    by (intro sink.writes_seq writeLength_writes sink.writes_forEach writeEntry_writes)
      (auto simp: stream_ok_def list_all_iff)
  have gs: "ewrites c (writeStreamGroups (streamGroups s) (streamVersion s))
      (countedBytes (groupBytes c (streamVersion s)) (streamGroups s)) ()"
    unfolding writeStreamGroups_def countedBytes_def using assms(2)
    by (intro sink.writes_seq writeLength_writes sink.writes_forEach writeGroup_writes)
      (auto simp: stream_ok_def list_all_iff)
  have "ewrites c (writeStreamBody key s) ([streamType (streamVersion s)] @ stringBytes c key @ streamPayload c s) ()"
    unfolding writeStreamBody_def streamPayload_def
    by (intro sink.writes_seq writes_if es gs enc_write_writes writeString_writes writeLength_writes
        writeStreamId_writes assms(1))
  then show ?thesis by simp
qed

subsection \<open>Movement\<close>

lemma readCounted_advances: "dadvances m \<Longrightarrow> dadvances (readCounted k m)"
  unfolding readCounted_def by (intro string_advances)

lemma readBinId_advances: "dadvances readBinId"
  unfolding readBinId_def by (intro string_advances)

lemma readStreamId_advances: "dadvances readStreamId"
  unfolding readStreamId_def by (intro string_advances)

lemma readStreamListPacks_advances: "dadvances (readStreamListPacks v)"
  unfolding readStreamListPacks_def readStreamEntries_def readStreamEntry_def readStreamV2_def
    readStreamGroups_def readGroup_def readConsumer_def readNAck_def
  by (intro string_advances readCounted_advances readBinId_advances readStreamId_advances)

end
