(* ===== verification/Model.thy ===== *)
theory Model
  imports Streams
begin

section \<open>Redis objects (model/model.go)\<close>

text \<open>
  The objects the decoder hands to its callback: the struct \<^verbatim>\<open>BaseObject\<close> every object
  embeds, the ten object types as the constructors of one datatype (the interface
  \<^verbatim>\<open>RedisObject\<close>), and the methods of the interface with their overrides.  An
  expiration is the Unix time in nanoseconds of the \<^verbatim>\<open>time.Time\<close> value.  The fields
  \<^verbatim>\<open>Fields\<close>, \<^verbatim>\<open>Hash\<close> and \<^verbatim>\<open>FieldExpirations\<close> are association lists with distinct keys.
  The value a module handler returns has the caller's own type \<open>'v\<close>.
\<close>

definition StringType :: bytes where "StringType = strlit ''string''"
definition ListType :: bytes where "ListType = strlit ''list''"
definition SetType :: bytes where "SetType = strlit ''set''"
definition HashType :: bytes where "HashType = strlit ''hash''"
definition ZSetType :: bytes where "ZSetType = strlit ''zset''"
definition AuxType :: bytes where "AuxType = strlit ''aux''"
definition DBSizeType :: bytes where "DBSizeType = strlit ''dbsize''"
definition StreamType :: bytes where "StreamType = strlit ''stream''"
definition FunctionsType :: bytes where "FunctionsType = strlit ''functions''"

definition StringEncoding :: bytes where "StringEncoding = strlit ''string''"
definition ListEncoding :: bytes where "ListEncoding = strlit ''list''"
definition SetEncoding :: bytes where "SetEncoding = strlit ''set''"
definition ZSetEncoding :: bytes where "ZSetEncoding = strlit ''zset''"
definition HashEncoding :: bytes where "HashEncoding = strlit ''hash''"
definition HashExEncoding :: bytes where "HashExEncoding = strlit ''hashex''"
definition ZSet2Encoding :: bytes where "ZSet2Encoding = strlit ''zset2''"
definition ZipMapEncoding :: bytes where "ZipMapEncoding = strlit ''zipmap''"
definition ZipListEncoding :: bytes where "ZipListEncoding = strlit ''ziplist''"
definition IntSetEncoding :: bytes where "IntSetEncoding = strlit ''intset''"
definition QuickListEncoding :: bytes where "QuickListEncoding = strlit ''quicklist''"
definition ListPackEncoding :: bytes where "ListPackEncoding = strlit ''listpack''"
definition ListPackExEncoding :: bytes where "ListPackExEncoding = strlit ''listpackex''"
definition QuickList2Encoding :: bytes where "QuickList2Encoding = strlit ''quicklist2''"

lemmas encoding_consts =
  StringEncoding_def ListEncoding_def SetEncoding_def ZSetEncoding_def HashEncoding_def
  HashExEncoding_def ZSet2Encoding_def ZipMapEncoding_def ZipListEncoding_def IntSetEncoding_def
  QuickListEncoding_def ListPackEncoding_def ListPackExEncoding_def QuickList2Encoding_def

lemmas otype_consts =
  StringType_def ListType_def SetType_def HashType_def ZSetType_def AuxType_def DBSizeType_def
  StreamType_def FunctionsType_def

record base_object =
  baseDB :: int
  baseKey :: bytes
  baseExpiration :: "int option"
  baseSize :: int
  baseType :: bytes
  baseEncoding :: bytes
  baseExtra :: "detail option"
  baseIdleTime :: "int option"
  baseFreq :: "int option"

definition emptyBase :: base_object where
  "emptyBase = \<lparr>baseDB = 0, baseKey = [], baseExpiration = None, baseSize = 0, baseType = [],
     baseEncoding = [], baseExtra = None, baseIdleTime = None, baseFreq = None\<rparr>"

text \<open>The methods of \<^verbatim>\<open>BaseObject\<close>.\<close>

definition base_GetIdleTime :: "base_object \<Rightarrow> int" where
  "base_GetIdleTime o' = (case baseIdleTime o' of None \<Rightarrow> - 1 | Some t \<Rightarrow> t)"

definition base_GetFreq :: "base_object \<Rightarrow> int" where
  "base_GetFreq o' = (case baseFreq o' of None \<Rightarrow> - 1 | Some t \<Rightarrow> t)"

definition base_GetElemCount :: "base_object \<Rightarrow> nat" where
  "base_GetElemCount o' = 0"

subsection \<open>Objects\<close>

datatype 'v redis_object =
    StringObject base_object bytes
  | ListObject base_object "bytes list"
  | HashObject base_object hash expirations
  | SetObject base_object "bytes list"
  | ZSetObject base_object "zset_entry list"
  | StreamObject base_object stream_object
  | AuxObject base_object bytes
  | FunctionsObject base_object bytes
  | DBSizeObject base_object u64 u64
  | ModuleTypeObject base_object bytes 'v

fun baseOf :: "'v redis_object \<Rightarrow> base_object" where
  "baseOf (StringObject b _) = b"
| "baseOf (ListObject b _) = b"
| "baseOf (HashObject b _ _) = b"
| "baseOf (SetObject b _) = b"
| "baseOf (ZSetObject b _) = b"
| "baseOf (StreamObject b _) = b"
| "baseOf (AuxObject b _) = b"
| "baseOf (FunctionsObject b _) = b"
| "baseOf (DBSizeObject b _ _) = b"
| "baseOf (ModuleTypeObject b _ _) = b"

text \<open>
  The code shares one \<^verbatim>\<open>*BaseObject\<close> between the decoder and the object and fills it in
  later; \<open>withBase f\<close> is such an update through the shared pointer.
\<close>

fun withBase :: "(base_object \<Rightarrow> base_object) \<Rightarrow> 'v redis_object \<Rightarrow> 'v redis_object" where
  "withBase f (StringObject b v) = StringObject (f b) v"
| "withBase f (ListObject b v) = ListObject (f b) v"
| "withBase f (HashObject b h x) = HashObject (f b) h x"
| "withBase f (SetObject b v) = SetObject (f b) v"
| "withBase f (ZSetObject b v) = ZSetObject (f b) v"
| "withBase f (StreamObject b v) = StreamObject (f b) v"
| "withBase f (AuxObject b v) = AuxObject (f b) v"
| "withBase f (FunctionsObject b v) = FunctionsObject (f b) v"
| "withBase f (DBSizeObject b k t) = DBSizeObject (f b) k t"
| "withBase f (ModuleTypeObject b m v) = ModuleTypeObject (f b) m v"

lemma baseOf_withBase [simp]: "baseOf (withBase f x) = f (baseOf x)"
  by (cases x) simp_all

fun GetType :: "'v redis_object \<Rightarrow> bytes" where
  "GetType (StringObject _ _) = StringType"
| "GetType (ListObject _ _) = ListType"
| "GetType (HashObject _ _ _) = HashType"
| "GetType (SetObject _ _) = SetType"
| "GetType (ZSetObject _ _) = ZSetType"
| "GetType (StreamObject _ _) = StreamType"
| "GetType (AuxObject _ _) = AuxType"
| "GetType (FunctionsObject _ _) = FunctionsType"
| "GetType (DBSizeObject _ _ _) = DBSizeType"
| "GetType (ModuleTypeObject _ moduleType _) = moduleType"

lemma GetType_withBase [simp]: "GetType (withBase f x) = GetType x"
  by (cases x) simp_all

definition GetKey :: "'v redis_object \<Rightarrow> bytes" where
  "GetKey x = baseKey (baseOf x)"

definition GetDBIndex :: "'v redis_object \<Rightarrow> int" where
  "GetDBIndex x = baseDB (baseOf x)"

definition GetEncoding :: "'v redis_object \<Rightarrow> bytes" where
  "GetEncoding x = baseEncoding (baseOf x)"

definition GetExpiration :: "'v redis_object \<Rightarrow> int option" where
  "GetExpiration x = baseExpiration (baseOf x)"

definition GetSize :: "'v redis_object \<Rightarrow> int" where
  "GetSize x = baseSize (baseOf x)"

definition GetIdleTime :: "'v redis_object \<Rightarrow> int" where
  "GetIdleTime x = base_GetIdleTime (baseOf x)"

definition GetFreq :: "'v redis_object \<Rightarrow> int" where
  "GetFreq x = base_GetFreq (baseOf x)"

fun GetElemCount :: "'v redis_object \<Rightarrow> nat" where
  "GetElemCount (ListObject _ vals) = length vals"
| "GetElemCount (HashObject _ h _) = length h"
| "GetElemCount (SetObject _ members) = length members"
| "GetElemCount (ZSetObject _ entries) = length entries"
| "GetElemCount x = base_GetElemCount (baseOf x)"

text \<open>The text form of a stream id: \<^verbatim>\<open>ms-sequence\<close>.\<close>

definition streamIdText :: "stream_id \<Rightarrow> bytes" where
  "streamIdText i = itoa (uint (idMs i)) @ strlit ''-'' @ itoa (uint (idSequence i))"

end
