(* ===== verification/MemProfiler.thy ===== *)
theory MemProfiler
  imports Model
begin

section \<open>Memory estimates (memprofiler)\<close>

text \<open>
  \<^verbatim>\<open>SizeOfObject\<close> and the estimates it adds up.  Sizes are unbounded integers: every sum
  is over data that fits in memory.  The results are values of \<open>res\<close> because two
  expressions of the code can panic: the class lookup past the largest class, and the
  index expressions of \<^verbatim>\<open>sizeOfQuicklist2\<close>.  The floating-point factors are exact on the
  arguments used: \<^verbatim>\<open>round (16 * 1.33) = 21\<close>, and \<^verbatim>\<open>int (n * 2.5) = 5 * n div 2\<close>.
\<close>

subsection \<open>Size classes\<close>

definition jemallocClasses :: "int list" where
  "jemallocClasses = [
    8, 16, 24, 32, 40, 48, 56, 64, 80, 96, 112, 128, 160, 192, 224, 256, 320, 384, 448, 512, 640,
    768, 896, 1024, 1280, 1536, 1792, 2048, 2560, 3072, 3584, 4096, 5120, 6144, 7168, 8192, 10240,
    12288, 14336, 16384, 20480, 24576, 28672, 32768, 40960, 49152, 57344, 65536, 81920, 98304,
    114688, 131072, 163840, 196608, 229376, 262144, 327680, 393216, 458752, 524288, 655360,
    786432, 917504, 1048576, 1310720, 1572864, 1835008, 2097152, 2621440, 3145728, 3670016,
    4194304, 5242880, 6291456, 7340032, 8388608, 10485760, 12582912, 14680064, 16777216, 20971520,
    25165824, 29360128, 33554432, 41943040, 50331648, 58720256, 67108864, 83886080, 100663296,
    117440512, 134217728, 167772160, 201326592, 234881024, 268435456, 335544320, 402653184,
    469762048, 536870912, 671088640, 805306368, 939524096, 1073741824, 1342177280, 1610612736,
    1879048192, 2147483648, 2684354560, 3221225472, 3758096384, 4294967296, 5368709120,
    6442450944, 7516192768, 8589934592, 10737418240, 12884901888, 15032385536, 17179869184,
    21474836480, 25769803776, 30064771072, 34359738368, 42949672960, 51539607552, 60129542144,
    68719476736, 85899345920, 103079215104, 120259084288, 137438953472, 171798691840,
    206158430208, 240518168576, 274877906944, 343597383680, 412316860416, 481036337152,
    549755813888, 687194767360, 824633720832, 962072674304, 1099511627776, 1374389534720,
    1649267441664, 1924145348608, 2199023255552, 2748779069440, 3298534883328, 3848290697216,
    4398046511104, 5497558138880, 6597069766656, 7696581394432, 8796093022208, 10995116277760,
    13194139533312, 15393162788864, 17592186044416, 21990232555520, 26388279066624,
    30786325577728, 35184372088832, 43980465111040, 52776558133248, 61572651155456,
    70368744177664, 87960930222080, 105553116266496, 123145302310912, 140737488355328,
    175921860444160, 211106232532992, 246290604621824, 281474976710656, 351843720888320,
    422212465065984, 492581209243648, 562949953421312, 703687441776640, 844424930131968,
    985162418487296, 1125899906842624, 1407374883553280, 1688849860263936, 1970324836974592,
    2251799813685248, 2814749767106560, 3377699720527872, 3940649673949184, 4503599627370496,
    5629499534213120, 6755399441055744, 7881299347898368, 9007199254740992, 11258999068426240,
    13510798882111488, 15762598695796736, 18014398509481984, 22517998136852480, 27021597764222976,
    31525197391593472, 36028797018963968, 45035996273704960, 54043195528445952, 63050394783186944,
    72057594037927936, 90071992547409920, 108086391056891904, 126100789566373888,
    144115188075855872, 180143985094819840, 216172782113783808, 252201579132747776,
    288230376151711744, 360287970189639680, 432345564227567616, 504403158265495552,
    576460752303423488, 720575940379279360, 864691128455135232, 1008806316530991104,
    1152921504606846976, 1441151880758558720, 1729382256910270464, 2017612633061982208,
    2305843009213693952, 2882303761517117440, 3458764513820540928, 4035225266123964416,
    4611686018427387904, 5764607523034234880, 6917529027641081856, 8070450532247928832
]"

text \<open>\<^verbatim>\<open>sort.Search\<close>: the least index of a monotone predicate, by bisection.\<close>

function sortSearch :: "nat \<Rightarrow> nat \<Rightarrow> (nat \<Rightarrow> bool) \<Rightarrow> nat" where
  "sortSearch i j f =
     (if i < j
      then let h = (i + j) div 2 in if \<not> f h then sortSearch (h + 1) j f else sortSearch i h f
      else i)"
  by pat_completeness auto
termination by (relation "measure (\<lambda>(i, j, _). j - i)") auto

declare sortSearch.simps [simp del]

definition getJemallocSize :: "int \<Rightarrow> int res" where
  "getJemallocSize req =
     (let i = sortSearch 0 (length jemallocClasses) (\<lambda>i. req \<le> jemallocClasses ! i)
      in if i < length jemallocClasses then Inr (jemallocClasses ! i)
         else Inl (GoPanic ''index out of range''))"

definition sizeOfString :: "bytes \<Rightarrow> int res" where
  "sizeOfString str =
     (if parseInt 64 str \<noteq> None then Inr 0
      else let n = int (length str) in
        if n < 32 then getJemallocSize (n + 1 + 1)
        else if n < 256 then getJemallocSize (n + 2 + 1)
        else if n < 25536 then getJemallocSize (n + 1 + 4 + 1)
        else if n < 4294967296 then getJemallocSize (n + 1 + 8 + 1)
        else getJemallocSize (n + 1 + 16 + 1))"

subsection \<open>Fixed costs\<close>

definition sizeOfPointer :: int where "sizeOfPointer = 8"
definition sizeOfLong :: int where "sizeOfLong = 8"
definition redisObjOverhead :: int where "redisObjOverhead = sizeOfPointer + 8"
definition hashTableEntryOverhead :: int where "hashTableEntryOverhead = 2 * sizeOfPointer + 8"
definition expiryOverhead :: int where "expiryOverhead = hashTableEntryOverhead + 8"

function nextPowerFrom :: "nat \<Rightarrow> nat \<Rightarrow> nat" where
  "nextPowerFrom p n =
     (if 0 < p \<and> p \<le> n then nextPowerFrom (2 * p) n else p)"
  by pat_completeness auto
termination by (relation "measure (\<lambda>(p, n). n + 1 - p)") auto

declare nextPowerFrom.simps [simp del]

definition nextPower :: "nat \<Rightarrow> nat" where
  "nextPower n = nextPowerFrom 1 n"

definition hashtableOverhead :: "nat \<Rightarrow> int" where
  "hashtableOverhead n =
     4 + 7 * sizeOfLong + 4 * sizeOfPointer + int (nextPower n) * sizeOfPointer * 3 div 2"

text \<open>Add up costs, stopping at a panic.\<close>

definition addSize :: "int \<Rightarrow> int res \<Rightarrow> int res" where
  "addSize a r = (case r of Inl e \<Rightarrow> Inl e | Inr b \<Rightarrow> Inr (a + b))"

fun sumSizes :: "int \<Rightarrow> int res list \<Rightarrow> int res" where
  "sumSizes a [] = Inr a"
| "sumSizes a (Inl e # rs) = Inl e"
| "sumSizes a (Inr b # rs) = sumSizes (a + b) rs"

definition topLevelObjectOverhead :: "bytes \<Rightarrow> bool \<Rightarrow> int res" where
  "topLevelObjectOverhead key hasTTL =
     sumSizes hashTableEntryOverhead
       ([sizeOfString key, Inr redisObjOverhead] @ (if hasTTL then [Inr expiryOverhead] else []))"

subsection \<open>Lists\<close>

definition zipListIntEntryOverhead :: "int \<Rightarrow> int" where
  "zipListIntEntryOverhead v =
     (let header = 1;
          sz = (if v < 12 then 0 else if v < 2 ^ 8 then 1 else if v < 2 ^ 16 then 2
                  else if v < 2 ^ 24 then 3 else if v < 2 ^ 32 then 4 else 8);
          prevLen = (if sz < 254 then 5 else 1)
      in prevLen + header + sz)"

definition zipListStrEntryOverhead :: "bytes \<Rightarrow> int" where
  "zipListStrEntryOverhead v =
     (let sz = int (length v);
          header = (if sz \<le> 63 then 1 else if sz \<le> 1 then 2 else 5);
          prevLen = (if sz < 254 then 5 else 1)
      in prevLen + header + sz)"

definition sizeOfZiplist :: "bytes list \<Rightarrow> int" where
  "sizeOfZiplist vals =
     foldl (\<lambda>total str. total + (case parseInt 64 str of
         None \<Rightarrow> zipListStrEntryOverhead str
       | Some i \<Rightarrow> zipListIntEntryOverhead i)) (4 + 4 + 2 + 1) vals"

definition sizeOfQuicklist :: "bytes list list \<Rightarrow> int" where
  "sizeOfQuicklist ziplists =
     (let nodeOverhead = 4 * sizeOfPointer + sizeOfLong + 2 * 4 in
      foldl (\<lambda>total zl. total + sizeOfZiplist zl)
        (2 * sizeOfPointer + sizeOfLong + 2 * 4 + int (length ziplists) * nodeOverhead) ziplists)"

text \<open>One node of \<^verbatim>\<open>sizeOfQuicklist2\<close>: both index expressions may be out of range.\<close>

definition quick2Node :: "bytes list \<Rightarrow> u32 list list \<Rightarrow> nat \<Rightarrow> int \<Rightarrow> int res" where
  "quick2Node vals entrySizes i enc =
     (if enc = quicklistNodeContainerPlain
      then if i < length vals then sizeOfString (vals ! i)
           else Inl (GoPanic ''index out of range'')
      else if i < length entrySizes
           then Inr (4 + 2 + 1 + sum_list (map uint (entrySizes ! i)))
           else Inl (GoPanic ''index out of range''))"

definition sizeOfQuicklist2 :: "bytes list \<Rightarrow> int list \<Rightarrow> u32 list list \<Rightarrow> int res" where
  "sizeOfQuicklist2 vals encs entrySizes =
     (let nodeOverhead = 3 * sizeOfPointer + sizeOfLong + 4 in
      sumSizes (2 * sizeOfPointer + 2 * sizeOfLong + 2 * 4 + nodeOverhead * int (length encs))
        (map (\<lambda>(i, enc). quick2Node vals entrySizes i enc) (enumerate 0 encs)))"

definition sizeOfList :: "bytes list \<Rightarrow> int res" where
  "sizeOfList vals =
     (let entryHeadSize = 3 * sizeOfPointer in
      sumSizes (5 * sizeOfPointer + sizeOfLong + int (length vals) * entryHeadSize)
        (map sizeOfString vals))"

text \<open>
  The type assertion on \<^verbatim>\<open>Extra\<close> panics when the object carries no detail of that kind.
\<close>

definition badAssertion :: "int res" where
  "badAssertion = Inl (GoPanic ''interface conversion'')"

definition sizeOfListObject :: "base_object \<Rightarrow> bytes list \<Rightarrow> int res" where
  "sizeOfListObject b vals =
     (if baseEncoding b = QuickListEncoding then
        (case baseExtra b of Some (QuicklistDetail zls) \<Rightarrow> Inr (sizeOfQuicklist zls) | _ \<Rightarrow> badAssertion)
      else if baseEncoding b = ListEncoding then sizeOfList vals
      else if baseEncoding b = ZipListEncoding then Inr (sizeOfZiplist vals)
      else if baseEncoding b = QuickList2Encoding then
        (case baseExtra b of Some (Quicklist2Detail encs szs) \<Rightarrow> sizeOfQuicklist2 vals encs szs
         | _ \<Rightarrow> badAssertion)
      else Inr 0)"

subsection \<open>Hashes, sets, sorted sets and streams\<close>

definition rawZiplist :: "base_object \<Rightarrow> int res" where
  "rawZiplist b = (case baseExtra b of Some (ZiplistDetail n) \<Rightarrow> Inr (int n) | _ \<Rightarrow> badAssertion)"

definition rawListpack :: "base_object \<Rightarrow> int res" where
  "rawListpack b = (case baseExtra b of Some (ListpackDetail n) \<Rightarrow> Inr (int n) | _ \<Rightarrow> badAssertion)"

definition rawIntset :: "base_object \<Rightarrow> int res" where
  "rawIntset b = (case baseExtra b of Some (IntsetDetail n) \<Rightarrow> Inr (int n) | _ \<Rightarrow> badAssertion)"

definition sizeOfHashObject :: "base_object \<Rightarrow> hash \<Rightarrow> int res" where
  "sizeOfHashObject b h =
     (if baseEncoding b = ZipListEncoding then rawZiplist b
      else if baseEncoding b = ListPackEncoding then rawListpack b
      else sumSizes (hashtableOverhead (length h))
        (concat (map (\<lambda>(k, v). [Inr hashTableEntryOverhead, sizeOfString k, sizeOfString v]) h)))"

definition sizeOfSetObject :: "base_object \<Rightarrow> bytes list \<Rightarrow> int res" where
  "sizeOfSetObject b members =
     (if baseEncoding b = IntSetEncoding then rawIntset b
      else if baseEncoding b = ListPackEncoding then rawListpack b
      else sumSizes (hashtableOverhead (length members))
        (map (\<lambda>v. addSize hashTableEntryOverhead (sizeOfString v)) members))"

definition skipListOverhead :: "nat \<Rightarrow> int" where
  "skipListOverhead n = 2 * sizeOfPointer + hashtableOverhead n + (2 * sizeOfPointer + 16)"

definition skipListEntryOverhead :: int where
  "skipListEntryOverhead =
     hashTableEntryOverhead + 2 * sizeOfPointer + 8 + ((sizeOfPointer + 8) * 133 + 50) div 100"

definition sizeOfZSetObject :: "base_object \<Rightarrow> zset_entry list \<Rightarrow> int res" where
  "sizeOfZSetObject b entries =
     (if baseEncoding b = ZipListEncoding then rawZiplist b
      else if baseEncoding b = ListPackEncoding then rawListpack b
      else sumSizes (skipListOverhead (length entries))
        (map (\<lambda>entry. addSize (8 + skipListEntryOverhead) (sizeOfString (zMember entry))) entries))"

definition sizeOfStreamRaxTree :: "nat \<Rightarrow> int" where
  "sizeOfStreamRaxTree elementCount =
     (let nodeCount = int elementCount * 5 div 2
      in 16 * int elementCount + 4 * nodeCount + 30 * sizeOfLong * nodeCount)"

definition sizeOfConsumer :: "stream_consumer \<Rightarrow> int res" where
  "sizeOfConsumer c =
     sumSizes (sizeOfPointer * 2 + 8)
       [sizeOfString (consumerName c), Inr (sizeOfStreamRaxTree (length (consumerPending c)))]"

definition sizeOfGroup :: "nat \<Rightarrow> stream_group \<Rightarrow> int res" where
  "sizeOfGroup version g =
     (let pendingCount = length (groupPending g) in
      sumSizes (sizeOfPointer * 2 + 16 + (if 2 \<le> version then 8 else 0) +
          (sizeOfStreamRaxTree pendingCount + int pendingCount * (sizeOfPointer + 8 * 2)))
        (map sizeOfConsumer (groupConsumers g)))"

definition sizeOfStreamObject :: "stream_object \<Rightarrow> int res" where
  "sizeOfStreamObject s =
     sumSizes (sizeOfPointer * 2 + 8 + 16 + sizeOfPointer + 8 * 2 +
         sizeOfStreamRaxTree (length (streamEntries s)) +
         (if 2 \<le> streamVersion s then 16 * 2 + 8 else 0))
       (map (sizeOfGroup (streamVersion s)) (streamGroups s))"

subsection \<open>Objects\<close>

fun sizeOfValue :: "'v redis_object \<Rightarrow> int res" where
  "sizeOfValue (StringObject b val) = sizeOfString val"
| "sizeOfValue (ListObject b vals) = sizeOfListObject b vals"
| "sizeOfValue (SetObject b members) = sizeOfSetObject b members"
| "sizeOfValue (HashObject b h x) = sizeOfHashObject b h"
| "sizeOfValue (ZSetObject b entries) = sizeOfZSetObject b entries"
| "sizeOfValue (StreamObject b s) = sizeOfStreamObject s"
| "sizeOfValue _ = Inr 0"

definition SizeOfObject :: "'v redis_object \<Rightarrow> int res" where
  "SizeOfObject obj =
     (case topLevelObjectOverhead (GetKey obj) (GetExpiration obj \<noteq> None) of
        Inl e \<Rightarrow> Inl e
      | Inr n \<Rightarrow> addSize n (sizeOfValue obj))"


subsection \<open>The class lookup\<close>

lemma sortSearch_spec:
  assumes "i \<le> j" "\<And>a b. a \<le> b \<Longrightarrow> b < j \<Longrightarrow> f a \<Longrightarrow> f b"
    "\<And>k. k < i \<Longrightarrow> \<not> f k"
  shows "sortSearch i j f \<le> j \<and> (\<forall>k < sortSearch i j f. \<not> f k) \<and>
    (sortSearch i j f < j \<longrightarrow> f (sortSearch i j f))"
  using assms
proof (induction i j f rule: sortSearch.induct)
  case (1 i j f)
  show ?case
  proof (cases "i < j")
    case False
    then have "sortSearch i j f = i" by (simp add: sortSearch.simps [of i j])
    with False 1(3,5) show ?thesis by auto
  next
    case True
    let ?h = "(i + j) div 2"
    have h: "i \<le> ?h" "?h < j" using True by auto
    show ?thesis
    proof (cases "f ?h")
      case True
      have eq: "sortSearch i j f = sortSearch i ?h f"
        using \<open>i < j\<close> True by (simp add: sortSearch.simps [of i j] Let_def)
      have "sortSearch i ?h f \<le> ?h \<and> (\<forall>k < sortSearch i ?h f. \<not> f k) \<and>
          (sortSearch i ?h f < ?h \<longrightarrow> f (sortSearch i ?h f))"
        by (rule 1(2) [OF \<open>i < j\<close> refl]) (use True h 1(4,5) in auto)
      with eq True h show ?thesis by (metis le_less_trans less_imp_le_nat nat_less_le)
    next
      case False
      have eq: "sortSearch i j f = sortSearch (?h + 1) j f"
        using \<open>i < j\<close> False by (simp add: sortSearch.simps [of i j] Let_def)
      have below: "\<not> f k" if "k < ?h + 1" for k using False that 1(4) [of k ?h] h(2) by auto
      show ?thesis
        unfolding eq by (rule 1(1) [OF \<open>i < j\<close> refl False _ 1(4) below]) (use h(2) in simp_all)
    qed
  qed
qed

lemma sorted_jemallocClasses: "sorted jemallocClasses"
  unfolding jemallocClasses_def by (simp only: sorted2_simps simp_thms) simp

lemma length_jemallocClasses: "length jemallocClasses = 235"
  unfolding jemallocClasses_def by simp

lemma last_jemallocClasses: "jemallocClasses ! 234 = 8070450532247928832"
  unfolding jemallocClasses_def by simp

text \<open>The lookup finds the first class that is large enough.\<close>

lemma getJemallocSize_first:
  assumes "req \<le> 8070450532247928832"
  obtains i where "i < length jemallocClasses" "getJemallocSize req = Inr (jemallocClasses ! i)"
    "req \<le> jemallocClasses ! i" "\<And>k. k < i \<Longrightarrow> jemallocClasses ! k < req"
proof -
  define f where "f = (\<lambda>i. req \<le> jemallocClasses ! i)"
  define i where "i = sortSearch 0 (length jemallocClasses) f"
  have mono: "f b" if "a \<le> b" "b < length jemallocClasses" "f a" for a b
    using that sorted_nth_mono [OF sorted_jemallocClasses] unfolding f_def by (meson order_trans)
  have s: "i \<le> length jemallocClasses" "\<And>k. k < i \<Longrightarrow> \<not> f k" "i < length jemallocClasses \<longrightarrow> f i"
    using sortSearch_spec [of 0 "length jemallocClasses" f] mono unfolding i_def by auto
  have "f 234" using assms by (simp add: f_def last_jemallocClasses)
  with s(2) have "\<not> 234 < i" by blast
  then have "i < length jemallocClasses" by (simp add: length_jemallocClasses)
  with s show ?thesis
    by (intro that [of i]) (auto simp: getJemallocSize_def i_def f_def Let_def not_le)
qed

lemma getJemallocSize_total:
  "req \<le> 8070450532247928832 \<Longrightarrow> \<exists>n. getJemallocSize req = Inr n \<and> req \<le> n"
  by (metis getJemallocSize_first)

text \<open>No string that fits in memory makes the estimate panic.\<close>

lemma sizeOfString_total: "int (length str) \<le> maxAlloc \<Longrightarrow> \<exists>n. sizeOfString str = Inr n \<and> 0 \<le> n"
  unfolding sizeOfString_def Let_def maxAlloc_def
  using getJemallocSize_total [of "int (length str) + 1 + 1"]
    getJemallocSize_total [of "int (length str) + 2 + 1"]
    getJemallocSize_total [of "int (length str) + 1 + 4 + 1"]
    getJemallocSize_total [of "int (length str) + 1 + 8 + 1"]
    getJemallocSize_total [of "int (length str) + 1 + 16 + 1"]
  by (auto split: if_splits)

subsection \<open>Sums of sizes\<close>

definition sized :: "int res \<Rightarrow> bool" where
  "sized r \<longleftrightarrow> (\<exists>n \<ge> 0. r = Inr n)"

definition small :: "bytes \<Rightarrow> bool" where
  "small s \<longleftrightarrow> int (length s) \<le> maxAlloc"

lemma sized_Inr [simp]: "sized (Inr n) \<longleftrightarrow> 0 \<le> n"
  by (auto simp: sized_def)

lemma sized_sizeOfString [simp]: "small s \<Longrightarrow> sized (sizeOfString s)"
  using sizeOfString_total [of s] by (auto simp: sized_def small_def)

lemma sized_addSize [simp]: "0 \<le> a \<Longrightarrow> sized r \<Longrightarrow> sized (addSize a r)"
  by (auto simp: sized_def addSize_def)

lemma sumSizes_total: "(\<And>r. r \<in> set rs \<Longrightarrow> sized r) \<Longrightarrow> \<exists>n \<ge> a. sumSizes a rs = Inr n"
proof (induction rs arbitrary: a)
  case (Cons r rs)
  then obtain n where "r = Inr n" "0 \<le> n" by (auto simp: sized_def)
  with Cons.IH [of "a + n"] Cons.prems show ?case by fastforce
qed simp

lemma sized_sumSizes: "0 \<le> a \<Longrightarrow> (\<And>r. r \<in> set rs \<Longrightarrow> sized r) \<Longrightarrow> sized (sumSizes a rs)"
  using sumSizes_total [of rs a] by (auto simp: sized_def)

lemma sumSizes_panics: "Inl e \<in> set rs \<Longrightarrow> \<exists>e'. sumSizes a rs = Inl e' \<and> Inl e' \<in> set rs"
proof (induction rs arbitrary: a)
  case (Cons r rs)
  then show ?case by (cases r) fastforce+
qed simp

lemmas size_consts =
  sizeOfPointer_def sizeOfLong_def redisObjOverhead_def hashTableEntryOverhead_def expiryOverhead_def

lemma hashtableOverhead_pos [simp]: "0 \<le> hashtableOverhead n"
  by (simp add: hashtableOverhead_def size_consts)

lemma skipListOverhead_pos [simp]: "0 \<le> skipListOverhead n"
  by (simp add: skipListOverhead_def size_consts)

lemma sizeOfStreamRaxTree_pos [simp]: "0 \<le> sizeOfStreamRaxTree n"
  by (simp add: sizeOfStreamRaxTree_def size_consts Let_def)

lemma nextPowerFrom_spec:
  "0 < p \<Longrightarrow> (\<exists>k. nextPowerFrom p n = p * 2 ^ k) \<and> n < nextPowerFrom p n \<and>
     (p \<le> 2 * n \<longrightarrow> nextPowerFrom p n \<le> 2 * n)"
proof (induction p n rule: nextPowerFrom.induct)
  case (1 p n)
  show ?case
  proof (cases "p \<le> n")
    case True
    then have "nextPowerFrom p n = nextPowerFrom (2 * p) n"
      using 1(2) by (simp add: nextPowerFrom.simps [of p n])
    moreover from 1 True obtain k where "nextPowerFrom (2 * p) n = 2 * p * 2 ^ k" by fastforce
    then have "nextPowerFrom (2 * p) n = p * 2 ^ (k + 1)" by simp
    moreover have "n < nextPowerFrom (2 * p) n" "nextPowerFrom (2 * p) n \<le> 2 * n"
      using 1 True by auto
    ultimately show ?thesis by (metis (no_types))
  next
    case False
    then have "nextPowerFrom p n = p" by (simp add: nextPowerFrom.simps [of p n])
    with False show ?thesis by (auto intro: exI [of _ 0])
  qed
qed

subsection \<open>When an object's size is defined\<close>

text \<open>
  The detail fits: it is of the kind the encoding has, and in a quicklist of the newer format
  every packed node has, at its position, the sizes of its entries, and every plain node a value.
\<close>

definition quicklist2_fits :: "bytes list \<Rightarrow> int list \<Rightarrow> u32 list list \<Rightarrow> bool" where
  "quicklist2_fits vals encs entrySizes \<longleftrightarrow> (\<forall>i < length encs.
     if encs ! i = quicklistNodeContainerPlain then i < length vals \<and> small (vals ! i) else i < length entrySizes)"

fun sizable :: "'v redis_object \<Rightarrow> bool" where
  "sizable (StringObject b val) = small val"
| "sizable (ListObject b vals) =
     (if baseEncoding b = QuickListEncoding then (\<exists>zls. baseExtra b = Some (QuicklistDetail zls))
      else if baseEncoding b = ListEncoding then list_all small vals
      else baseEncoding b = QuickList2Encoding \<longrightarrow>
        (\<exists>encs szs. baseExtra b = Some (Quicklist2Detail encs szs) \<and> quicklist2_fits vals encs szs))"
| "sizable (HashObject b h x) =
     (if baseEncoding b = ZipListEncoding then (\<exists>n. baseExtra b = Some (ZiplistDetail n))
      else if baseEncoding b = ListPackEncoding then (\<exists>n. baseExtra b = Some (ListpackDetail n))
      else list_all (\<lambda>p. small (fst p) \<and> small (snd p)) h)"
| "sizable (SetObject b members) =
     (if baseEncoding b = IntSetEncoding then (\<exists>n. baseExtra b = Some (IntsetDetail n))
      else if baseEncoding b = ListPackEncoding then (\<exists>n. baseExtra b = Some (ListpackDetail n))
      else list_all small members)"
| "sizable (ZSetObject b entries) =
     (if baseEncoding b = ZipListEncoding then (\<exists>n. baseExtra b = Some (ZiplistDetail n))
      else if baseEncoding b = ListPackEncoding then (\<exists>n. baseExtra b = Some (ListpackDetail n))
      else list_all (\<lambda>entry. small (zMember entry)) entries)"
| "sizable (StreamObject b s) =
     list_all (\<lambda>g. list_all (\<lambda>c. small (consumerName c)) (groupConsumers g)) (streamGroups s)"
| "sizable _ = True"

lemma foldl_pos:
  fixes f :: "'b \<Rightarrow> int"
  assumes "\<And>y. 0 \<le> f y" "0 \<le> a"
  shows "0 \<le> foldl (\<lambda>t y. t + f y) a ys"
  using assms(2) by (induction ys arbitrary: a) (simp_all add: assms(1))

lemma sizeOfZiplist_pos [simp]: "0 \<le> sizeOfZiplist vals"
  unfolding sizeOfZiplist_def
  by (rule foldl_pos)
    (auto simp: zipListStrEntryOverhead_def zipListIntEntryOverhead_def Let_def split: option.splits)

lemma sizeOfQuicklist_pos [simp]: "0 \<le> sizeOfQuicklist zls"
  unfolding sizeOfQuicklist_def Let_def by (rule foldl_pos) (simp_all add: size_consts)

lemma sized_sizeOfGroup:
  "list_all (\<lambda>c. small (consumerName c)) (groupConsumers g) \<Longrightarrow> sized (sizeOfGroup version g)"
  unfolding sizeOfGroup_def Let_def
  by (rule sized_sumSizes) (auto simp: sizeOfConsumer_def list_all_iff size_consts intro!: sized_sumSizes)

lemma sized_fields:
  assumes "list_all (\<lambda>p. small (fst p) \<and> small (snd p)) h"
  shows "sized (sumSizes (hashtableOverhead (length h))
    (concat (map (\<lambda>(k, v). [Inr hashTableEntryOverhead, sizeOfString k, sizeOfString v]) h)))"
  using assms
  by (intro sized_sumSizes) (fastforce simp: list_all_iff size_consts)+

lemma sized_sizeOfHashObject: "sizable (HashObject b h x) \<Longrightarrow> sized (sizeOfHashObject b h)"
  using sized_fields [of h]
  by (auto simp: sizeOfHashObject_def rawZiplist_def rawListpack_def split: if_splits)

lemma sized_sizeOfQuicklist2:
  assumes "quicklist2_fits vals encs entrySizes"
  shows "sized (sizeOfQuicklist2 vals encs entrySizes)"
proof -
  have "sized (quick2Node vals entrySizes i enc)" if "(i, enc) \<in> set (enumerate 0 encs)" for i enc
  proof -
    from that have i: "i < length encs" "enc = encs ! i" by (auto simp: in_set_enumerate_eq)
    with assms have "if enc = quicklistNodeContainerPlain then i < length vals \<and> small (vals ! i) else i < length entrySizes"
      by (simp add: quicklist2_fits_def)
    moreover have "0 \<le> sum_list (map uint xs)" for xs :: "u32 list" by (rule sum_list_nonneg) auto
    ultimately show ?thesis by (auto simp: quick2Node_def split: if_splits)
  qed
  then show ?thesis unfolding sizeOfQuicklist2_def Let_def
    by (intro sized_sumSizes) (auto simp: size_consts)
qed

text \<open>What the reader collects from packed nodes fits.\<close>

lemma packed_nodes_fit:
  "list_all (\<lambda>n. \<exists>page sizes. n = PackedNode page sizes) nodes \<Longrightarrow>
     quicklist2_fits vals (map nodeEncoding nodes) (concat (map nodeSizes nodes))"
proof -
  assume packed: "list_all (\<lambda>n. \<exists>page sizes. n = PackedNode page sizes) nodes"
  then have "length (concat (map nodeSizes nodes)) = length nodes" by (induction nodes) auto
  moreover have "nodeEncoding (nodes ! i) \<noteq> quicklistNodeContainerPlain" if "i < length nodes" for i
    using packed that by (auto simp: list_all_length quicklistNodeContainerPacked_def quicklistNodeContainerPlain_def
        dest!: spec [of _ i])
  ultimately show ?thesis by (simp add: quicklist2_fits_def)
qed

lemma sized_sizeOfValue: "sizable x \<Longrightarrow> sized (sizeOfValue x)"
proof (cases x)
  case (HashObject b h e)
  assume "sizable x"
  then show ?thesis using HashObject sized_sizeOfHashObject [of b h e] by (simp only: sizeOfValue.simps)
qed (auto simp: sizeOfListObject_def sizeOfList_def sizeOfSetObject_def
      sizeOfZSetObject_def sizeOfStreamObject_def rawZiplist_def rawListpack_def rawIntset_def
      list_all_iff size_consts skipListEntryOverhead_def encoding_consts strlit_def Let_def
      split: if_splits intro!: sized_sizeOfGroup sized_sizeOfQuicklist2 sized_sumSizes)

lemma SizeOfObject_total:
  assumes "small (GetKey x)" "sizable x"
  shows "\<exists>n \<ge> 24. SizeOfObject x = Inr n"
proof -
  obtain n where n: "topLevelObjectOverhead (GetKey x) (GetExpiration x \<noteq> None) = Inr n" "24 \<le> n"
  proof -
    let ?rs = "[sizeOfString (GetKey x), Inr redisObjOverhead] @
      (if GetExpiration x \<noteq> None then [Inr expiryOverhead] else [])"
    have "sized r" if "r \<in> set ?rs" for r
      using that assms(1) by (auto simp: size_consts split: if_splits)
    from sumSizes_total [of ?rs "hashTableEntryOverhead", OF this] show thesis
      by (auto simp: topLevelObjectOverhead_def size_consts intro: that)
  qed
  obtain k where "sizeOfValue x = Inr k" "0 \<le> k"
    using sized_sizeOfValue [OF assms(2)] by (auto simp: sized_def)
  with n show ?thesis by (auto simp: SizeOfObject_def addSize_def)
qed

lemma length_node_sizes: "length (concat (map nodeSizes ns)) \<le> length ns"
proof (induction ns)
  case (Cons n ns)
  then show ?case by (cases n) simp_all
qed simp

lemma plain_node_sizes:
  "PlainNode v \<in> set ns \<Longrightarrow> length (concat (map nodeSizes ns)) < length ns"
proof (induction ns)
  case (Cons n ns)
  then show ?case using length_node_sizes [of ns] by (cases n) auto
qed simp

subsection \<open>Properties\<close>

text \<open>
  The size class of a request is the smallest jemalloc class that holds it: the
  bisection finds the first class that is large enough, for every request up to the
  largest class.
\<close>

theorem jemalloc_class_least:
  assumes "req \<le> 8070450532247928832"
  shows "\<exists>c \<in> set jemallocClasses. getJemallocSize req = Inr c \<and> req \<le> c \<and>
    (\<forall>c' \<in> set jemallocClasses. req \<le> c' \<longrightarrow> c \<le> c')"
proof -
  obtain i where i: "i < length jemallocClasses" "getJemallocSize req = Inr (jemallocClasses ! i)"
    "req \<le> jemallocClasses ! i" "\<And>k. k < i \<Longrightarrow> jemallocClasses ! k < req"
    using getJemallocSize_first [OF assms] by blast
  have "jemallocClasses ! i \<le> jemallocClasses ! k"
    if "k < length jemallocClasses" "req \<le> jemallocClasses ! k" for k
    using that i(4) [of k] sorted_nth_mono [OF sorted_jemallocClasses, of i k] by force
  with i(1-3) show ?thesis by (metis in_set_conv_nth)
qed

theorem jemalloc_class_least_witness:
  "\<exists>c \<in> set jemallocClasses. getJemallocSize 50 = Inr c \<and> 50 \<le> c \<and>
    (\<forall>c' \<in> set jemallocClasses. 50 \<le> c' \<longrightarrow> c \<le> c')"
  by (rule jemalloc_class_least) simp

text \<open>
  The number of hash table slots the estimate uses is the least power of two above
  the number of elements.
\<close>

theorem nextPower_bounds:
  "\<exists>k. nextPower n = 2 ^ k \<and> n < nextPower n \<and> (n = 0 \<or> nextPower n \<le> 2 * n)"
  using nextPowerFrom_spec [of 1 n] by (auto simp: nextPower_def)

text \<open>
  C39: the estimate of an object whose detail fits its encoding and whose strings fit in
  memory never panics, and is at least the cost of its dictionary entry.  For a quicklist of
  the newer format to fit, every packed node must have its sizes at the position of the node,
  which the reader's detail does not have when a plain node comes before a packed one.
\<close>

theorem size_of_object_total:
  assumes "small (GetKey x)" "sizable x"
  shows "\<exists>n \<ge> hashTableEntryOverhead. SizeOfObject x = Inr n"
  using SizeOfObject_total [OF assms] by (simp add: size_consts)

theorem size_of_object_total_witness:
  "\<exists>n \<ge> hashTableEntryOverhead.
     SizeOfObject (ListObject (emptyBase\<lparr>baseKey := strlit ''k'', baseEncoding := QuickList2Encoding,
       baseExtra := Some (Quicklist2Detail [quicklistNodeContainerPacked, quicklistNodeContainerPlain] [[3]])\<rparr>)
       [strlit ''a'', strlit ''b''] :: nat redis_object) = Inr n"
  by (rule size_of_object_total)
    (simp_all add: small_def maxAlloc_def GetKey_def emptyBase_def encoding_consts strlit_def quicklist2_fits_def
      less_Suc_eq numeral_2_eq_2 quicklistNodeContainerPacked_def quicklistNodeContainerPlain_def)

text \<open>
  C40: the estimate of a quicklist of the newer format indexes the packed-node sizes by the
  position of the node, but the reader collects them for packed nodes only: a list with a
  plain node before its last packed node makes the estimate panic.
\<close>

theorem quicklist2_mixed_panics:
  assumes "PlainNode v \<in> set nodes"
  shows "\<exists>e. sizeOfQuicklist2 vals (map nodeEncoding (nodes @ [PackedNode page sizes]))
    (concat (map nodeSizes (nodes @ [PackedNode page sizes]))) = Inl e"
proof -
  let ?nodes = "nodes @ [PackedNode page sizes]" and ?n = "length nodes"
  let ?sizes = "concat (map nodeSizes ?nodes)"
  have "length ?sizes \<le> ?n" using plain_node_sizes [OF assms] by simp
  then have "quick2Node vals ?sizes ?n quicklistNodeContainerPacked = Inl (GoPanic ''index out of range'')"
    by (simp add: quick2Node_def quicklistNodeContainerPlain_def quicklistNodeContainerPacked_def)
  moreover have "(?n, quicklistNodeContainerPacked) \<in> set (enumerate 0 (map nodeEncoding ?nodes))"
    by (auto simp: in_set_enumerate_eq nth_append)
  ultimately show ?thesis
    unfolding sizeOfQuicklist2_def Let_def
    using sumSizes_panics [of "GoPanic ''index out of range''"] by (smt (verit) case_prod_conv image_eqI set_map)
qed

theorem quicklist2_mixed_panics_witness:
  "\<exists>e. sizeOfQuicklist2 [strlit ''a'', strlit ''b'']
     (map nodeEncoding ([PlainNode (strlit ''a'')] @ [PackedNode [strlit ''b''] [3]]))
     (concat (map nodeSizes ([PlainNode (strlit ''a'')] @ [PackedNode [strlit ''b''] [3]]))) = Inl e"
  by (rule quicklist2_mixed_panics) simp

end
