(* ===== verification/Encoder.thy ===== *)
theory Encoder
  imports Model
begin

section \<open>The encoder's operations (core/encoder.go and the Write methods)\<close>

text \<open>
  The exported operations of \<^verbatim>\<open>Encoder\<close>, each with its state check, and the step relation
  of a client that calls them in any order: \<open>enc_op\<close> is a call, \<open>runOp\<close> what the call
  does, \<open>reachable\<close> the encoders a client can get from a new one.  The options of a write
  are the variadic \<^verbatim>\<open>...interface{}\<close>: \<^verbatim>\<open>TTLOption\<close> is the only type that matters.
  \<open>ff\<close> is \<^verbatim>\<open>strconv.FormatFloat(_, 'f', -1, 64)\<close>.
\<close>

definition opCodeSlotImport :: byte where "opCodeSlotImport = 243"
definition opCodeSlotInfo :: byte where "opCodeSlotInfo = 244"
definition opCodeFunction :: byte where "opCodeFunction = 245"
definition opCodeModuleAux :: byte where "opCodeModuleAux = 247"
definition opCodeIdle :: byte where "opCodeIdle = 248"
definition opCodeFreq :: byte where "opCodeFreq = 249"
definition opCodeAux :: byte where "opCodeAux = 250"
definition opCodeResizeDB :: byte where "opCodeResizeDB = 251"
definition opCodeExpireTimeMs :: byte where "opCodeExpireTimeMs = 252"
definition opCodeExpireTime :: byte where "opCodeExpireTime = 253"
definition opCodeSelectDB :: byte where "opCodeSelectDB = 254"
definition opCodeEOF :: byte where "opCodeEOF = 255"

lemmas opcodes =
  opCodeSlotImport_def opCodeSlotInfo_def opCodeFunction_def opCodeModuleAux_def opCodeIdle_def
  opCodeFreq_def opCodeAux_def opCodeResizeDB_def opCodeExpireTimeMs_def opCodeExpireTime_def
  opCodeSelectDB_def opCodeEOF_def

definition rdbHeaderRedis :: bytes where "rdbHeaderRedis = strlit ''REDIS0011''"
definition rdbHeaderValkey :: bytes where "rdbHeaderValkey = strlit ''VALKEY080''"

subsection \<open>Operations\<close>

definition guardState :: "enc_state \<Rightarrow> string \<Rightarrow> (encoder, unit) gom" where
  "guardState to msg =
     bnd (getEnc (\<lambda>e. validateStateChange e to)) (\<lambda>ok. if \<not> ok then fail (Msg msg) else ret ())"

definition WriteHeader :: "(encoder, unit) gom" where
  "WriteHeader =
     bnd (guardState writtenHeaderState ''cannot writing header'') (\<lambda>_.
     bnd (getEnc encValkey) (\<lambda>v.
     bnd (enc_write (if v then rdbHeaderValkey else rdbHeaderRedis)) (\<lambda>_.
     setState writtenHeaderState)))"

definition WriteAux :: "bytes \<Rightarrow> bytes \<Rightarrow> (encoder, unit) gom" where
  "WriteAux key val =
     bnd (guardState writtenAuxState ''cannot writing aux'') (\<lambda>_.
     bnd (enc_write [opCodeAux]) (\<lambda>_.
     bnd (writeString key) (\<lambda>_.
     bnd (writeString val) (\<lambda>_.
     setState writtenAuxState))))"

definition addDB :: "u64 \<Rightarrow> (encoder, unit) gom" where
  "addDB i e = (Inr (), e\<lparr>existDB := insert i (existDB e)\<rparr>)"

definition WriteDBHeader :: "u64 \<Rightarrow> u64 \<Rightarrow> u64 \<Rightarrow> (encoder, unit) gom" where
  "WriteDBHeader dbIndex keyCount ttlCount =
     bnd (guardState writtenDBHeaderState ''cannot writing db header'') (\<lambda>_.
     bnd (getEnc (\<lambda>e. dbIndex \<in> existDB e)) (\<lambda>existed.
     if existed then fail (MsgArgs ''db existed'' [uint dbIndex])
     else bnd (addDB dbIndex) (\<lambda>_.
       bnd (enc_write [opCodeSelectDB]) (\<lambda>_.
       bnd (writeLength dbIndex) (\<lambda>_.
       bnd (enc_write [opCodeResizeDB]) (\<lambda>_.
       bnd (writeLength keyCount) (\<lambda>_.
       bnd (writeLength ttlCount) (\<lambda>_.
       setState writtenDBHeaderState))))))))"

text \<open>The checksum goes to the writer alone.\<close>

definition writeChecksum :: "(encoder, unit) gom" where
  "writeChecksum e =
     (let p = digestSum (crcDigest e) [] in
      case refuses e (out e) p of
        Some n \<Rightarrow> (Inl (Wrap ''write crc sum failed'' (Msg ''writer error'')), e\<lparr>out := out e @ take n p\<rparr>)
      | None \<Rightarrow> (Inr (), e\<lparr>out := out e @ p\<rparr>))"

definition WriteEnd :: "(encoder, unit) gom" where
  "WriteEnd =
     bnd (guardState writtenEndState ''cannot writing end'') (\<lambda>_.
     bnd (enc_write [opCodeEOF]) (\<lambda>_.
     bnd writeChecksum (\<lambda>_.
     setState writtenEndState)))"

definition writeTTL :: "u64 \<Rightarrow> (encoder, unit) gom" where
  "writeTTL expiration =
     bnd (guardState writtenTTLState ''cannot write string object'') (\<lambda>_.
     bnd (enc_write [opCodeExpireTimeMs]) (\<lambda>_.
     bnd (enc_write (le_bytes 8 (unat expiration))) (\<lambda>_.
     setState writtenTTLState)))"

datatype write_option = TTLOption u64 | OtherOption

definition WithTTL :: "u64 \<Rightarrow> write_option" where
  "WithTTL expirationMs = TTLOption expirationMs"

definition applyOption :: "write_option \<Rightarrow> (encoder, unit) gom" where
  "applyOption opt = (case opt of TTLOption ms \<Rightarrow> writeTTL ms | OtherOption \<Rightarrow> ret ())"

lemma applyOption_simps:
  "applyOption (TTLOption ms) = writeTTL ms" "applyOption OtherOption = ret ()"
  by (simp_all add: applyOption_def)

definition beforeWriteObject :: "write_option list \<Rightarrow> (encoder, unit) gom" where
  "beforeWriteObject options =
     bnd (guardState writtenObjectState ''cannot write object'') (\<lambda>_. forEach applyOption options)"

definition WriteStringObject :: "bytes \<Rightarrow> bytes \<Rightarrow> write_option list \<Rightarrow> (encoder, unit) gom" where
  "WriteStringObject key val options =
     bnd (beforeWriteObject options) (\<lambda>_.
     bnd (enc_write [typeString]) (\<lambda>_.
     bnd (writeString key) (\<lambda>_.
     bnd (writeString val) (\<lambda>_.
     setState writtenObjectState))))"

definition WriteListObject :: "bytes \<Rightarrow> bytes list \<Rightarrow> write_option list \<Rightarrow> (encoder, unit) gom" where
  "WriteListObject key vals options =
     bnd (beforeWriteObject options) (\<lambda>_.
     bnd (tryWriteListZipList key vals) (\<lambda>ok.
     bnd (if \<not> ok then writeQuickList key vals else ret ()) (\<lambda>_.
     setState writtenObjectState)))"

definition WriteSetObject :: "bytes \<Rightarrow> bytes list \<Rightarrow> write_option list \<Rightarrow> (encoder, unit) gom" where
  "WriteSetObject key vals options =
     bnd (beforeWriteObject options) (\<lambda>_.
     bnd (tryWriteIntSetEncoding key vals) (\<lambda>ok.
     bnd (if \<not> ok then writeSetEncoding key vals else ret ()) (\<lambda>_.
     setState writtenObjectState)))"

definition WriteHashMapObject :: "bytes \<Rightarrow> hash \<Rightarrow> write_option list \<Rightarrow> (encoder, unit) gom" where
  "WriteHashMapObject key h options =
     bnd (beforeWriteObject options) (\<lambda>_.
     bnd (tryWriteZipListHashMap key h) (\<lambda>ok.
     bnd (if \<not> ok then writeHashEncoding key h else ret ()) (\<lambda>_.
     setState writtenObjectState)))"

definition WriteHashMapObjectEx ::
  "bytes \<Rightarrow> hash \<Rightarrow> expirations \<Rightarrow> write_option list \<Rightarrow> (encoder, unit) gom" where
  "WriteHashMapObjectEx key h expire options =
     bnd (beforeWriteObject options) (\<lambda>_.
     bnd (getEnc encValkey) (\<lambda>v.
     bnd (if v then writeHash2Encoding key h expire else writeHashEncodingEx key h expire) (\<lambda>_.
     setState writtenObjectState)))"

definition WriteZSetObject ::
  "(float64 \<Rightarrow> bytes) \<Rightarrow> bytes \<Rightarrow> zset_entry list \<Rightarrow> write_option list \<Rightarrow> (encoder, unit) gom" where
  "WriteZSetObject ff key entries options =
     bnd (beforeWriteObject options) (\<lambda>_.
     bnd (tryWriteZipListZSet ff key entries) (\<lambda>ok.
     bnd (if \<not> ok then writeZSet2Encoding key entries else ret ()) (\<lambda>_.
     setState writtenObjectState)))"

definition WriteStreamObject :: "bytes \<Rightarrow> stream_object \<Rightarrow> write_option list \<Rightarrow> (encoder, unit) gom" where
  "WriteStreamObject key s options =
     bnd (beforeWriteObject options) (\<lambda>_.
     bnd (writeStreamBody key s) (\<lambda>_.
     setState writtenObjectState))"

subsection \<open>A client's calls\<close>

datatype rdb_value =
    StringVal bytes
  | ListVal "bytes list"
  | SetVal "bytes list"
  | HashVal hash
  | HashExVal hash expirations
  | ZSetVal "zset_entry list"
  | StreamVal stream_object

datatype enc_op =
    OpHeader
  | OpAux bytes bytes
  | OpDB u64 u64 u64
  | OpObject bytes rdb_value "write_option list"
  | OpEnd

fun writeValue :: "(float64 \<Rightarrow> bytes) \<Rightarrow> bytes \<Rightarrow> rdb_value \<Rightarrow> write_option list \<Rightarrow> (encoder, unit) gom" where
  "writeValue ff key (StringVal val) opts = WriteStringObject key val opts"
| "writeValue ff key (ListVal vals) opts = WriteListObject key vals opts"
| "writeValue ff key (SetVal vals) opts = WriteSetObject key vals opts"
| "writeValue ff key (HashVal h) opts = WriteHashMapObject key h opts"
| "writeValue ff key (HashExVal h x) opts = WriteHashMapObjectEx key h x opts"
| "writeValue ff key (ZSetVal es) opts = WriteZSetObject ff key es opts"
| "writeValue ff key (StreamVal s) opts = WriteStreamObject key s opts"

fun runOp :: "(float64 \<Rightarrow> bytes) \<Rightarrow> enc_op \<Rightarrow> (encoder, unit) gom" where
  "runOp ff OpHeader = WriteHeader"
| "runOp ff (OpAux k v) = WriteAux k v"
| "runOp ff (OpDB i kc tc) = WriteDBHeader i kc tc"
| "runOp ff (OpObject key v opts) = writeValue ff key v opts"
| "runOp ff OpEnd = WriteEnd"

definition runOps :: "(float64 \<Rightarrow> bytes) \<Rightarrow> enc_op list \<Rightarrow> (encoder, unit) gom" where
  "runOps ff ops = forEach (runOp ff) ops"

text \<open>
  The encoders a client reaches: from a new one by calls, whether they succeed or fail, and
  the calls that succeeded, in order.
\<close>

inductive reachable ::
  "(float64 \<Rightarrow> bytes) \<Rightarrow> (bytes \<Rightarrow> bytes \<Rightarrow> nat option) \<Rightarrow> enc_op list \<Rightarrow> encoder \<Rightarrow> bool"
  for ff w where
  start: "reachable ff w [] (newEncoder w)"
| startValkey: "reachable ff w [] (newEncoderValkey w)"
| option: "reachable ff w ops e \<Longrightarrow> reachable ff w ops (setListZipListOpt a b e)"
| optionHash: "reachable ff w ops e \<Longrightarrow> reachable ff w ops (setHashZipListOpt a b e)"
| optionZSet: "reachable ff w ops e \<Longrightarrow> reachable ff w ops (setZSetZipListOpt a b e)"
| compressing: "reachable ff w ops e \<Longrightarrow> reachable ff w ops (enableCompress e)"
| success: "reachable ff w ops e \<Longrightarrow> runOp ff op e = (Inr (), e') \<Longrightarrow> reachable ff w (ops @ [op]) e'"
| failure: "reachable ff w ops e \<Longrightarrow> runOp ff op e = (Inl err, e') \<Longrightarrow> reachable ff w ops e'"

subsection \<open>What the operations leave unchanged\<close>

lemma writeZipList_appends: "appends (writeZipList vals)"
  unfolding writeZipList_def by (intro string_appends liftRes_appends)

lemma body_appends:
  "appends (tryWriteListZipList key vals)" "appends (writeQuickList key vals)"
  "appends (tryWriteIntSetEncoding key vals)" "appends (writeSetEncoding key vals)"
  "appends (tryWriteZipListHashMap key h)" "appends (writeHashEncoding key h)"
  "appends (writeHashEncodingEx key h x)" "appends (writeHash2Encoding key h x)"
  "appends (tryWriteZipListZSet ff key es)" "appends (writeZSet2Encoding key es)"
  unfolding tryWriteListZipList_def writeQuickList_def tryWriteIntSetEncoding_def writeSetEncoding_def
    tryWriteZipListHashMap_def writeHashEncoding_def writeHashEncodingEx_def writeHash2Encoding_def
    tryWriteZipListZSet_def writeZSet2Encoding_def
  by (intro string_appends writeZipList_appends)+

lemma writeStreamBody_appends: "appends (writeStreamBody key s)"
  unfolding writeStreamBody_def writeStreamEntries_def writeStreamEntryContent_def writeStreamId_def
    writeStreamGroups_def writeGroup_def writeNAck_def writeConsumer_def writeBinId_def
  by (intro string_appends)

subsection \<open>Guards, bodies and the frame of a call\<close>

lemma bnd_guardState [simp]: "bnd (guardState to msg) k e =
    (if to \<in> stateChanges (encState e) then k () e else (Inl (Msg msg), e))"
  by (simp add: guardState_def bnd_def getEnc_def validateStateChange_def ret_def fail_def)

text \<open>A call changes only the output, the checksum, the state and the set of databases.\<close>

definition frame :: "encoder \<Rightarrow> encoder \<Rightarrow> bool" where
  "frame e e' \<longleftrightarrow> (\<exists>p d s x. e' = e\<lparr>out := out e @ p, crcDigest := d, encState := s, existDB := x\<rparr>)"

lemma frame_refl: "frame e e"
proof -
  have "e = e\<lparr>out := out e @ [], crcDigest := crcDigest e, encState := encState e, existDB := existDB e\<rparr>"
    by simp
  then show ?thesis unfolding frame_def by blast
qed

lemma frame_trans: "frame a b \<Longrightarrow> frame b c \<Longrightarrow> frame a c"
  unfolding frame_def by (elim exE) (simp, metis append.assoc)

text \<open>
  A method that may write and may change the state, but tracks the checksum on a writer
  that never fails: the calls before \<^verbatim>\<open>WriteEnd\<close>.
\<close>

definition tracks :: "(encoder, 'a) gom \<Rightarrow> bool" where
  "tracks m \<longleftrightarrow> (\<forall>e. frame e (snd (m e)) \<and>
     (ready e \<longrightarrow> (\<exists>p s x. snd (m e) = (emit p e)\<lparr>encState := s, existDB := x\<rparr>)))"

lemma appends_tracks:
  assumes "appends m"
  shows "tracks m"
proof -
  have "frame e (snd (m e)) \<and> (ready e \<longrightarrow> (\<exists>p s x. snd (m e) = (emit p e)\<lparr>encState := s, existDB := x\<rparr>))" for e
  proof -
    obtain p d where p: "snd (m e) = e\<lparr>out := out e @ p, crcDigest := d\<rparr>"
      using assms unfolding appends_def by blast
    then have "snd (m e) = e\<lparr>out := out e @ p, crcDigest := d, encState := encState e, existDB := existDB e\<rparr>"
      by simp
    then have "frame e (snd (m e))" unfolding frame_def by blast
    moreover have "\<exists>p s x. snd (m e) = (emit p e)\<lparr>encState := s, existDB := x\<rparr>" if "ready e"
    proof -
      from assms that obtain q where "snd (m e) = emit q e" unfolding appends_def by blast
      then have "snd (m e) = (emit q e)\<lparr>encState := encState e, existDB := existDB e\<rparr>" by (simp add: emit_def)
      then show ?thesis by blast
    qed
    ultimately show ?thesis by blast
  qed
  then show ?thesis by (simp add: tracks_def)
qed

lemma emit_update_emit: "ready e \<Longrightarrow>
  (emit q ((emit p e)\<lparr>encState := s, existDB := x\<rparr>))\<lparr>encState := s', existDB := x'\<rparr> =
  (emit (p @ q) e)\<lparr>encState := s', existDB := x'\<rparr>"
  using emit_emit [of e q p] by (simp add: emit_def)

lemma ready_update: "ready (e\<lparr>encState := s, existDB := x\<rparr>) = ready e"
  by (simp add: ready_def)

lemma tracks_bnd:
  assumes "tracks m" "\<And>x. tracks (f x)"
  shows "tracks (bnd m f)"
proof -
  have "frame e (snd (bnd m f e)) \<and>
      (ready e \<longrightarrow> (\<exists>p s x. snd (bnd m f e) = (emit p e)\<lparr>encState := s, existDB := x\<rparr>))" for e
  proof (cases "m e")
    case (Pair r e')
    then have m: "frame e e'" "ready e \<longrightarrow> (\<exists>p s x. e' = (emit p e)\<lparr>encState := s, existDB := x\<rparr>)"
      using assms(1) unfolding tracks_def by (metis snd_conv)+
    show ?thesis
    proof (cases r)
      case (Inl err)
      with m Pair show ?thesis by (simp add: bnd_def)
    next
      case (Inr x)
      then have b: "snd (bnd m f e) = snd (f x e')" using Pair by (simp add: bnd_def)
      have "frame e (snd (f x e'))"
        using m(1) assms(2) [of x] frame_trans unfolding tracks_def by blast
      moreover have "\<exists>p s y. snd (f x e') = (emit p e)\<lparr>encState := s, existDB := y\<rparr>" if "ready e"
      proof -
        from m(2) that obtain p s y where e': "e' = (emit p e)\<lparr>encState := s, existDB := y\<rparr>" by blast
        with that have "ready e'" by (simp add: ready_update)
        with assms(2) [of x] obtain q s' y' where
          "snd (f x e') = (emit q e')\<lparr>encState := s', existDB := y'\<rparr>"
          unfolding tracks_def by blast
        with e' that show ?thesis by (metis emit_update_emit)
      qed
      ultimately show ?thesis using b by simp
    qed
  qed
  then show ?thesis by (simp add: tracks_def)
qed

lemma tracks_setState: "tracks (setState s)" and tracks_addDB: "tracks (addDB i)"
proof -
  have "frame e (e\<lparr>encState := s\<rparr>)" for e
  proof -
    have "e\<lparr>encState := s\<rparr> = e\<lparr>out := out e @ [], crcDigest := crcDigest e, encState := s, existDB := existDB e\<rparr>"
      by simp
    then show ?thesis unfolding frame_def by blast
  qed
  moreover have "ready e \<Longrightarrow> e\<lparr>encState := s\<rparr> = (emit [] e)\<lparr>encState := s, existDB := existDB e\<rparr>" for e
    by (simp add: emit_Nil)
  ultimately show "tracks (setState s)" unfolding tracks_def setState_def by (metis snd_conv)
  have "frame e (e\<lparr>existDB := x\<rparr>)" for e x
  proof -
    have "e\<lparr>existDB := x\<rparr> = e\<lparr>out := out e @ [], crcDigest := crcDigest e, encState := encState e, existDB := x\<rparr>"
      by simp
    then show ?thesis unfolding frame_def by blast
  qed
  moreover have "ready e \<Longrightarrow> e\<lparr>existDB := x\<rparr> = (emit [] e)\<lparr>encState := encState e, existDB := x\<rparr>" for e x
    by (simp add: emit_Nil)
  ultimately show "tracks (addDB i)" unfolding tracks_def addDB_def by (metis snd_conv)
qed

lemma tracks_forEach: "(\<And>x. tracks (f x)) \<Longrightarrow> tracks (forEach f xs)"
  by (induction xs) (auto intro: tracks_bnd appends_tracks appends_ret)

lemma tracks_if: "tracks m \<Longrightarrow> tracks m' \<Longrightarrow> tracks (if b then m else m')"
  by simp

lemma tracks_guardState: "tracks (guardState to msg)"
  unfolding guardState_def
  by (intro tracks_bnd tracks_if appends_tracks appends_getEnc appends_fail appends_ret)

lemmas tracking =
  tracks_bnd tracks_setState tracks_addDB tracks_forEach tracks_if tracks_guardState
  string_appends [THEN appends_tracks] body_appends [THEN appends_tracks]
  writeStreamBody_appends [THEN appends_tracks]

lemma writeTTL_tracks: "tracks (writeTTL ms)"
  unfolding writeTTL_def by (intro tracking)

lemma applyOption_tracks: "tracks (applyOption opt)"
  unfolding applyOption_def by (cases opt) (simp_all add: writeTTL_tracks appends_ret appends_tracks)

lemma beforeWriteObject_tracks: "tracks (beforeWriteObject opts)"
  unfolding beforeWriteObject_def by (intro tracking applyOption_tracks)

lemma writeValue_tracks: "tracks (writeValue ff key v opts)"
  by (cases v)
    (simp_all add: WriteStringObject_def WriteListObject_def WriteSetObject_def WriteHashMapObject_def
      WriteHashMapObjectEx_def WriteZSetObject_def WriteStreamObject_def,
     (intro tracking beforeWriteObject_tracks)+)

lemma runOp_tracks: "op \<noteq> OpEnd \<Longrightarrow> tracks (runOp ff op)"
  by (cases op)
    (simp_all add: WriteHeader_def WriteAux_def WriteDBHeader_def writeValue_tracks,
     (intro tracking)+)

subsection \<open>The state machine of the calls\<close>

fun opTarget :: "enc_op \<Rightarrow> enc_state" where
  "opTarget OpHeader = writtenHeaderState"
| "opTarget (OpAux _ _) = writtenAuxState"
| "opTarget (OpDB _ _ _) = writtenDBHeaderState"
| "opTarget (OpObject _ _ _) = writtenObjectState"
| "opTarget OpEnd = writtenEndState"

lemmas object_ops =
  WriteStringObject_def WriteListObject_def WriteSetObject_def WriteHashMapObject_def
  WriteHashMapObjectEx_def WriteZSetObject_def WriteStreamObject_def

lemmas file_ops = WriteHeader_def WriteAux_def WriteDBHeader_def WriteEnd_def

lemma runOp_rejected:
  "opTarget op \<notin> stateChanges (encState e) \<Longrightarrow> \<exists>err. runOp ff op e = (Inl err, e)"
proof (cases op)
  case (OpObject key v opts)
  assume "opTarget op \<notin> stateChanges (encState e)"
  with OpObject show ?thesis
    by (cases v) (simp_all add: object_ops beforeWriteObject_def bnd_assoc)
qed (simp_all add: file_ops)

text \<open>
  A step of a call before its last one: the state stays, or a TTL has been written.
\<close>

definition ttlMove :: "encoder \<Rightarrow> encoder \<Rightarrow> bool" where
  "ttlMove e e' \<longleftrightarrow> existDB e' = existDB e \<and> (encState e' = encState e \<or>
     encState e' = writtenTTLState \<and> writtenTTLState \<in> stateChanges (encState e))"

lemma ttlMove_refl [simp]: "ttlMove e e"
  by (simp add: ttlMove_def)

lemma ttlMove_trans: "ttlMove a b \<Longrightarrow> ttlMove b c \<Longrightarrow> ttlMove a c"
  by (auto simp: ttlMove_def)

definition ttlMoves :: "(encoder, 'a) gom \<Rightarrow> bool" where
  "ttlMoves m \<longleftrightarrow> (\<forall>e. ttlMove e (snd (m e)))"

definition closing :: "enc_state \<Rightarrow> (encoder, unit) gom \<Rightarrow> bool" where
  "closing s m \<longleftrightarrow> (\<forall>e r e'. m e = (r, e') \<longrightarrow> (case r of
       Inl _ \<Rightarrow> ttlMove e e'
     | Inr _ \<Rightarrow> encState e' = s \<and> existDB e' = existDB e))"

lemma appends_ttlMoves: "appends m \<Longrightarrow> ttlMoves m"
  unfolding ttlMoves_def
proof
  fix e assume "appends m"
  then obtain p d where "snd (m e) = e\<lparr>out := out e @ p, crcDigest := d\<rparr>"
    unfolding appends_def by blast
  then show "ttlMove e (snd (m e))" by (simp add: ttlMove_def)
qed

lemma ttlMoves_bnd: "ttlMoves m \<Longrightarrow> (\<And>x. ttlMoves (f x)) \<Longrightarrow> ttlMoves (bnd m f)"
  by (auto simp: ttlMoves_def bnd_def split: prod.split sum.split) (metis snd_conv ttlMove_trans)+

lemma ttlMoves_forEach: "(\<And>x. ttlMoves (f x)) \<Longrightarrow> ttlMoves (forEach f xs)"
  by (induction xs) (auto intro: ttlMoves_bnd appends_ttlMoves appends_ret)

lemma guardState_appends: "appends (guardState to msg)"
  unfolding guardState_def by (intro enc_appends)

lemma writeTTL_ttlMoves: "ttlMoves (writeTTL ms)"
proof -
  have "ttlMove e (snd (writeTTL ms e))" for e
  proof (cases "writtenTTLState \<in> stateChanges (encState e)")
    case False
    then show ?thesis by (simp add: writeTTL_def)
  next
    case True
    let ?m = "bnd (enc_write [opCodeExpireTimeMs]) (\<lambda>_. enc_write (le_bytes 8 (unat ms)))"
    obtain r e1 where m: "?m e = (r, e1)" by (cases "?m e")
    have "ttlMoves ?m" by (intro appends_ttlMoves enc_appends)
    with m have t: "ttlMove e e1" unfolding ttlMoves_def by (metis snd_conv)
    have "writeTTL ms e = bnd ?m (\<lambda>_. setState writtenTTLState) e"
      using True by (simp add: writeTTL_def bnd_assoc)
    with m have "snd (writeTTL ms e) = (case r of Inl _ \<Rightarrow> e1 | Inr _ \<Rightarrow> e1\<lparr>encState := writtenTTLState\<rparr>)"
      by (simp add: bnd_setState split: sum.split)
    with t True show ?thesis by (auto simp: ttlMove_def split: sum.splits)
  qed
  then show ?thesis by (simp add: ttlMoves_def)
qed

lemma beforeWriteObject_ttlMoves: "ttlMoves (beforeWriteObject opts)"
  unfolding beforeWriteObject_def applyOption_def
  by (intro ttlMoves_bnd ttlMoves_forEach guardState_appends [THEN appends_ttlMoves])
    (auto split: write_option.split intro: writeTTL_ttlMoves appends_ret [THEN appends_ttlMoves])

lemma closing_bnd:
  assumes "ttlMoves m" "\<And>x. closing s (f x)"
  shows "closing s (bnd m f)"
  unfolding closing_def
proof (intro allI impI)
  fix e r e'
  assume r: "bnd m f e = (r, e')"
  obtain r1 e1 where m: "m e = (r1, e1)" by (cases "m e")
  with assms(1) have t: "ttlMove e e1" unfolding ttlMoves_def by (metis snd_conv)
  show "case r of Inl _ \<Rightarrow> ttlMove e e' | Inr _ \<Rightarrow> encState e' = s \<and> existDB e' = existDB e"
  proof (cases r1)
    case (Inl err)
    with r m t show ?thesis by (auto simp: bnd_def)
  next
    case (Inr x)
    with r m have "f x e1 = (r, e')" by (simp add: bnd_def)
    with assms(2) have "case r of Inl _ \<Rightarrow> ttlMove e1 e' | Inr _ \<Rightarrow> encState e' = s \<and> existDB e' = existDB e1"
      unfolding closing_def by blast
    with t show ?thesis
      by (auto split: sum.splits intro: ttlMove_trans simp: ttlMove_def)
  qed
qed

lemma closing_setState: "closing s (setState s)"
  by (auto simp: closing_def setState_def)

lemma writeChecksum_ttlMoves: "ttlMoves writeChecksum"
  by (auto simp: ttlMoves_def ttlMove_def writeChecksum_def Let_def split: option.split)

lemmas closings =
  closing_bnd closing_setState beforeWriteObject_ttlMoves writeChecksum_ttlMoves appends_ttlMoves
  guardState_appends string_appends body_appends writeStreamBody_appends

lemma writeValue_closing: "closing writtenObjectState (writeValue ff key v opts)"
  by (cases v) (simp_all add: object_ops, (intro closings)+)

lemma runOp_closing:
  assumes "\<And>i kc tc. op \<noteq> OpDB i kc tc"
  shows "closing (opTarget op) (runOp ff op)"
proof (cases op)
  case (OpDB i kc tc)
  with assms show ?thesis by blast
qed (simp_all add: file_ops writeValue_closing, (intro closings)+)

lemma runOp_success:
  assumes "\<And>i kc tc. op \<noteq> OpDB i kc tc" "runOp ff op e = (Inr (), e')"
  shows "encState e' = opTarget op" "existDB e' = existDB e"
proof -
  have "closing (opTarget op) (runOp ff op)" using assms(1) by (rule runOp_closing)
  with assms(2) show "encState e' = opTarget op" "existDB e' = existDB e"
    by (fastforce simp: closing_def)+
qed

lemma runOp_failure:
  assumes "\<And>i kc tc. op \<noteq> OpDB i kc tc" "runOp ff op e = (Inl err, e')"
  shows "ttlMove e e'"
proof -
  have "closing (opTarget op) (runOp ff op)" using assms(1) by (rule runOp_closing)
  with assms(2) show ?thesis by (fastforce simp: closing_def)
qed

lemma bnd_addDB: "bnd (addDB i) k e = k () (e\<lparr>existDB := insert i (existDB e)\<rparr>)"
  by (simp add: bnd_def addDB_def)

lemma WriteDBHeader_cases:
  assumes "WriteDBHeader i kc tc e = (r, e')"
  shows "r \<noteq> Inr () \<and> e' = e \<or>
    i \<notin> existDB e \<and> existDB e' = insert i (existDB e) \<and>
    (case r of Inl _ \<Rightarrow> ttlMove (e\<lparr>existDB := insert i (existDB e)\<rparr>) e'
     | Inr _ \<Rightarrow> encState e' = writtenDBHeaderState)"
proof (cases "writtenDBHeaderState \<in> stateChanges (encState e) \<and> i \<notin> existDB e")
  case False
  with assms show ?thesis by (auto simp: WriteDBHeader_def fail_def split: if_splits)
next
  case True
  let ?m = "bnd (enc_write [opCodeSelectDB]) (\<lambda>_. bnd (writeLength i) (\<lambda>_.
    bnd (enc_write [opCodeResizeDB]) (\<lambda>_. bnd (writeLength kc) (\<lambda>_. bnd (writeLength tc) (\<lambda>_.
    setState writtenDBHeaderState)))))"
  let ?e = "e\<lparr>existDB := insert i (existDB e)\<rparr>"
  have "closing writtenDBHeaderState ?m" by (intro closings)
  moreover have "?m ?e = (r, e')" using assms True by (simp add: WriteDBHeader_def bnd_addDB)
  ultimately have "case r of Inl _ \<Rightarrow> ttlMove ?e e' | Inr _ \<Rightarrow> encState e' = writtenDBHeaderState \<and>
      existDB e' = existDB ?e"
    unfolding closing_def by blast
  with True show ?thesis by (auto simp: ttlMove_def split: sum.splits)
qed

subsection \<open>The order of the calls\<close>

text \<open>
  The specification: a header, auxiliary fields, databases (each an index with its sizes
  and the objects written to it), and possibly the end.
\<close>

type_synonym db_block = "(u64 \<times> u64 \<times> u64) \<times> (bytes \<times> rdb_value \<times> write_option list) list"

definition blockIndex :: "db_block \<Rightarrow> u64" where
  "blockIndex b = fst (fst b)"

definition blockOps :: "db_block \<Rightarrow> enc_op list" where
  "blockOps b = (case b of ((i, kc, tc), objs) \<Rightarrow>
     OpDB i kc tc # map (\<lambda>(key, v, opts). OpObject key v opts) objs)"

definition callSeq :: "(bytes \<times> bytes) list \<Rightarrow> db_block list \<Rightarrow> bool \<Rightarrow> enc_op list" where
  "callSeq auxs blocks ended =
     OpHeader # map (\<lambda>(k, v). OpAux k v) auxs @ concat (map blockOps blocks) @
     (if ended then [OpEnd] else [])"

definition blocks_ok :: "db_block list \<Rightarrow> bool \<Rightarrow> bool" where
  "blocks_ok blocks ended \<longleftrightarrow> distinct (map blockIndex blocks) \<and>
     list_all (\<lambda>b. snd b \<noteq> []) (if ended then blocks else butlast blocks)"

definition seq_state :: "(bytes \<times> bytes) list \<Rightarrow> db_block list \<Rightarrow> bool \<Rightarrow> enc_state set" where
  "seq_state auxs blocks ended =
     (if ended then {writtenEndState}
      else if blocks = [] then {if auxs = [] then writtenHeaderState else writtenAuxState}
      else if snd (last blocks) = [] then {writtenDBHeaderState, writtenTTLState}
      else {writtenObjectState, writtenTTLState})"

definition calls_inv :: "enc_op list \<Rightarrow> encoder \<Rightarrow> bool" where
  "calls_inv ops e \<longleftrightarrow> ops = [] \<and> encState e = startState \<or>
     (\<exists>auxs blocks ended. ops = callSeq auxs blocks ended \<and> blocks_ok blocks ended \<and>
        blockIndex ` set blocks \<subseteq> existDB e \<and> encState e \<in> seq_state auxs blocks ended)"

lemma callSeq_ops:
  "callSeq [] [] False = [OpHeader]"
  "callSeq auxs [] False @ [OpAux k a] = callSeq (auxs @ [(k, a)]) [] False"
  "callSeq auxs blocks False @ [OpDB i kc tc] = callSeq auxs (blocks @ [((i, kc, tc), [])]) False"
  "callSeq auxs (blocks @ [(d, objs)]) False @ [OpObject key v opts] =
     callSeq auxs (blocks @ [(d, objs @ [(key, v, opts)])]) False"
  "callSeq auxs blocks False @ [OpEnd] = callSeq auxs blocks True"
  by (simp_all add: callSeq_def blockOps_def split: prod.split)

lemma calls_invI:
  "ops = callSeq auxs blocks ended \<Longrightarrow> blocks_ok blocks ended \<Longrightarrow>
   blockIndex ` set blocks \<subseteq> existDB e \<Longrightarrow> encState e \<in> seq_state auxs blocks ended \<Longrightarrow> calls_inv ops e"
  unfolding calls_inv_def by blast

lemma seq_state_ttl:
  "s \<in> seq_state auxs blocks ended \<Longrightarrow> writtenTTLState \<in> stateChanges s \<Longrightarrow>
   writtenTTLState \<in> seq_state auxs blocks ended"
  by (auto simp: seq_state_def split: if_splits)

lemma calls_inv_stay:
  assumes "calls_inv ops e" "existDB e \<subseteq> existDB e'" "encState e' = encState e \<or>
    encState e' = writtenTTLState \<and> writtenTTLState \<in> stateChanges (encState e)"
  shows "calls_inv ops e'"
proof (cases "ops = [] \<and> encState e = startState")
  case True
  with assms(3) show ?thesis by (auto simp: calls_inv_def)
next
  case False
  with assms(1) obtain auxs blocks ended where b: "ops = callSeq auxs blocks ended"
    "blocks_ok blocks ended" "blockIndex ` set blocks \<subseteq> existDB e" "encState e \<in> seq_state auxs blocks ended"
    unfolding calls_inv_def by blast
  have "encState e' \<in> seq_state auxs blocks ended"
    using assms(3) b(4) seq_state_ttl by auto
  then show ?thesis
    unfolding calls_inv_def using b(1-3) assms(2) by blast
qed

lemma calls_invE:
  assumes "calls_inv ops e" "to \<in> stateChanges (encState e)" "to \<noteq> writtenHeaderState"
  obtains auxs blocks where "ops = callSeq auxs blocks False" "blocks_ok blocks False"
    "blockIndex ` set blocks \<subseteq> existDB e" "encState e \<in> seq_state auxs blocks False"
proof -
  have "encState e \<noteq> startState" using assms(2,3) by (cases "encState e") auto
  with assms(1) obtain auxs blocks ended where b: "ops = callSeq auxs blocks ended"
    "blocks_ok blocks ended" "blockIndex ` set blocks \<subseteq> existDB e" "encState e \<in> seq_state auxs blocks ended"
    unfolding calls_inv_def by blast
  moreover have "\<not> ended" using b(4) assms(2) by (auto simp: seq_state_def)
  ultimately show ?thesis using that by simp
qed

lemma list_all_butlast_snoc:
  "blocks \<noteq> [] \<Longrightarrow> list_all P (butlast blocks) \<Longrightarrow> P (last blocks) \<Longrightarrow> list_all P blocks"
  by (cases blocks rule: rev_cases) simp_all

lemma calls_inv_success:
  assumes inv: "calls_inv ops e" and run: "runOp ff op e = (Inr (), e')"
  shows "calls_inv (ops @ [op]) e'"
proof -
  have allowed: "opTarget op \<in> stateChanges (encState e)"
    using runOp_rejected [of op e ff] run by fastforce
  show ?thesis
  proof (cases op)
    case (OpDB i kc tc)
    with run have db: "i \<notin> existDB e" "existDB e' = insert i (existDB e)" "encState e' = writtenDBHeaderState"
      using WriteDBHeader_cases [of i kc tc e "Inr ()" e'] by auto
    from inv allowed OpDB obtain auxs blocks where b: "ops = callSeq auxs blocks False"
      "blocks_ok blocks False" "blockIndex ` set blocks \<subseteq> existDB e" "encState e \<in> seq_state auxs blocks False"
      by (elim calls_invE [where to = "opTarget op"]) simp_all
    let ?blocks = "blocks @ [((i, kc, tc), [])]"
    have "list_all (\<lambda>b. snd b \<noteq> []) blocks"
    proof (cases "blocks = []")
      case False
      moreover from b(4) allowed OpDB False have "snd (last blocks) \<noteq> []"
        by (auto simp: seq_state_def split: if_splits)
      ultimately show ?thesis using b(2) list_all_butlast_snoc [of blocks "\<lambda>b. snd b \<noteq> []"]
        by (simp add: blocks_ok_def)
    qed simp
    then have ok: "blocks_ok ?blocks False" using b(2,3) db(1) by (auto simp: blocks_ok_def blockIndex_def)
    have ex: "blockIndex ` set ?blocks \<subseteq> existDB e'" using b(3) db(2) by (auto simp: blockIndex_def)
    have "ops @ [op] = callSeq auxs ?blocks False" by (simp add: b(1) OpDB callSeq_ops)
    then show ?thesis by (rule calls_invI [OF _ ok ex]) (simp add: seq_state_def db(3))
  next
    case (OpObject key v opts)
    have e': "encState e' = writtenObjectState" "existDB e' = existDB e"
      using runOp_success [of op ff e e'] run OpObject by simp_all
    from inv allowed OpObject obtain auxs blocks where b: "ops = callSeq auxs blocks False"
      "blocks_ok blocks False" "blockIndex ` set blocks \<subseteq> existDB e" "encState e \<in> seq_state auxs blocks False"
      by (elim calls_invE [where to = "opTarget op"]) simp_all
    have "blocks \<noteq> []" using b(4) allowed OpObject by (auto simp: seq_state_def split: if_splits)
    then obtain bs d objs where bs: "blocks = bs @ [(d, objs)]" by (metis rev_exhaust surj_pair)
    let ?blocks = "bs @ [(d, objs @ [(key, v, opts)])]"
    have "ops @ [op] = callSeq auxs ?blocks False" by (simp add: b(1) bs OpObject callSeq_ops)
    moreover have "blocks_ok ?blocks False" "blockIndex ` set ?blocks \<subseteq> existDB e'"
      using b(2,3) e'(2) by (auto simp: bs blocks_ok_def blockIndex_def)
    ultimately show ?thesis by (rule calls_invI) (simp add: seq_state_def e'(1))
  next
    case OpHeader
    have e': "encState e' = writtenHeaderState"
      using runOp_success [of op ff e e'] run OpHeader by simp
    have "encState e = startState" using allowed OpHeader by (cases "encState e") simp_all
    then have "encState e \<notin> seq_state auxs blocks ended" for auxs blocks ended
      by (simp add: seq_state_def)
    with inv have "ops = []" unfolding calls_inv_def by blast
    then have "ops @ [op] = callSeq [] [] False" by (simp add: OpHeader callSeq_ops)
    then show ?thesis by (rule calls_invI) (simp_all add: seq_state_def blocks_ok_def e')
  next
    case (OpAux k v)
    have e': "encState e' = writtenAuxState"
      using runOp_success [of op ff e e'] run OpAux by simp
    from inv allowed OpAux obtain auxs blocks where b: "ops = callSeq auxs blocks False"
      "encState e \<in> seq_state auxs blocks False"
      by (elim calls_invE [where to = "opTarget op"]) simp_all
    have "blocks = []" using b(2) allowed OpAux by (auto simp: seq_state_def split: if_splits)
    with b(1) have "ops @ [op] = callSeq (auxs @ [(k, v)]) [] False" by (simp add: OpAux callSeq_ops)
    then show ?thesis by (rule calls_invI) (simp_all add: seq_state_def blocks_ok_def e')
  next
    case OpEnd
    have e': "encState e' = writtenEndState" "existDB e' = existDB e"
      using runOp_success [of op ff e e'] run OpEnd by simp_all
    from inv allowed OpEnd obtain auxs blocks where b: "ops = callSeq auxs blocks False"
      "blocks_ok blocks False" "blockIndex ` set blocks \<subseteq> existDB e" "encState e \<in> seq_state auxs blocks False"
      by (elim calls_invE [where to = "opTarget op"]) simp_all
    have last: "blocks \<noteq> [] \<longrightarrow> snd (last blocks) \<noteq> []"
      using b(4) allowed OpEnd by (auto simp: seq_state_def split: if_splits)
    have "blocks_ok blocks True"
      using b(2) last list_all_butlast_snoc [of blocks "\<lambda>b. snd b \<noteq> []"]
      by (cases "blocks = []") (auto simp: blocks_ok_def)
    moreover have "ops @ [op] = callSeq auxs blocks True" by (simp add: b(1) OpEnd callSeq_ops)
    moreover have "blockIndex ` set blocks \<subseteq> existDB e'" using b(3) e'(2) by simp
    ultimately show ?thesis by (intro calls_invI [of _ auxs blocks True]) (simp_all add: seq_state_def e'(1))
  qed
qed

lemma runOp_failure_moves:
  assumes "runOp ff op e = (Inl err, e')"
  shows "existDB e \<subseteq> existDB e' \<and> (encState e' = encState e \<or>
    encState e' = writtenTTLState \<and> writtenTTLState \<in> stateChanges (encState e))"
proof (cases "\<exists>i kc tc. op = OpDB i kc tc")
  case True
  then obtain i kc tc where "op = OpDB i kc tc" by blast
  with assms WriteDBHeader_cases [of i kc tc e "Inl err" e'] show ?thesis
    by (auto simp: ttlMove_def)
next
  case False
  with assms have "ttlMove e e'" by (intro runOp_failure) auto
  then show ?thesis by (auto simp: ttlMove_def)
qed

lemma options_keep:
  "calls_inv ops e \<Longrightarrow> calls_inv ops (setListZipListOpt a b e)"
  "calls_inv ops e \<Longrightarrow> calls_inv ops (setHashZipListOpt a b e)"
  "calls_inv ops e \<Longrightarrow> calls_inv ops (setZSetZipListOpt a b e)"
  "calls_inv ops e \<Longrightarrow> calls_inv ops (enableCompress e)"
  by (simp_all add: calls_inv_def setListZipListOpt_def setHashZipListOpt_def setZSetZipListOpt_def
      enableCompress_def)

lemma reachable_calls_inv: "reachable ff w ops e \<Longrightarrow> calls_inv ops e"
proof (induction rule: reachable.induct)
  case (success ops e op e')
  then show ?case by (blast intro: calls_inv_success)
next
  case (failure ops e op err e')
  then show ?case using runOp_failure_moves by (blast intro: calls_inv_stay)
qed (simp_all add: options_keep, simp_all add: calls_inv_def newEncoder_def newEncoderValkey_def)

subsection \<open>The file a client writes\<close>

lemma digestSum_bytes: "digestSum d [] = le_bytes 8 (unat (crc d))"
proof -
  have byte: "(ucast (drop_bit k s) :: byte) = of_nat (unat s div 2 ^ k mod 256)" for k and s :: u64
  proof -
    have "(of_nat (n mod 256) :: byte) = of_nat n" for n
      by (simp add: word_of_nat_eq_iff take_bit_eq_mod)
    moreover have "(ucast (drop_bit k s) :: byte) = of_nat (unat (drop_bit k s))"
      by simp
    ultimately show ?thesis by (simp add: unat_drop_bit)
  qed
  show ?thesis
    unfolding digestSum_def Let_def byte by (simp add: upt_rec le_bytes_numeral div_mult2_eq [symmetric])
qed

definition rdbHeaderOf :: "encoder \<Rightarrow> bytes" where
  "rdbHeaderOf e = (if encValkey e then rdbHeaderValkey else rdbHeaderRedis)"

definition tracked :: "encoder \<Rightarrow> bool" where
  "tracked e \<longleftrightarrow> crcDigest e = digestWrite newDigest (out e)"

definition file_inv :: "encoder \<Rightarrow> bool" where
  "file_inv e \<longleftrightarrow> ready e \<and>
     (if encState e = startState then out e = [] else (\<exists>p. out e = rdbHeaderOf e @ p)) \<and>
     (if encState e = writtenEndState
      then \<exists>p. out e = p @ [opCodeEOF] @ le_bytes 8 (unat (checksum (p @ [opCodeEOF]) jonesTable))
      else tracked e)"

lemma tracked_emit: "tracked e \<Longrightarrow> tracked ((emit p e)\<lparr>encState := s, existDB := x\<rparr>)"
  by (simp add: tracked_def digestWrite_append)

lemma rdbHeaderOf_emit [simp]: "rdbHeaderOf ((emit p e)\<lparr>encState := s, existDB := x\<rparr>) = rdbHeaderOf e"
  by (simp add: rdbHeaderOf_def)

lemma bnd_enc_write: "ready e \<Longrightarrow> bnd (enc_write p) k e = k () (emit p e)"
  using sink.writes_apply [OF enc_write_writes, of e "compress e"] by (simp add: bnd_Inr)

lemma bnd_writeChecksum: "ready e \<Longrightarrow>
  bnd writeChecksum k e = k () (e\<lparr>out := out e @ digestSum (crcDigest e) []\<rparr>)"
  by (simp add: bnd_def writeChecksum_def Let_def ready_def)

lemma runOp_state:
  assumes "runOp ff op e = (r, e')"
  shows "encState e' \<in> {encState e, opTarget op, writtenTTLState}"
proof (cases r)
  case (Inl err)
  with assms runOp_failure_moves [of ff op e err e'] show ?thesis by auto
next
  case (Inr u)
  then have run: "runOp ff op e = (Inr (), e')" using assms by simp
  show ?thesis
  proof (cases "\<exists>i kc tc. op = OpDB i kc tc")
    case True
    with run WriteDBHeader_cases [of _ _ _ e "Inr ()" e'] show ?thesis by force
  next
    case False
    with runOp_success(1) [OF _ run] show ?thesis by simp
  qed
qed

lemma WriteHeader_ready:
  assumes "ready e" "encState e = startState"
  shows "WriteHeader e = (Inr (), (emit (rdbHeaderOf e) e)\<lparr>encState := writtenHeaderState\<rparr>)"
  using assms by (simp add: WriteHeader_def rdbHeaderOf_def bnd_enc_write setState_def)

lemma WriteEnd_ready:
  assumes "ready e" "writtenEndState \<in> stateChanges (encState e)"
  shows "WriteEnd e = (Inr (), (emit [opCodeEOF] e)\<lparr>
    out := out e @ [opCodeEOF] @ digestSum (digestWrite (crcDigest e) [opCodeEOF]) [],
    encState := writtenEndState\<rparr>)"
  using assms by (simp add: WriteEnd_def bnd_enc_write bnd_writeChecksum setState_def)

lemma file_inv_runOp:
  assumes inv: "file_inv e" and run: "runOp ff op e = (r, e')"
  shows "file_inv e'"
proof (cases "opTarget op \<in> stateChanges (encState e)")
  case False
  with runOp_rejected [of op e ff] run inv show ?thesis by auto
next
  case True
  then have "encState e \<noteq> writtenEndState" by auto
  with inv have r: "ready e" "encState e \<noteq> writtenEndState" "tracked e" by (auto simp: file_inv_def)
  consider "op = OpEnd" | "op = OpHeader" | "op \<noteq> OpEnd" "op \<noteq> OpHeader" by blast
  then show ?thesis
  proof cases
    case 1
    then have s: "encState e \<noteq> startState" using True by auto
    have e': "e' = (emit [opCodeEOF] e)\<lparr>
        out := out e @ [opCodeEOF] @ digestSum (digestWrite (crcDigest e) [opCodeEOF]) [],
        encState := writtenEndState\<rparr>"
      using run 1 WriteEnd_ready [OF r(1)] True by simp
    have "crc (digestWrite (crcDigest e) [opCodeEOF]) = checksum (out e @ [opCodeEOF]) jonesTable"
      using r(3) by (simp add: tracked_def digestWrite_append) (simp add: digestWrite_def checksum_def newDigest_def)
    moreover have "ready e'" using r(1) by (simp add: e' ready_def)
    moreover have "rdbHeaderOf e' = rdbHeaderOf e" by (simp add: e' rdbHeaderOf_def)
    ultimately show ?thesis using inv s by (auto simp: file_inv_def e' digestSum_bytes)
  next
    case 2
    then have s: "encState e = startState" using True by (cases "encState e") simp_all
    from run 2 WriteHeader_ready [OF r(1) s] have
      "e' = (emit (rdbHeaderOf e) e)\<lparr>encState := writtenHeaderState\<rparr>" by simp
    also have "\<dots> = (emit (rdbHeaderOf e) e)\<lparr>encState := writtenHeaderState, existDB := existDB e\<rparr>"
      by (simp add: emit_def)
    finally have e': "e' = \<dots>" .
    then have "ready e'" "tracked e'" "rdbHeaderOf e' = rdbHeaderOf e"
      using r by (simp_all add: ready_update tracked_emit)
    with inv s e' show ?thesis by (simp add: file_inv_def)
  next
    case 3
    then have s: "encState e \<noteq> startState" using True by (cases op) auto
    from runOp_tracks [OF 3(1)] r(1) run obtain p st x where
      e': "e' = (emit p e)\<lparr>encState := st, existDB := x\<rparr>"
      unfolding tracks_def by (metis snd_conv)
    then have "ready e'" "tracked e'" "rdbHeaderOf e' = rdbHeaderOf e"
      using r by (simp_all add: ready_update tracked_emit)
    moreover have "st \<noteq> startState \<and> st \<noteq> writtenEndState"
      using runOp_state [OF run] 3 s r(2) e' by (cases op) auto
    ultimately show ?thesis using inv s e' by (auto simp: file_inv_def)
  qed
qed

lemma reachable_file_inv:
  assumes "reachable ff w ops e" "\<And>o' p. w o' p = None"
  shows "file_inv e"
  using assms(1)
proof (induction rule: reachable.induct)
  case (success ops e op e')
  then show ?case by (blast intro: file_inv_runOp)
next
  case (failure ops e op err e')
  then show ?case by (blast intro: file_inv_runOp)
qed (auto simp: file_inv_def ready_def newEncoder_def newEncoderValkey_def setListZipListOpt_def
      setHashZipListOpt_def setZSetZipListOpt_def enableCompress_def assms(2) tracked_def
      digestWrite_Nil rdbHeaderOf_def)

subsection \<open>The bytes of a call\<close>

definition optionTTLs :: "write_option list \<Rightarrow> u64 list" where
  "optionTTLs opts = concat (map (\<lambda>opt. case opt of TTLOption ms \<Rightarrow> [ms] | OtherOption \<Rightarrow> []) opts)"

definition ttlPrefix :: "u64 list \<Rightarrow> bytes" where
  "ttlPrefix ttls = concat (map (\<lambda>ms. opCodeExpireTimeMs # le_bytes 8 (unat ms)) ttls)"

fun rdbType :: "encoder \<Rightarrow> rdb_value \<Rightarrow> byte" where
  "rdbType e (StringVal val) = typeString"
| "rdbType e (ListVal vals) = listType e vals"
| "rdbType e (SetVal vals) = setType vals"
| "rdbType e (HashVal h) = hashType e h"
| "rdbType e (HashExVal h x) = (if encValkey e then typeHash2 else typeHashWithHfe)"
| "rdbType e (ZSetVal es) = zsetType e es"
| "rdbType e (StreamVal s) = streamType (streamVersion s)"

fun rdbPayload :: "(float64 \<Rightarrow> bytes) \<Rightarrow> encoder \<Rightarrow> rdb_value \<Rightarrow> bytes" where
  "rdbPayload ff e (StringVal val) = stringBytes (compress e) val"
| "rdbPayload ff e (ListVal vals) = listPayload e vals"
| "rdbPayload ff e (SetVal vals) = setPayload (compress e) vals"
| "rdbPayload ff e (HashVal h) = hashPayload e h"
| "rdbPayload ff e (HashExVal h x) =
     (if encValkey e then hash2Payload (compress e) h x else hashExPayload (compress e) h x)"
| "rdbPayload ff e (ZSetVal es) = zsetPayload ff e es"
| "rdbPayload ff e (StreamVal s) = streamPayload (compress e) s"

text \<open>
  The values the theorems are about: their strings and their element counts fit the
  address space and the packed forms (\<open>list_ok\<close>, \<open>set_ok\<close>, ...).
\<close>

fun rdb_ok :: "(bytes \<Rightarrow> float64 option) \<Rightarrow> (float64 \<Rightarrow> bytes) \<Rightarrow> encoder \<Rightarrow> rdb_value \<Rightarrow> bool" where
  "rdb_ok pf ff e (StringVal val) = string_ok (compress e) val"
| "rdb_ok pf ff e (ListVal vals) = list_ok e vals"
| "rdb_ok pf ff e (SetVal vals) = set_ok (compress e) vals"
| "rdb_ok pf ff e (HashVal h) = hash_ok e h"
| "rdb_ok pf ff e (HashExVal h x) = hashEx_ok (compress e) h x"
| "rdb_ok pf ff e (ZSetVal es) = zset_ok pf ff e es"
| "rdb_ok pf ff e (StreamVal s) = stream_ok (compress e) s"

text \<open>The bytes depend on the options of the encoder only.\<close>

definition sameOptions :: "encoder \<Rightarrow> encoder \<Rightarrow> bool" where
  "sameOptions e e' \<longleftrightarrow> compress e' = compress e \<and> encValkey e' = encValkey e \<and>
     listZipListOpt e' = listZipListOpt e \<and> hashZipListOpt e' = hashZipListOpt e \<and>
     zsetZipListOpt e' = zsetZipListOpt e \<and> listZipListSize e' = listZipListSize e"

lemma sameOptions_emit: "sameOptions e ((emit p e)\<lparr>encState := s, existDB := x\<rparr>)"
  "sameOptions e ((emit p e)\<lparr>encState := s\<rparr>)" "sameOptions e e"
  by (simp_all add: sameOptions_def)

lemma sameOptions_trans: "sameOptions a b \<Longrightarrow> sameOptions b c \<Longrightarrow> sameOptions a c"
  by (simp add: sameOptions_def)

lemma rdb_cong:
  assumes "sameOptions e e'"
  shows "rdbType e' v = rdbType e v" "rdbPayload ff e' v = rdbPayload ff e v"
    "rdb_ok pf ff e' v = rdb_ok pf ff e v"
  using assms
  by (cases v; simp add: sameOptions_def listType_def hashType_def zsetType_def listPayload_def
      hashPayload_def zsetPayload_def list_ok_def hash_ok_def zset_ok_def)+

definition writeBody :: "(float64 \<Rightarrow> bytes) \<Rightarrow> bytes \<Rightarrow> rdb_value \<Rightarrow> (encoder, unit) gom" where
  "writeBody ff key v = (case v of
     StringVal val \<Rightarrow> bnd (enc_write [typeString]) (\<lambda>_. bnd (writeString key) (\<lambda>_. writeString val))
   | ListVal vals \<Rightarrow> writeListBody key vals
   | SetVal vals \<Rightarrow> writeSetBody key vals
   | HashVal h \<Rightarrow> writeHashBody key h
   | HashExVal h x \<Rightarrow> bnd (getEnc encValkey) (\<lambda>vk.
       if vk then writeHash2Encoding key h x else writeHashEncodingEx key h x)
   | ZSetVal es \<Rightarrow> writeZSetBody ff key es
   | StreamVal s \<Rightarrow> writeStreamBody key s)"

lemma writeValue_body: "writeValue ff key v opts =
    bnd (beforeWriteObject opts) (\<lambda>_. bnd (writeBody ff key v) (\<lambda>_. setState writtenObjectState))"
  by (cases v)
    (simp_all add: object_ops writeBody_def writeListBody_def writeSetBody_def writeHashBody_def
      writeZSetBody_def bnd_assoc)

lemma writeBody_emits:
  assumes "ready e" "string_ok (compress e) key" "rdb_ok pf ff e v"
  shows "writeBody ff key v e =
    (Inr (), emit (rdbType e v # stringBytes (compress e) key @ rdbPayload ff e v) e)"
proof (cases v)
  case (StringVal val)
  have "ewrites (compress e) (writeBody ff key v) ([typeString] @ stringBytes (compress e) key @
      stringBytes (compress e) val) ()"
    unfolding writeBody_def StringVal rdb_value.case using assms StringVal
    by (intro sink.writes_seq enc_write_writes writeString_writes) auto
  from sink.writes_apply [OF this] assms(1) StringVal show ?thesis by simp
next
  case (SetVal vals)
  with assms sink.writes_apply [OF writeSetBody_emits [of "compress e" key vals], of e]
  show ?thesis by (simp add: writeBody_def)
next
  case (HashExVal h x)
  with assms sink.writes_apply [OF writeHash2Encoding_emits [of "compress e" key h x], of e]
    sink.writes_apply [OF writeHashEncodingEx_emits [of "compress e" key h x], of e]
  show ?thesis by (simp add: writeBody_def)
next
  case (StreamVal s)
  with assms sink.writes_apply [OF writeStreamBody_writes [of "compress e" key s], of e]
  show ?thesis by (simp add: writeBody_def)
qed (use assms writeListBody_emits writeHashBody_emits writeZSetBody_emits in \<open>auto simp: writeBody_def\<close>)

text \<open>Options: without a TTL nothing is written; a second TTL is refused.\<close>

lemma forEach_options_noTTL: "optionTTLs opts = [] \<Longrightarrow> forEach applyOption opts e = (Inr (), e)"
  by (induction opts)
    (auto simp: optionTTLs_def applyOption_def ret_def bnd_def split: write_option.splits)

lemma forEach_options_refused:
  "encState e = writtenTTLState \<Longrightarrow> optionTTLs opts \<noteq> [] \<Longrightarrow> \<exists>err. forEach applyOption opts e = (Inl err, e)"
  by (induction opts)
    (auto simp: optionTTLs_def applyOption_def writeTTL_def bnd_ret bnd_assoc split: write_option.splits)

lemma writeTTL_ready:
  assumes "ready e"
  shows "writeTTL ms e = (if writtenTTLState \<in> stateChanges (encState e)
    then (Inr (), (emit (ttlPrefix [ms]) e)\<lparr>encState := writtenTTLState\<rparr>)
    else (Inl (Msg ''cannot write string object''), e))"
  using assms
  by (simp add: writeTTL_def bnd_enc_write setState_def ttlPrefix_def emit_emit)

lemma forEach_options_ready:
  assumes "ready e" "forEach applyOption opts e = (Inr (), e')"
  shows "length (optionTTLs opts) \<le> 1 \<and> (\<exists>s. e' = (emit (ttlPrefix (optionTTLs opts)) e)\<lparr>encState := s\<rparr>)"
  using assms(2)
proof (induction opts)
  case Nil
  then have "e' = (emit (ttlPrefix (optionTTLs [])) e)\<lparr>encState := encState e\<rparr>"
    using assms(1) by (simp add: ret_def optionTTLs_def ttlPrefix_def emit_Nil)
  then show ?case by (auto simp: optionTTLs_def)
next
  case (Cons opt opts)
  show ?case
  proof (cases opt)
    case OtherOption
    with Cons show ?thesis by (simp add: applyOption_def bnd_ret optionTTLs_def)
  next
    case (TTLOption ms)
    let ?e = "(emit (ttlPrefix [ms]) e)\<lparr>encState := writtenTTLState\<rparr>"
    from Cons.prems TTLOption have "forEach applyOption opts ?e = (Inr (), e')"
      by (simp add: applyOption_simps bnd_def writeTTL_ready [OF assms(1)] split: if_splits)
    moreover from this have "optionTTLs opts = []"
      using forEach_options_refused [of ?e opts] by fastforce
    ultimately have "e' = ?e" using forEach_options_noTTL [of opts ?e] by simp
    moreover have "optionTTLs (opt # opts) = [ms]"
      using \<open>optionTTLs opts = []\<close> TTLOption by (simp add: optionTTLs_def)
    ultimately show ?thesis by auto
  qed
qed

lemma writeValue_emits:
  assumes r: "ready e" and ok: "string_ok (compress e) key" "rdb_ok pf ff e v"
    and run: "writeValue ff key v opts e = (Inr (), e')"
  shows "length (optionTTLs opts) \<le> 1"
    "e' = (emit (ttlPrefix (optionTTLs opts) @ rdbType e v # stringBytes (compress e) key @
      rdbPayload ff e v) e)\<lparr>encState := writtenObjectState\<rparr>"
proof -
  from run obtain e1 where e1: "beforeWriteObject opts e = (Inr (), e1)"
    and e2: "bnd (writeBody ff key v) (\<lambda>_. setState writtenObjectState) e1 = (Inr (), e')"
    by (auto simp: writeValue_body bnd_eq_Inr_iff)
  from e1 have "forEach applyOption opts e = (Inr (), e1)"
    by (simp add: beforeWriteObject_def split: if_splits)
  from forEach_options_ready [OF r this] obtain s where
    o: "length (optionTTLs opts) \<le> 1" "e1 = (emit (ttlPrefix (optionTTLs opts)) e)\<lparr>encState := s\<rparr>" by blast
  show "length (optionTTLs opts) \<le> 1" by (rule o(1))
  have same: "sameOptions e e1" by (simp add: o(2) sameOptions_emit)
  then have "string_ok (compress e1) key" "rdb_ok pf ff e1 v" "compress e1 = compress e"
    using ok by (simp_all add: rdb_cong(3) [OF same] sameOptions_def)
  moreover have "ready e1" using r by (simp add: o(2))
  ultimately have "writeBody ff key v e1 =
      (Inr (), emit (rdbType e v # stringBytes (compress e) key @ rdbPayload ff e v) e1)"
    using writeBody_emits [of e1 key pf ff v] rdb_cong(1,2) [OF same] by simp
  with e2 r show "e' = (emit (ttlPrefix (optionTTLs opts) @ rdbType e v # stringBytes (compress e) key @
      rdbPayload ff e v) e)\<lparr>encState := writtenObjectState\<rparr>"
    by (simp add: bnd_Inr setState_def o(2) emit_setState emit_emit)
qed

fun opBytes :: "(float64 \<Rightarrow> bytes) \<Rightarrow> encoder \<Rightarrow> enc_op \<Rightarrow> bytes" where
  "opBytes ff e OpHeader = rdbHeaderOf e"
| "opBytes ff e (OpAux k val) = opCodeAux # stringBytes (compress e) k @ stringBytes (compress e) val"
| "opBytes ff e (OpDB i kc tc) =
     opCodeSelectDB # lengthBytes i @ opCodeResizeDB # lengthBytes kc @ lengthBytes tc"
| "opBytes ff e (OpObject key v opts) = ttlPrefix (optionTTLs opts) @
     rdbType e v # stringBytes (compress e) key @ rdbPayload ff e v"
| "opBytes ff e OpEnd = [opCodeEOF]"

fun op_ok :: "(bytes \<Rightarrow> float64 option) \<Rightarrow> (float64 \<Rightarrow> bytes) \<Rightarrow> encoder \<Rightarrow> enc_op \<Rightarrow> bool" where
  "op_ok pf ff e (OpAux k val) \<longleftrightarrow> string_ok (compress e) k \<and> string_ok (compress e) val"
| "op_ok pf ff e (OpObject key v opts) \<longleftrightarrow> string_ok (compress e) key \<and> rdb_ok pf ff e v"
| "op_ok pf ff e _ = True"

lemma opBytes_cong:
  assumes "sameOptions e e'"
  shows "opBytes ff e' op = opBytes ff e op" "op_ok pf ff e' op = op_ok pf ff e op"
  using assms
  by (cases op; simp add: rdb_cong [OF assms] sameOptions_def rdbHeaderOf_def)+

lemma WriteAux_ready:
  assumes r: "ready e" and ok: "string_ok (compress e) k" "string_ok (compress e) val"
    and run: "WriteAux k val e = (Inr (), e')"
  shows "e' = (emit (opBytes ff e (OpAux k val)) e)\<lparr>encState := writtenAuxState\<rparr>"
proof -
  let ?m = "bnd (enc_write [opCodeAux]) (\<lambda>_. bnd (writeString k) (\<lambda>_. writeString val))"
  have "ewrites (compress e) ?m ([opCodeAux] @ stringBytes (compress e) k @ stringBytes (compress e) val) ()"
    by (intro sink.writes_seq enc_write_writes writeString_writes ok)
  from sink.writes_apply [OF this] r have "?m e = (Inr (), emit (opBytes ff e (OpAux k val)) e)" by simp
  moreover have "bnd ?m (\<lambda>_. setState writtenAuxState) e = (Inr (), e')"
    using run by (simp add: WriteAux_def bnd_assoc split: if_splits)
  ultimately show ?thesis by (simp add: bnd_Inr setState_def)
qed

lemma WriteDBHeader_ready:
  assumes r: "ready e" and run: "WriteDBHeader i kc tc e = (Inr (), e')"
  shows "e' = (emit (opBytes ff e (OpDB i kc tc)) e)\<lparr>encState := writtenDBHeaderState,
    existDB := insert i (existDB e)\<rparr>"
proof -
  let ?m = "bnd (enc_write [opCodeSelectDB]) (\<lambda>_. bnd (writeLength i) (\<lambda>_.
    bnd (enc_write [opCodeResizeDB]) (\<lambda>_. bnd (writeLength kc) (\<lambda>_. writeLength tc))))"
  let ?e = "e\<lparr>existDB := insert i (existDB e)\<rparr>"
  have "ewrites (compress e) ?m ([opCodeSelectDB] @ lengthBytes i @ [opCodeResizeDB] @ lengthBytes kc @ lengthBytes tc) ()"
    by (intro sink.writes_seq enc_write_writes writeLength_writes)
  from sink.writes_apply [OF this, of ?e] r
  have "?m ?e = (Inr (), emit (opBytes ff e (OpDB i kc tc)) ?e)" by simp
  moreover have "bnd ?m (\<lambda>_. setState writtenDBHeaderState) ?e = (Inr (), e')"
    using run by (simp add: WriteDBHeader_def bnd_addDB bnd_assoc fail_def split: if_splits)
  ultimately have "e' = (emit (opBytes ff e (OpDB i kc tc)) ?e)\<lparr>encState := writtenDBHeaderState\<rparr>"
    by (simp add: bnd_Inr setState_def)
  also have "\<dots> = (emit (opBytes ff e (OpDB i kc tc)) e)\<lparr>encState := writtenDBHeaderState,
      existDB := insert i (existDB e)\<rparr>"
    by (simp add: emit_def)
  finally show ?thesis .
qed

lemma keep_existDB: "(emit p e)\<lparr>encState := s\<rparr> = (emit p e)\<lparr>encState := s, existDB := existDB e\<rparr>"
  by (simp add: emit_def)

lemma runOp_bytes:
  assumes r: "ready e" and ok: "op_ok pf ff e op" and run: "runOp ff op e = (Inr (), e')" and "op \<noteq> OpEnd"
  shows "\<exists>s x. e' = (emit (opBytes ff e op) e)\<lparr>encState := s, existDB := x\<rparr>"
proof (cases op)
  case OpHeader
  with run have "encState e = startState"
    using runOp_rejected [of op e ff] by (cases "encState e") auto
  with OpHeader run WriteHeader_ready [OF r] have
    "e' = (emit (opBytes ff e op) e)\<lparr>encState := writtenHeaderState\<rparr>"
    by simp
  then show ?thesis by (metis keep_existDB)
next
  case (OpAux k val)
  with r ok run WriteAux_ready [of e k val e' ff] have
    "e' = (emit (opBytes ff e op) e)\<lparr>encState := writtenAuxState\<rparr>"
    by simp
  then show ?thesis by (metis keep_existDB)
next
  case (OpDB i kc tc)
  with r run WriteDBHeader_ready [of e i kc tc e' ff] show ?thesis by auto
next
  case (OpObject key v opts)
  with r ok run writeValue_emits(2) [of e key pf ff v opts e'] have
    "e' = (emit (opBytes ff e op) e)\<lparr>encState := writtenObjectState\<rparr>"
    by simp
  then show ?thesis by (metis keep_existDB)
qed (use assms in simp)

subsection \<open>Properties\<close>

text \<open>
  C6: whatever a client calls, in whatever order and whatever fails, the calls that
  succeeded form the beginning of a file: one header first, then auxiliary fields, then
  databases with pairwise different indices, each database but the last one with at least
  one object, and nothing after the end.
\<close>

theorem encoder_call_order:
  assumes "reachable ff w ops e"
  shows "ops = [] \<or> (\<exists>auxs blocks ended. ops = callSeq auxs blocks ended \<and>
    distinct (map blockIndex blocks) \<and>
    (\<forall>b \<in> set (if ended then blocks else butlast blocks). snd b \<noteq> []))"
  using reachable_calls_inv [OF assms] unfolding calls_inv_def blocks_ok_def list_all_iff by blast

theorem encoder_call_order_witness:
  "fst (runOps (\<lambda>_. []) [OpHeader, OpEnd] (newEncoder (\<lambda>_ _. None))) = Inr () \<and>
     ([OpHeader, OpEnd] = [] \<or> (\<exists>auxs blocks ended. [OpHeader, OpEnd] = callSeq auxs blocks ended \<and>
       distinct (map blockIndex blocks) \<and>
       (\<forall>b \<in> set (if ended then blocks else butlast blocks). snd b \<noteq> [])))"
proof -
  let ?w = "\<lambda>_ _. None :: nat option"
  let ?e0 = "newEncoder ?w"
  have r0: "ready ?e0" by (simp add: ready_newEncoder)
  have s0: "encState ?e0 = startState" by (simp add: newEncoder_def)
  let ?e1 = "(emit (rdbHeaderOf ?e0) ?e0)\<lparr>encState := writtenHeaderState\<rparr>"
  have h: "runOp (\<lambda>_. []) OpHeader ?e0 = (Inr (), ?e1)" using WriteHeader_ready [OF r0 s0] by simp
  have "ready ?e1" "writtenEndState \<in> stateChanges (encState ?e1)" using r0 by simp_all
  then obtain e2 where en: "runOp (\<lambda>_. []) OpEnd ?e1 = (Inr (), e2)" using WriteEnd_ready by fastforce
  have "reachable (\<lambda>_. []) ?w ([] @ [OpHeader]) ?e1" by (rule reachable.success [OF reachable.start h])
  from reachable.success [OF this en] have "reachable (\<lambda>_. []) ?w [OpHeader, OpEnd] e2" by simp
  from encoder_call_order [OF this] h en show ?thesis
    by (simp add: runOps_def bnd_def ret_def)
qed

text \<open>
  C7: on a writer that never fails, the output of a client that has called anything is
  the nine-byte header followed by the rest of the file, and once the end has been written
  it finishes with the end opcode and the CRC-64 of everything before the checksum, in
  little-endian order.
\<close>

theorem encoder_file_format:
  assumes "reachable ff w ops e" "\<And>o' p. w o' p = None"
  shows "(if encState e = startState then out e = [] else (\<exists>p. out e = rdbHeaderOf e @ p)) \<and>
    (encState e = writtenEndState \<longrightarrow>
      (\<exists>p. out e = p @ [opCodeEOF] @ le_bytes 8 (unat (checksum (p @ [opCodeEOF]) jonesTable))))"
  using reachable_file_inv [OF assms] by (auto simp: file_inv_def)

theorem encoder_file_format_witness:
  "\<exists>e p. runOps (\<lambda>_. []) [OpHeader, OpEnd] (newEncoder (\<lambda>_ _. None)) = (Inr (), e) \<and>
     out e = p @ [opCodeEOF] @ le_bytes 8 (unat (checksum (p @ [opCodeEOF]) jonesTable))"
proof -
  let ?w = "\<lambda>_ _. None :: nat option"
  let ?e0 = "newEncoder ?w"
  have r0: "ready ?e0" "encState ?e0 = startState" by (simp add: ready_newEncoder) (simp add: newEncoder_def)
  let ?e1 = "(emit (rdbHeaderOf ?e0) ?e0)\<lparr>encState := writtenHeaderState\<rparr>"
  have h: "runOp (\<lambda>_. []) OpHeader ?e0 = (Inr (), ?e1)" using WriteHeader_ready [OF r0] by simp
  have "ready ?e1" "writtenEndState \<in> stateChanges (encState ?e1)" using r0 by simp_all
  then obtain e2 where en: "runOp (\<lambda>_. []) OpEnd ?e1 = (Inr (), e2)" "encState e2 = writtenEndState"
    using WriteEnd_ready by fastforce
  have "reachable (\<lambda>_. []) ?w ([] @ [OpHeader]) ?e1" by (rule reachable.success [OF reachable.start h])
  from encoder_file_format [OF reachable.success [OF this en(1)]] en h show ?thesis
    by (auto simp: runOps_def bnd_def ret_def)
qed

text \<open>
  A call the state machine does not allow is refused and changes nothing, in
  particular every call after the end.
\<close>

theorem encoder_refuses:
  assumes "opTarget op \<notin> stateChanges (encState e)"
  shows "\<exists>err. runOp ff op e = (Inl err, e)"
  using assms by (rule runOp_rejected)

theorem encoder_refuses_witness:
  "\<exists>err. runOp (\<lambda>_. []) (OpObject (strlit ''k'') (StringVal (strlit ''v'')) []) (newEncoder (\<lambda>_ _. None)) =
     (Inl err, newEncoder (\<lambda>_ _. None))"
  by (rule encoder_refuses) (simp add: newEncoder_def)

text \<open>
  Whatever a call does, with a writer that may fail after any byte, what has been
  written stays: the output only grows, and the options never change.
\<close>

theorem encoder_output_grows:
  assumes "runOp ff op e = (r, e')"
  shows "(\<exists>p. out e' = out e @ p) \<and> sameOptions e e'"
proof (cases "op = OpEnd")
  case False
  from runOp_tracks [OF this] assms have "frame e e'" unfolding tracks_def by (metis snd_conv)
  then show ?thesis by (auto simp: frame_def sameOptions_def)
next
  case True
  have "(\<exists>p. out e' = out e @ p) \<and> sameOptions e e'" if "WriteEnd e = (r, e')"
    using that
    by (auto simp: WriteEnd_def bnd_def enc_write_def writeChecksum_def setState_def Let_def
        sameOptions_def guardState_def getEnc_def fail_def ret_def split: if_splits option.splits)
  with assms True show ?thesis by simp
qed

theorem encoder_output_grows_witness:
  "(\<exists>p. out (snd (WriteHeader (newEncoder (\<lambda>_ _. Some 2)))) = out (newEncoder (\<lambda>_ _. Some 2)) @ p) \<and>
   sameOptions (newEncoder (\<lambda>_ _. Some 2)) (snd (WriteHeader (newEncoder (\<lambda>_ _. Some 2))))"
  by (rule encoder_output_grows [of "\<lambda>_. []" OpHeader _ "fst (WriteHeader (newEncoder (\<lambda>_ _. Some 2)))"]) simp

text \<open>
  An object takes one expiration: when its options contain a second TTL, the call
  fails, although the first TTL has been written by then.
\<close>

theorem second_ttl_refused:
  assumes "ready e" "2 \<le> length (optionTTLs opts)"
  shows "\<exists>err e'. writeValue ff key v opts e = (Inl err, e')"
proof -
  have "fst (beforeWriteObject opts e) \<noteq> Inr ()"
  proof
    assume "fst (beforeWriteObject opts e) = Inr ()"
    then obtain e1 where "beforeWriteObject opts e = (Inr (), e1)" by (metis prod.collapse)
    then have "forEach applyOption opts e = (Inr (), e1)"
      by (simp add: beforeWriteObject_def split: if_splits)
    from forEach_options_ready [OF assms(1) this] assms(2) show False by simp
  qed
  then show ?thesis
    by (cases "beforeWriteObject opts e"; cases "fst (beforeWriteObject opts e)")
      (auto simp: writeValue_body bnd_def)
qed

theorem second_ttl_refused_witness:
  "\<exists>err e'. writeValue (\<lambda>_. []) (strlit ''k'') (StringVal []) [TTLOption 1, TTLOption 2]
     (newEncoder (\<lambda>_ _. None)) = (Inl err, e')"
  by (rule second_ttl_refused) (simp_all add: ready_newEncoder optionTTLs_def)

end
