(* ===== verification/Module.thy ===== *)
theory Module
  imports Hashes
begin

section \<open>Module values (core/module.go)\<close>

text \<open>
  A module value is read by a handler the caller registers for its type name, or skipped.
  A handler is code of the caller that sees the decoder through the interface
  \<^verbatim>\<open>ModuleTypeHandler\<close> only, so all it can do to the input is to read on: \<open>handler\<close> is
  the type of the methods with that property (\<open>dadvances\<close>).  The methods of the interface
  are the wrappers below.  A nil value is \<open>None\<close>.
\<close>

definition ModuleOpcodeEOF :: nat where "ModuleOpcodeEOF = 0"
definition ModuleOpcodeSInt :: nat where "ModuleOpcodeSInt = 1"
definition ModuleOpcodeUInt :: nat where "ModuleOpcodeUInt = 2"
definition ModuleOpcodeFloat :: nat where "ModuleOpcodeFloat = 3"
definition ModuleOpcodeDouble :: nat where "ModuleOpcodeDouble = 4"
definition ModuleOpcodeString :: nat where "ModuleOpcodeString = 5"

lemmas module_opcodes =
  ModuleOpcodeEOF_def ModuleOpcodeSInt_def ModuleOpcodeUInt_def ModuleOpcodeFloat_def
  ModuleOpcodeDouble_def ModuleOpcodeString_def

definition ReadByte :: "(dstate, byte) gom" where
  "ReadByte = dec_readByte"

definition ReadFull :: "nat \<Rightarrow> (dstate, bytes) gom" where
  "ReadFull n = dec_readFull n"

definition ReadLength :: "(dstate, u64 \<times> bool) gom" where
  "ReadLength = readLength"

definition ReadOpcode :: "(dstate, nat) gom" where
  "ReadOpcode = bnd readLength (\<lambda>(code, _).
     if 5 < code then fail (Msg ''unknown opcode'') else ret (unat code))"

definition ReadUInt :: "(dstate, u64) gom" where
  "ReadUInt = bnd readLength (\<lambda>(val, _). ret val)"

definition ReadSInt :: "(dstate, int) gom" where
  "ReadSInt = bnd readLength (\<lambda>(val, _). ret (sint val))"

definition ReadFloat32 :: "(dstate, u32) gom" where
  "ReadFloat32 = readFloat32"

definition ReadDouble :: "(dstate, float64) gom" where
  "ReadDouble = readFloat"

definition ReadString :: "(dstate, bytes) gom" where
  "ReadString = readString"

typedef 'v handler = "{m :: (dstate, 'v option) gom. dadvances m}"
proof
  show "fail EOF \<in> {m. dadvances m}" by (simp add: src.advances_fail)
qed

subsection \<open>Skipping\<close>

definition skipModuleValue :: "nat \<Rightarrow> (dstate, unit) gom" where
  "skipModuleValue opCode =
     (if opCode = ModuleOpcodeSInt then bnd ReadSInt (\<lambda>_. ret ())
      else if opCode = ModuleOpcodeUInt then bnd ReadUInt (\<lambda>_. ret ())
      else if opCode = ModuleOpcodeFloat then bnd ReadFloat32 (\<lambda>_. ret ())
      else if opCode = ModuleOpcodeDouble then bnd ReadDouble (\<lambda>_. ret ())
      else if opCode = ModuleOpcodeString then bnd ReadString (\<lambda>_. ret ())
      else fail (MsgArgs ''unknown module opcode'' [int opCode]))"

lemma ReadOpcode_advances: "dadvances ReadOpcode"
  unfolding ReadOpcode_def by (intro string_advances)

lemma skipModuleValue_advances: "dadvances (skipModuleValue opCode)"
  unfolding skipModuleValue_def ReadSInt_def ReadUInt_def ReadFloat32_def ReadDouble_def ReadString_def
  by (intro string_advances)

lemma ReadOpcode_progress:
  "ReadOpcode d = (Inr n, d') \<Longrightarrow> length (input d') < length (input d)"
  by (auto simp: ReadOpcode_def bnd_eq_Inr_iff fail_def ret_def split: if_splits
      dest: readLength_progress)

lemma skip_step_progress:
  assumes "skipModuleValue opCode d = (x, d1)" "ReadOpcode d1 = (Inr n, d2)"
  shows "length (input d2) < length (input d)"
  using ReadOpcode_progress [OF assms(2)] advances_length [OF skipModuleValue_advances assms(1)] by simp

function skipModuleLoop :: "nat \<Rightarrow> dstate \<Rightarrow> unit res \<times> dstate" where
  "skipModuleLoop opCode d =
     (if opCode = ModuleOpcodeEOF then (Inr (), d)
      else case skipModuleValue opCode d of
        (Inl e, d1) \<Rightarrow> (Inl e, d1)
      | (Inr _, d1) \<Rightarrow> (case ReadOpcode d1 of
          (Inl e, d2) \<Rightarrow> (Inl e, d2)
        | (Inr opCode', d2) \<Rightarrow> skipModuleLoop opCode' d2))"
  by pat_completeness auto
termination
  by (relation "measure (\<lambda>(opCode, d). length (input d))")
    (auto dest!: sym [of "(Inr _, _)"] intro: skip_step_progress)

declare skipModuleLoop.simps [simp del]

definition skipModuleAuxData :: "int \<Rightarrow> (dstate, 'v option) gom" where
  "skipModuleAuxData encVersion = bnd ReadOpcode (\<lambda>opCode. bnd (skipModuleLoop opCode) (\<lambda>_. ret None))"

subsection \<open>Type names\<close>

definition ModuleTypeNameCharSet :: bytes where
  "ModuleTypeNameCharSet =
     strlit ''ABCDEFGHIJKLMNOPQRSTUVWXYZabcdefghijklmnopqrstuvwxyz0123456789-_''"

fun moduleNameLoop :: "nat \<Rightarrow> u64 \<Rightarrow> bytes \<Rightarrow> bytes" where
  "moduleNameLoop 0 moduleId name = name"
| "moduleNameLoop (Suc n) moduleId name =
     moduleNameLoop n (drop_bit 6 moduleId) (ModuleTypeNameCharSet ! unat (moduleId AND 63) # name)"

definition moduleTypeNameByID :: "u64 \<Rightarrow> bytes" where
  "moduleTypeNameByID moduleId = moduleNameLoop 9 (drop_bit 10 moduleId) []"

definition moduleTypeEncVersionByID :: "u64 \<Rightarrow> u64" where
  "moduleTypeEncVersionByID moduleId = moduleId AND 1023"

subsection \<open>Dispatch\<close>

record 'v dconfig =
  withSpecialOpCode :: bool
  withSpecialTypes :: "bytes \<Rightarrow> (int \<Rightarrow> 'v handler) option"

definition WithSpecialOpCode :: "'v dconfig \<Rightarrow> 'v dconfig" where
  "WithSpecialOpCode cfg = cfg\<lparr>withSpecialOpCode := True\<rparr>"

definition WithSpecialType :: "bytes \<Rightarrow> (int \<Rightarrow> 'v handler) \<Rightarrow> 'v dconfig \<Rightarrow> 'v dconfig" where
  "WithSpecialType moduleType f cfg = cfg\<lparr>withSpecialTypes := (withSpecialTypes cfg)(moduleType := Some f)\<rparr>"

definition handleModuleType :: "'v dconfig \<Rightarrow> u64 \<Rightarrow> (dstate, bytes \<times> 'v option) gom" where
  "handleModuleType cfg moduleId =
     (let moduleType = moduleTypeNameByID moduleId;
          encVersion = sint (moduleTypeEncVersionByID moduleId);
          h = (case withSpecialTypes cfg moduleType of
                 None \<Rightarrow> skipModuleAuxData encVersion
               | Some f \<Rightarrow> Rep_handler (f encVersion))
      in bnd h (\<lambda>val. ret (moduleType, val)))"

definition readModuleType :: "'v dconfig \<Rightarrow> (dstate, bytes \<times> 'v option) gom" where
  "readModuleType cfg = bnd readLength (\<lambda>(moduleId, _). handleModuleType cfg moduleId)"

lemma handleModuleType_registered:
  assumes "moduleType = moduleTypeNameByID moduleId"
  shows "handleModuleType (WithSpecialType moduleType f cfg) moduleId =
    bnd (Rep_handler (f (sint (moduleTypeEncVersionByID moduleId)))) (\<lambda>val. ret (moduleType, val))"
  by (simp add: handleModuleType_def WithSpecialType_def assms Let_def)

lemma interface_advances: "dadvances ReadByte" "dadvances (ReadFull n)" "dadvances ReadLength"
  by (simp_all add: ReadByte_def ReadFull_def ReadLength_def dec_readByte_advances dec_readFull_advances readLength_advances)

lemma Rep_handler_advances: "dadvances (Rep_handler h)"
  using Rep_handler by simp

lemma drop_drop_le:
  "n \<le> length (a :: 'a list) \<Longrightarrow> m \<le> length (drop n a) \<Longrightarrow> \<exists>k \<le> length a. drop m (drop n a) = drop k a"
  by (rule exI [of _ "n + m"]) (simp add: add.commute)

lemma skipModuleLoop_advances: "dadvances (skipModuleLoop opCode)"
proof -
  have "\<exists>n \<le> length (input d). input (snd (skipModuleLoop opCode d)) = drop n (input d)" for d
  proof (induction opCode d rule: skipModuleLoop.induct)
    case (1 opCode d)
    obtain x d1 where v: "skipModuleValue opCode d = (x, d1)" by (cases "skipModuleValue opCode d")
    obtain y d2 where o': "ReadOpcode d1 = (y, d2)" by (cases "ReadOpcode d1")
    obtain n where n: "n \<le> length (input d)" "input d1 = drop n (input d)"
      using src.advances_apply [OF skipModuleValue_advances refl v] by auto
    obtain m where "m \<le> length (input d1)" "input d2 = drop m (input d1)"
      using src.advances_apply [OF ReadOpcode_advances refl o'] by auto
    then obtain k where k: "k \<le> length (input d)" "input d2 = drop k (input d)"
      using n drop_drop_le [of n "input d" m] by auto
    show ?case
    proof (cases "opCode = ModuleOpcodeEOF")
      case True
      then show ?thesis by (simp add: skipModuleLoop.simps exI [of _ 0])
    next
      case False
      show ?thesis
      proof (cases x)
        case (Inl e)
        with False v n show ?thesis by (auto simp: skipModuleLoop.simps [of opCode d])
      next
        case (Inr u)
        show ?thesis
        proof (cases y)
          case (Inl e)
          with False v \<open>x = Inr u\<close> o' k show ?thesis by (auto simp: skipModuleLoop.simps [of opCode d])
        next
          case (Inr opCode')
          have "\<exists>n \<le> length (input d2). input (snd (skipModuleLoop opCode' d2)) = drop n (input d2)"
            using 1 [OF False] v o' \<open>x = Inr u\<close> Inr by metis
          with k obtain j where "j \<le> length (input d)" "input (snd (skipModuleLoop opCode' d2)) = drop j (input d)"
            using drop_drop_le [of k "input d"] by metis
          with False v o' \<open>x = Inr u\<close> Inr show ?thesis by (auto simp: skipModuleLoop.simps [of opCode d])
        qed
      qed
    qed
  qed
  then show ?thesis by (simp add: advances_def)
qed

lemma readModuleType_advances: "dadvances (readModuleType cfg)"
proof -
  have skip: "dadvances (skipModuleAuxData v)" for v
    unfolding skipModuleAuxData_def by (intro string_advances ReadOpcode_advances skipModuleLoop_advances)
  then show ?thesis
    unfolding readModuleType_def handleModuleType_def Let_def
    by (intro string_advances Rep_handler_advances)
qed

subsection \<open>Skipping a value\<close>

text \<open>The typed items of a module value as Redis writes them, up to the end opcode.\<close>

datatype module_item = SIntItem u64 | UIntItem u64 | FloatItem u32 | DoubleItem u64 | StringItem bytes

fun itemBytes :: "bool \<Rightarrow> module_item \<Rightarrow> bytes" where
  "itemBytes c (SIntItem n) = lengthBytes 1 @ lengthBytes n"
| "itemBytes c (UIntItem n) = lengthBytes 2 @ lengthBytes n"
| "itemBytes c (FloatItem f) = lengthBytes 3 @ le_bytes 4 (unat f)"
| "itemBytes c (DoubleItem f) = lengthBytes 4 @ le_bytes 8 (unat f)"
| "itemBytes c (StringItem s) = lengthBytes 5 @ stringBytes c s"

fun item_ok :: "bool \<Rightarrow> module_item \<Rightarrow> bool" where
  "item_ok c (StringItem s) = string_ok c s"
| "item_ok c _ = True"

lemma readLength_then:
  assumes "dparses (g n) [] y"
  shows "dparses (bnd readLength (\<lambda>(v, _). g v)) (lengthBytes n) y"
proof -
  have "dparses ((\<lambda>(v, _). g v) (n, False)) [] y" using assms by simp
  from src.parses_bnd [where f = "\<lambda>(v, _). g v", OF readLength_parses this] show ?thesis by simp
qed

lemma ReadOpcode_parses: "n \<le> 5 \<Longrightarrow> dparses ReadOpcode (lengthBytes n) (unat n)"
  unfolding ReadOpcode_def by (rule readLength_then) (simp add: leD src.parses_ret)

lemma skipModuleLoop_unfold:
  "opCode \<noteq> ModuleOpcodeEOF \<Longrightarrow>
   skipModuleLoop opCode = bnd (skipModuleValue opCode) (\<lambda>_. bnd ReadOpcode skipModuleLoop)"
  by (rule ext, subst skipModuleLoop.simps) (auto simp: bnd_def split: prod.split sum.split)

lemma parses_skip: "dparses m bs x \<Longrightarrow> dparses (bnd m (\<lambda>_. ret ())) bs ()"
  by (rule src.parses_bnd_ret [where f = "\<lambda>_. ()"]) simp_all

lemma readFloat32_parses: "dparses readFloat32 (le_bytes 4 (unat (f :: u32))) f"
  unfolding readFloat32_def
  by (rule src.parses_bnd_ret [OF dec_readFull_parses]) simp_all

lemma skipModuleValue_parses:
  "dparses (skipModuleValue 1) (lengthBytes n) ()" "dparses (skipModuleValue 2) (lengthBytes n) ()"
  "dparses (skipModuleValue 3) (le_bytes 4 (unat (f :: u32))) ()"
  "dparses (skipModuleValue 4) (le_bytes 8 (unat (g :: u64))) ()"
  "string_ok c s \<Longrightarrow> dparses (skipModuleValue 5) (stringBytes c s) ()"
proof -
  have "dparses ReadSInt (lengthBytes n) (sint n)" "dparses ReadUInt (lengthBytes n) n"
    unfolding ReadSInt_def ReadUInt_def by (rule readLength_then, rule src.parses_ret)+
  then show "dparses (skipModuleValue 1) (lengthBytes n) ()" "dparses (skipModuleValue 2) (lengthBytes n) ()"
    by (simp_all add: skipModuleValue_def module_opcodes parses_skip)
  show "dparses (skipModuleValue 3) (le_bytes 4 (unat (f :: u32))) ()"
  "dparses (skipModuleValue 4) (le_bytes 8 (unat (g :: u64))) ()"
    "string_ok c s \<Longrightarrow> dparses (skipModuleValue 5) (stringBytes c s) ()"
    by (simp_all add: skipModuleValue_def module_opcodes ReadFloat32_def ReadDouble_def ReadString_def
        parses_skip [OF readFloat32_parses] parses_skip [OF readFloat_parses] parses_skip [OF readString_parses])
qed

lemma skipItems_parses:
  assumes "list_all (item_ok c) items"
  shows "dparses (bnd ReadOpcode skipModuleLoop) (concat (map (itemBytes c) items) @ lengthBytes 0) ()"
  using assms
proof (induction items)
  case Nil
  have "skipModuleLoop 0 = ret ()"
    by (rule ext) (simp add: skipModuleLoop.simps ModuleOpcodeEOF_def ret_def)
  then have "dparses (bnd ReadOpcode skipModuleLoop) (lengthBytes 0 @ []) ()"
    by (intro src.parses_bnd [OF ReadOpcode_parses]) (simp_all add: src.parses_ret)
  then show ?case by simp
next
  case (Cons it items)
  let ?rest = "concat (map (itemBytes c) items) @ lengthBytes 0"
  have rest: "dparses (bnd ReadOpcode skipModuleLoop) ?rest ()" using Cons by simp
  have step: "dparses (bnd ReadOpcode skipModuleLoop) (lengthBytes n @ bs @ ?rest) ()"
    if "0 < n" "n \<le> 5" "dparses (skipModuleValue (unat n)) bs ()" for n :: u64 and bs
  proof (rule src.parses_bnd [OF ReadOpcode_parses [OF that(2)]])
    have "unat n \<noteq> ModuleOpcodeEOF" using that(1) by (simp add: ModuleOpcodeEOF_def unat_gt_0)
    then show "dparses (skipModuleLoop (unat n)) (bs @ ?rest) ()"
      unfolding skipModuleLoop_unfold [OF \<open>unat n \<noteq> ModuleOpcodeEOF\<close>]
      by (intro src.parses_bnd [OF that(3) rest])
  qed
  show ?case
    using Cons.prems step [of 1] step [of 2] step [of 3] step [of 4] step [of 5] skipModuleValue_parses
    by (cases it) simp_all
qed

subsection \<open>Type names determine the id\<close>

lemma moduleNameLoop_eq: "moduleNameLoop n i name =
    map (\<lambda>j. ModuleTypeNameCharSet ! unat (drop_bit (6 * (n - 1 - j)) i AND 63)) [0..<n] @ name"
proof (induction n arbitrary: i name)
  case (Suc n)
  have "map (\<lambda>j. ModuleTypeNameCharSet ! unat (drop_bit (6 * (n - 1 - j)) (drop_bit 6 i) AND 63)) [0..<n] =
      map (\<lambda>j. ModuleTypeNameCharSet ! unat (drop_bit (6 * (Suc n - 1 - j)) i AND 63)) [0..<n]"
  proof (rule map_cong [OF refl])
    fix j assume "j \<in> set [0..<n]"
    then have "6 * (n - 1 - j) + 6 = 6 * (Suc n - 1 - j)" by auto
    then show "ModuleTypeNameCharSet ! unat (drop_bit (6 * (n - 1 - j)) (drop_bit 6 i) AND 63) =
        ModuleTypeNameCharSet ! unat (drop_bit (6 * (Suc n - 1 - j)) i AND 63)" by simp
  qed
  with Suc show ?case by simp
qed simp

lemma distinct_charSet: "distinct ModuleTypeNameCharSet" and length_charSet: "length ModuleTypeNameCharSet = 64"
  by (simp_all add: ModuleTypeNameCharSet_def strlit_def)

lemma base64_eq:
  "(\<And>k. k < n \<Longrightarrow> y div 64 ^ k mod 64 = z div 64 ^ k mod (64 :: nat)) \<Longrightarrow> y < 64 ^ n \<Longrightarrow> z < 64 ^ n \<Longrightarrow> y = z"
proof (induction n arbitrary: y z)
  case (Suc n)
  have "y div 64 = z div 64"
  proof (rule Suc.IH)
    show "y div 64 div 64 ^ k mod 64 = z div 64 div 64 ^ k mod 64" if "k < n" for k
      using Suc.prems(1) [of "Suc k"] that by (simp add: div_mult2_eq)
  qed (use Suc.prems(2,3) in \<open>auto simp: less_mult_imp_div_less mult.commute\<close>)
  moreover have "y mod 64 = z mod 64" using Suc.prems(1) [of 0] by simp
  ultimately show ?case by (metis div_mult_mod_eq)
qed simp

lemma and_63: "unat (w AND 63 :: u64) = unat w mod 64"
proof -
  have "(63 :: u64) = mask 6" by (simp add: mask_eq_exp_minus_1)
  then show ?thesis using unat_and_mask [of w 6] by simp
qed

lemma module_id_eq:
  assumes "moduleTypeNameByID a = moduleTypeNameByID b"
    "moduleTypeEncVersionByID a = moduleTypeEncVersionByID b"
  shows "a = b"
proof -
  have digit: "unat a div 1024 div 64 ^ k mod 64 = unat b div 1024 div 64 ^ k mod 64" if "k < 9" for k
  proof -
    let ?g = "\<lambda>x. unat (drop_bit (6 * k) (drop_bit 10 x) AND (63 :: u64))"
    have "(moduleTypeNameByID x) ! (8 - k) = ModuleTypeNameCharSet ! ?g x" for x
      using that nth_upt [of 0 "8 - k" 9]
      by (simp add: moduleTypeNameByID_def moduleNameLoop_eq del: upt.simps upt_Suc)
    with assms(1) have "ModuleTypeNameCharSet ! ?g a = ModuleTypeNameCharSet ! ?g b" by metis
    moreover have "?g x < length ModuleTypeNameCharSet" for x by (simp add: and_63 length_charSet)
    ultimately have "?g a = ?g b" using distinct_charSet nth_eq_iff_index_eq by metis
    moreover have "x div 1024 div 64 ^ k = x div 64 ^ k div 1024" for x :: nat
      by (metis div_mult2_eq mult.commute)
    ultimately show ?thesis
      by (simp add: and_63 unat_drop_bit power_mult div_mult2_eq power_add)
  qed
  have "unat x div 1024 < 64 ^ 9" for x :: u64
    using unat_bound [of x] by (simp add: div_less_iff_less_mult)
  then have hi: "unat a div 1024 = unat b div 1024" by (intro base64_eq [of 9, OF digit])
  have "(1023 :: u64) = mask 10" by (simp add: mask_eq_exp_minus_1)
  then have "unat a mod 1024 = unat b mod 1024"
    using assms(2) unat_and_mask [of a 10] unat_and_mask [of b 10]
    by (simp add: moduleTypeEncVersionByID_def)
  with hi show ?thesis by (metis div_mult_mod_eq word_unat_eq_iff)
qed

subsection \<open>Properties\<close>

text \<open>
  Skipping a module value reads every typed item of it up to the end opcode, and
  leaves the decoder exactly behind it.
\<close>

theorem module_skip_consumes:
  assumes "list_all (item_ok c) items"
    "input d = concat (map (itemBytes c) items) @ lengthBytes 0 @ rest"
  shows "\<exists>d'. skipModuleAuxData v d = (Inr (None :: 'v option), d') \<and> input d' = rest"
proof -
  have "dparses (bnd (bnd ReadOpcode skipModuleLoop) (\<lambda>_. ret (None :: 'v option)))
      (concat (map (itemBytes c) items) @ lengthBytes 0) None"
    by (rule src.parses_bnd_ret [OF skipItems_parses [OF assms(1)], where f = "\<lambda>_. None"]) simp
  then have "dparses (skipModuleAuxData v :: (dstate, 'v option) gom)
      (concat (map (itemBytes c) items) @ lengthBytes 0) None"
    by (simp add: skipModuleAuxData_def bnd_assoc)
  from src.parses_apply [OF this, of d rest] assms(2) show ?thesis by simp
qed

theorem module_skip_consumes_witness:
  "\<exists>d'. skipModuleAuxData 0 \<lparr>input = concat (map (itemBytes False) [SIntItem 7, StringItem (strlit ''x'')]) @
      lengthBytes 0 @ [9], readCount = 0, valkey = False, rdbVersion = 11\<rparr> = (Inr (None :: nat option), d') \<and>
    input d' = [9]"
  by (rule module_skip_consumes [where c = False and items = "[SIntItem 7, StringItem (strlit ''x'')]"])
    (simp_all add: string_ok_def maxAlloc_def strlit_def)

text \<open>
  The nine-character type name and the encoding version determine the 64-bit module
  id: two different modules are never confused.
\<close>

theorem module_id_injective:
  assumes "a \<noteq> b"
  shows "(moduleTypeNameByID a, moduleTypeEncVersionByID a) \<noteq> (moduleTypeNameByID b, moduleTypeEncVersionByID b)"
  using assms module_id_eq by auto

theorem module_id_injective_witness:
  "(moduleTypeNameByID 1024, moduleTypeEncVersionByID 1024) \<noteq> (moduleTypeNameByID 2048, moduleTypeEncVersionByID 2048)"
  by (rule module_id_injective) simp

end
