(* ===== verification/Decoder.thy ===== *)
theory Decoder
  imports Module MemProfiler Encoder
begin

section \<open>The decoder (core/decoder.go)\<close>

text \<open>
  The header check, the dispatch on the type of an object, and the parse loop.  The state
  of a run is the decoder's and the callback's: the callback is code of the caller, a
  method \<open>cb\<close> on a state of its own that sees each object and says whether to go on.
  \<open>pf\<close> is \<^verbatim>\<open>strconv.ParseFloat(_, 64)\<close>.  The loop is recursive on the input: every turn
  that goes on has consumed at least one byte.
\<close>

definition magicNumberRedis :: bytes where "magicNumberRedis = strlit ''REDIS''"
definition magicNumberValkey :: bytes where "magicNumberValkey = strlit ''VALKEY''"

definition minVersion :: int where "minVersion = 1"
definition maxVersion :: int where "maxVersion = 12"
definition minVersionValkey :: int where "minVersionValkey = 80"
definition maxVersionValkey :: int where "maxVersionValkey = 80"

definition newDecoder :: "bytes \<Rightarrow> dstate" where
  "newDecoder inp = \<lparr>input = inp, readCount = 0, valkey = False, rdbVersion = 0\<rparr>"

definition checkVersion :: "bytes \<Rightarrow> (dstate, unit) gom" where
  "checkVersion versionString d = (case parseInt 64 versionString of
     None \<Rightarrow> (Inl (Msg ''not valid version number''), d)
   | Some version \<Rightarrow>
       if \<not> valkey d \<and> (version < minVersion \<or> maxVersion < version)
       then (Inl (MsgArgs ''cannot parse version'' [version]), d)
       else if valkey d \<and> (version < minVersionValkey \<or> maxVersionValkey < version)
       then (Inl (MsgArgs ''cannot parse version'' [version]), d)
       else (Inr (), d\<lparr>rdbVersion := version\<rparr>))"

definition checkHeader :: "(dstate, unit) gom" where
  "checkHeader d = (case dec_readFull 9 d of
     (Inl EOF, d') \<Rightarrow> (Inl (Msg ''empty file''), d')
   | (Inl err, d') \<Rightarrow> (Inl (Wrap ''io error'' err), d')
   | (Inr header, d') \<Rightarrow>
       if take (length magicNumberRedis) header = magicNumberRedis
       then checkVersion (drop (length magicNumberRedis) header) (d'\<lparr>valkey := False\<rparr>)
       else if take (length magicNumberValkey) header = magicNumberValkey
       then checkVersion (drop (length magicNumberValkey) header) (d'\<lparr>valkey := True\<rparr>)
       else (Inl (Msg ''file is not a RDB file''), d'))"

subsection \<open>Objects\<close>

definition encodingMap :: "byte \<Rightarrow> bytes" where
  "encodingMap flag = (case map_of [
     (typeString, StringEncoding), (typeList, ListEncoding), (typeSet, SetEncoding),
     (typeZset, ZSetEncoding), (typeHash, HashEncoding), (typeZset2, ZSet2Encoding),
     (typeHashZipMap, ZipMapEncoding), (typeListZipList, ZipListEncoding),
     (typeSetIntSet, IntSetEncoding), (typeZsetZipList, ZipListEncoding),
     (typeHashZipList, ZipListEncoding), (typeListQuickList, QuickListEncoding),
     (typeStreamListPacks, ListPackEncoding), (typeStreamListPacks2, ListPackEncoding),
     (typeHashListPack, ListPackEncoding), (typeZsetListPack, ListPackEncoding),
     (typeListQuickList2, QuickList2Encoding), (typeSetListPack, ListPackEncoding),
     (typeHashWithHfeRc, HashExEncoding), (typeHashListPackWithHfeRc, ListPackExEncoding),
     (typeHashWithHfe, HashExEncoding), (typeHashListPackWithHfe, ListPackExEncoding)] flag of
     None \<Rightarrow> [] | Some encoding \<Rightarrow> encoding)"

abbreviation withExtra :: "base_object \<Rightarrow> detail \<Rightarrow> base_object" where
  "withExtra b x \<equiv> b\<lparr>baseExtra := Some x\<rparr>"

definition streamVersionOf :: "byte \<Rightarrow> nat" where
  "streamVersionOf flag =
     (if flag = typeStreamListPacks2 then 2 else if flag = typeStreamListPacks3 then 3 else 1)"

definition readHashObjectEx :: "byte \<Rightarrow> (dstate, hash \<times> expirations) gom" where
  "readHashObjectEx flag d =
     (if valkey d then readHashMapExValkey d else readHashMapEx (flag = typeHashWithHfeRc) d)"

definition readObject ::
  "(bytes \<Rightarrow> float64 option) \<Rightarrow> 'v dconfig \<Rightarrow> byte \<Rightarrow> base_object \<Rightarrow> (dstate, 'v option redis_object) gom"
where
  "readObject pf cfg flag base0 =
     (let base = base0\<lparr>baseEncoding := encodingMap flag\<rparr> in
      if flag = typeString then bnd readString (\<lambda>bs. ret (StringObject base bs))
      else if flag = typeList then bnd readList (\<lambda>vals. ret (ListObject base vals))
      else if flag = typeSet then bnd readSet (\<lambda>members. ret (SetObject base members))
      else if flag = typeSetIntSet then
        bnd readIntSet (\<lambda>(members, extra). ret (SetObject (withExtra base extra) members))
      else if flag = typeHash then bnd readHashMap (\<lambda>h. ret (HashObject base h []))
      else if flag = typeListZipList then bnd readZipList (\<lambda>vals. ret (ListObject base vals))
      else if flag = typeListQuickList then
        bnd readQuickList (\<lambda>(vals, extra). ret (ListObject (withExtra base extra) vals))
      else if flag = typeListQuickList2 then
        bnd readQuickList2 (\<lambda>(vals, extra). ret (ListObject (withExtra base extra) vals))
      else if flag = typeHashZipMap then bnd readZipMapHash (\<lambda>h. ret (HashObject base h []))
      else if flag = typeHashZipList then
        bnd readZipListHash (\<lambda>(h, extra). ret (HashObject (withExtra base extra) h []))
      else if flag = typeHashListPack then
        bnd readListPackHash (\<lambda>(h, extra). ret (HashObject (withExtra base extra) h []))
      else if flag = typeZset then bnd (readZSet pf False) (\<lambda>es. ret (ZSetObject base es))
      else if flag = typeZset2 then bnd (readZSet pf True) (\<lambda>es. ret (ZSetObject base es))
      else if flag = typeZsetZipList then
        bnd (readZipListZSet pf) (\<lambda>(es, extra). ret (ZSetObject (withExtra base extra) es))
      else if flag = typeZsetListPack then
        bnd (readListPackZSet pf) (\<lambda>(es, extra). ret (ZSetObject (withExtra base extra) es))
      else if flag \<in> {typeStreamListPacks, typeStreamListPacks2, typeStreamListPacks3} then
        bnd (readStreamListPacks (streamVersionOf flag)) (\<lambda>s. ret (StreamObject base s))
      else if flag = typeModule2 then
        bnd (readModuleType cfg) (\<lambda>(moduleType, val). ret (ModuleTypeObject base moduleType val))
      else if flag = typeSetListPack then
        bnd readListPackSet (\<lambda>(members, extra). ret (SetObject (withExtra base extra) members))
      else if flag \<in> {typeHashWithHfe, typeHashWithHfeRc} then
        bnd (readHashObjectEx flag) (\<lambda>(h, expire). ret (HashObject base h expire))
      else if flag \<in> {typeHashListPackWithHfe, typeHashListPackWithHfeRc} then
        bnd (readListPackHashEx (flag = typeHashListPackWithHfeRc)) (\<lambda>(h, expire, extra).
          ret (HashObject (withExtra base extra) h expire))
      else fail (MsgArgs ''unknown type flag'' [uint flag]))"

subsection \<open>The parse loop\<close>

type_synonym 'c pstate = "dstate \<times> 'c"

definition onDec :: "(dstate, 'a) gom \<Rightarrow> ('c pstate, 'a) gom" where
  "onDec m s = (case m (fst s) of (r, d) \<Rightarrow> (r, (d, snd s)))"

definition onCb :: "('c, 'a) gom \<Rightarrow> ('c pstate, 'a) gom" where
  "onCb m s = (case m (snd s) of (r, c) \<Rightarrow> (r, (fst s, c)))"

record loop_vars =
  dbIndex :: int
  expireMs :: int
  lru :: "int option"
  lfu :: "int option"

definition initVars :: loop_vars where
  "initVars = \<lparr>dbIndex = 0, expireMs = 0, lru = None, lfu = None\<rparr>"

datatype loop_next = Continue loop_vars | Break

text \<open>
  The two places where the code stops the loop on an error instead of returning it: the
  assigned \<^verbatim>\<open>err\<close> is a local of the branch, and \<^verbatim>\<open>break\<close> leaves the loop.
\<close>

definition orBreak :: "('s, 'a) gom \<Rightarrow> ('a \<Rightarrow> ('s, loop_next) gom) \<Rightarrow> ('s, loop_next) gom" where
  "orBreak m k s = (case m s of
     (Inl (GoPanic p), s') \<Rightarrow> (Inl (GoPanic p), s')
   | (Inl err, s') \<Rightarrow> (Inr Break, s')
   | (Inr x, s') \<Rightarrow> k x s')"

definition deliver ::
  "('o \<Rightarrow> ('c, bool) gom) \<Rightarrow> 'o \<Rightarrow> loop_vars \<Rightarrow> ('c pstate, loop_next) gom" where
  "deliver cb obj vars =
     bnd (onCb (cb obj)) (\<lambda>tbc. ret (if tbc then Continue vars else Break))"

definition parseResizeDB ::
  "'v dconfig \<Rightarrow> ('v option redis_object \<Rightarrow> ('c, bool) gom) \<Rightarrow> loop_vars \<Rightarrow> ('c pstate, loop_next) gom"
where
  "parseResizeDB cfg cb vars =
     bnd (onDec readLength) (\<lambda>(keyCount, _).
     orBreak (onDec readLength) (\<lambda>(ttlCount, _).
     if withSpecialOpCode cfg
     then deliver cb (DBSizeObject (emptyBase\<lparr>baseDB := dbIndex vars\<rparr>) keyCount ttlCount) vars
     else ret (Continue vars)))"

definition parseAux ::
  "'v dconfig \<Rightarrow> ('v option redis_object \<Rightarrow> ('c, bool) gom) \<Rightarrow> loop_vars \<Rightarrow> ('c pstate, loop_next) gom"
where
  "parseAux cfg cb vars =
     bnd (onDec readString) (\<lambda>key.
     orBreak (onDec readString) (\<lambda>val.
     if withSpecialOpCode cfg
     then deliver cb (AuxObject (emptyBase\<lparr>baseType := AuxType, baseKey := key\<rparr>) val) vars
     else ret (Continue vars)))"

definition parseFunction ::
  "'v dconfig \<Rightarrow> ('v option redis_object \<Rightarrow> ('c, bool) gom) \<Rightarrow> loop_vars \<Rightarrow> ('c pstate, loop_next) gom"
where
  "parseFunction cfg cb vars =
     bnd (onDec readString) (\<lambda>functionsLua.
     if withSpecialOpCode cfg
     then deliver cb (FunctionsObject (emptyBase\<lparr>baseKey := strlit ''functions'',
       baseType := FunctionsType, baseEncoding := strlit ''functions''\<rparr>) functionsLua) vars
     else ret (Continue vars))"

definition parseSlotInfo :: "loop_vars \<Rightarrow> ('c pstate, loop_next) gom" where
  "parseSlotInfo vars s =
     (if \<not> valkey (fst s)
      then (Inl (MsgArgs ''unsupported opcode 244 in Redis RDB version'' [rdbVersion (fst s)]), s)
      else bnd (onDec readLength) (\<lambda>_. bnd (onDec readLength) (\<lambda>_. bnd (onDec readLength) (\<lambda>_.
           ret (Continue vars)))) s)"

definition parseSlotImport :: "loop_vars \<Rightarrow> ('c pstate, loop_next) gom" where
  "parseSlotImport vars s =
     (if valkey (fst s)
      then bnd (onDec readString) (\<lambda>job.
           bnd (onDec readLength) (\<lambda>(num_slot_ranges, _).
           bnd (makeslice 16 (uint num_slot_ranges)) (\<lambda>_.
           bnd (onDec (readN (unat num_slot_ranges) (bnd readLength (\<lambda>_. readLength)))) (\<lambda>_.
           ret (Continue vars))))) s
      else (Inl (MsgArgs ''unsupported opcode: RDB_OPCODE_KEY_META (243) in Redis RDB version''
             [rdbVersion (fst s)]), s))"

text \<open>The time of an expiration in milliseconds, with the wrap-around of \<^verbatim>\<open>int64\<close>.\<close>

definition expirationTime :: "int \<Rightarrow> int" where
  "expirationTime ms = sint (of_int (ms * 1000000) :: u64)"

definition parseObject ::
  "(bytes \<Rightarrow> float64 option) \<Rightarrow> 'v dconfig \<Rightarrow> ('v option redis_object \<Rightarrow> ('c, bool) gom) \<Rightarrow> loop_vars \<Rightarrow>
    byte \<Rightarrow> ('c pstate, loop_next) gom"
where
  "parseObject pf cfg cb vars b =
     bnd (onDec readString) (\<lambda>key.
     let base = emptyBase\<lparr>baseDB := dbIndex vars, baseKey := key,
           baseExpiration := (if 0 < expireMs vars then Some (expirationTime (expireMs vars)) else None),
           baseIdleTime := lru vars, baseFreq := lfu vars\<rparr>;
         vars' = vars\<lparr>expireMs := (if 0 < expireMs vars then 0 else expireMs vars),
           lru := None, lfu := None\<rparr>
     in bnd (onDec (readObject pf cfg b base)) (\<lambda>obj.
        bnd (\<lambda>s. (SizeOfObject obj, s)) (\<lambda>n.
        deliver cb (withBase (\<lambda>base. base\<lparr>baseSize := n, baseType := GetType obj\<rparr>) obj) vars')))"

definition parseStep ::
  "(bytes \<Rightarrow> float64 option) \<Rightarrow> 'v dconfig \<Rightarrow> ('v option redis_object \<Rightarrow> ('c, bool) gom) \<Rightarrow> loop_vars \<Rightarrow>
    ('c pstate, loop_next) gom"
where
  "parseStep pf cfg cb vars =
     bnd (onDec dec_readByte) (\<lambda>b.
     if b = opCodeEOF then ret Break
     else if b = opCodeSelectDB then
       bnd (onDec readLength) (\<lambda>(dbIndex64, _). ret (Continue (vars\<lparr>dbIndex := sint dbIndex64\<rparr>)))
     else if b = opCodeExpireTime then
       bnd (onDec (dec_readFull 4)) (\<lambda>bs. ret (Continue (vars\<lparr>expireMs := int (le_val bs) * 1000\<rparr>)))
     else if b = opCodeExpireTimeMs then
       bnd (onDec (dec_readFull 8)) (\<lambda>bs.
         ret (Continue (vars\<lparr>expireMs := sint (of_nat (le_val bs) :: u64)\<rparr>)))
     else if b = opCodeResizeDB then parseResizeDB cfg cb vars
     else if b = opCodeAux then parseAux cfg cb vars
     else if b = opCodeFreq then
       bnd (onDec dec_readByte) (\<lambda>freq. ret (Continue (vars\<lparr>lfu := Some (uint freq)\<rparr>)))
     else if b = opCodeIdle then
       bnd (onDec readLength) (\<lambda>(idle, _). ret (Continue (vars\<lparr>lru := Some (sint idle)\<rparr>)))
     else if b = opCodeModuleAux then
       bnd (onDec (readModuleType cfg)) (\<lambda>_. ret (Continue vars))
     else if b = opCodeFunction then parseFunction cfg cb vars
     else if b = opCodeSlotInfo then parseSlotInfo vars
     else if b = opCodeSlotImport then parseSlotImport vars
     else parseObject pf cfg cb vars b)"

subsection \<open>Every turn moves forward\<close>

abbreviation pat :: "'c pstate \<Rightarrow> bytes \<Rightarrow> bool" where
  "pat s r \<equiv> input (fst s) = r"

abbreviation padv :: "nat \<Rightarrow> 'c pstate \<Rightarrow> 'c pstate" where
  "padv n s \<equiv> (dec_adv n (fst s), snd s)"

interpretation run: byte_source pat padv
  by unfold_locales (simp_all add: dec_adv_def add.commute add.left_commute)

lemma onDec_parses: "dparses m bs x \<Longrightarrow> parses pat padv (onDec m) bs x"
  by (simp add: parses_def onDec_def)

lemma onDec_advances: "dadvances m \<Longrightarrow> advances pat (onDec m)"
  by (simp add: advances_def onDec_def split_beta)

lemma onCb_advances: "advances pat (onCb m)"
  by (auto simp: advances_def onCb_def split_beta intro: exI [of _ 0])

lemma orBreak_advances:
  assumes "advances pat m" "\<And>x. advances pat (k x)"
  shows "advances pat (orBreak m k)"
proof -
  have "advances pat (bnd m k)" using assms by (rule run.advances_bnd)
  moreover have "snd (orBreak m k s) = snd (bnd m k s)" for s
    by (auto simp: orBreak_def bnd_def split: prod.split sum.split go_error.split)
  ultimately show ?thesis by (simp add: advances_def)
qed

lemma deliver_advances: "advances pat (deliver cb obj vars)"
  unfolding deliver_def by (intro run.advances_intros onCb_advances)

lemma readObject_advances: "dadvances (readObject pf cfg flag base)"
proof -
  have ex: "dadvances (readHashObjectEx flag)" for flag
    using readHashMapExValkey_advances readHashMapEx_advances [of "flag = typeHashWithHfeRc"]
    by (auto simp: advances_def readHashObjectEx_def)
  show ?thesis
    unfolding readObject_def Let_def
    by (intro string_advances list_advances set_advances hash_advances readStreamListPacks_advances
        readModuleType_advances ex)
qed

lemma advances_choice:
  fixes m :: "('c pstate, 'a) gom" and k :: "('c pstate, 'b) gom"
  assumes "advances pat m" "\<And>s. snd (k s) = snd (m s) \<or> snd (k s) = s"
  shows "advances pat k"
  unfolding advances_def
proof (intro allI impI)
  fix s :: "'c pstate" and r
  assume s: "pat s r"
  from assms(1) s have "\<exists>n \<le> length r. pat (snd (m s)) (drop n r)" unfolding advances_def by blast
  with assms(2) [of s] s show "\<exists>n \<le> length r. pat (snd (k s)) (drop n r)"
    by (metis drop0 le0)
qed

lemma slot_advances: "advances pat (parseSlotInfo vars)" "advances pat (parseSlotImport vars)"
proof -
  have "advances pat (bnd (onDec readLength) (\<lambda>_. bnd (onDec readLength) (\<lambda>_. bnd (onDec readLength) (\<lambda>_.
      ret (Continue vars)))))"
    by (intro run.advances_intros onDec_advances string_advances)
  then show "advances pat (parseSlotInfo vars)"
    by (rule advances_choice) (simp add: parseSlotInfo_def)
  have "advances pat (bnd (onDec readString) (\<lambda>job. bnd (onDec readLength) (\<lambda>(num_slot_ranges, _).
      bnd (makeslice 16 (uint num_slot_ranges)) (\<lambda>_.
      bnd (onDec (readN (unat num_slot_ranges) (bnd readLength (\<lambda>_. readLength)))) (\<lambda>_.
      ret (Continue vars))))))"
    by (intro run.advances_intros onDec_advances string_advances)
  then show "advances pat (parseSlotImport vars)"
    by (rule advances_choice) (simp add: parseSlotImport_def)
qed

lemma parseObject_advances: "advances pat (parseObject pf cfg cb vars b)"
proof -
  have "advances pat (\<lambda>s. (SizeOfObject obj, s))" for obj :: "'v option redis_object"
    by (rule run.advances_pure) simp
  then show ?thesis
    unfolding parseObject_def Let_def
    by (intro run.advances_intros onDec_advances string_advances readObject_advances deliver_advances)
qed

lemma parseStep_progress:
  assumes "parseStep pf cfg cb vars s = (Inr x, s')"
  shows "length (input (fst s')) < length (input (fst s))"
proof -
  define k where "k = (\<lambda>b. if b = opCodeEOF then ret Break
     else if b = opCodeSelectDB then
       bnd (onDec readLength) (\<lambda>(dbIndex64, _). ret (Continue (vars\<lparr>dbIndex := sint dbIndex64\<rparr>)))
     else if b = opCodeExpireTime then
       bnd (onDec (dec_readFull 4)) (\<lambda>bs. ret (Continue (vars\<lparr>expireMs := int (le_val bs) * 1000\<rparr>)))
     else if b = opCodeExpireTimeMs then
       bnd (onDec (dec_readFull 8)) (\<lambda>bs.
         ret (Continue (vars\<lparr>expireMs := sint (of_nat (le_val bs) :: u64)\<rparr>)))
     else if b = opCodeResizeDB then parseResizeDB cfg cb vars
     else if b = opCodeAux then parseAux cfg cb vars
     else if b = opCodeFreq then
       bnd (onDec dec_readByte) (\<lambda>freq. ret (Continue (vars\<lparr>lfu := Some (uint freq)\<rparr>)))
     else if b = opCodeIdle then
       bnd (onDec readLength) (\<lambda>(idle, _). ret (Continue (vars\<lparr>lru := Some (sint idle)\<rparr>)))
     else if b = opCodeModuleAux then
       bnd (onDec (readModuleType cfg)) (\<lambda>_. ret (Continue vars))
     else if b = opCodeFunction then parseFunction cfg cb vars
     else if b = opCodeSlotInfo then parseSlotInfo vars
     else if b = opCodeSlotImport then parseSlotImport vars
     else parseObject pf cfg cb vars b)"
  have k: "advances pat (k b)" for b
    unfolding k_def parseResizeDB_def parseAux_def parseFunction_def
    by (intro run.advances_intros onDec_advances string_advances readModuleType_advances orBreak_advances
        deliver_advances slot_advances parseObject_advances)
  from assms obtain b s1 where b: "onDec dec_readByte s = (Inr b, s1)" and s1: "k b s1 = (Inr x, s')"
    unfolding parseStep_def k_def [symmetric] by (auto simp: bnd_eq_Inr_iff)
  obtain n where "input (fst s') = drop n (input (fst s1))"
    using run.advances_apply [OF k refl s1] by auto
  moreover have "length (input (fst s1)) < length (input (fst s))"
    using b by (cases "input (fst s)") (auto simp: onDec_def dec_readByte_def split: prod.splits)
  ultimately show ?thesis by simp
qed

function parseLoop ::
  "(bytes \<Rightarrow> float64 option) \<Rightarrow> 'v dconfig \<Rightarrow> ('v option redis_object \<Rightarrow> ('c, bool) gom) \<Rightarrow> loop_vars \<Rightarrow>
    ('c pstate, unit) gom"
where
  "parseLoop pf cfg cb vars s = (case parseStep pf cfg cb vars s of
     (Inl err, s') \<Rightarrow> (Inl err, s')
   | (Inr Break, s') \<Rightarrow> (Inr (), s')
   | (Inr (Continue vars'), s') \<Rightarrow> parseLoop pf cfg cb vars' s')"
  by pat_completeness auto
termination
  by (relation "measure (\<lambda>(pf, cfg, cb, vars, s). length (input (fst s)))")
    (auto dest!: sym [of "(Inr _, _)"] intro: parseStep_progress [of pf cfg cb vars s "Continue vars'" for pf cfg cb vars s vars', simplified])

declare parseLoop.simps [simp del]

text \<open>After the loop the checksum is read and dropped, also when it is missing.\<close>

definition parse ::
  "(bytes \<Rightarrow> float64 option) \<Rightarrow> 'v dconfig \<Rightarrow> ('v option redis_object \<Rightarrow> ('c, bool) gom) \<Rightarrow> ('c pstate, unit) gom"
where
  "parse pf cfg cb =
     bnd (parseLoop pf cfg cb initVars) (\<lambda>_.
     bnd (onDec (ignoreErr [] (dec_readFull 8))) (\<lambda>_. ret ()))"

text \<open>A panic anywhere below, in a handler or in the callback, becomes an error of \<^verbatim>\<open>Parse\<close>.\<close>

definition recovered :: "('s, 'a) gom \<Rightarrow> ('s, 'a) gom" where
  "recovered m s = (case m s of
     (Inl (GoPanic p), s') \<Rightarrow> (Inl (Wrap ''panic'' (Msg p)), s')
   | (r, s') \<Rightarrow> (r, s'))"

definition Parse ::
  "(bytes \<Rightarrow> float64 option) \<Rightarrow> 'v dconfig \<Rightarrow> ('v option redis_object \<Rightarrow> ('c, bool) gom) \<Rightarrow> ('c pstate, unit) gom"
where
  "Parse pf cfg cb = recovered (bnd (onDec checkHeader) (\<lambda>_. parse pf cfg cb))"

definition GetReadCount :: "dstate \<Rightarrow> nat" where
  "GetReadCount d = readCount d"

end
