(* ===== verification/RoundTrip.thy ===== *)
theory RoundTrip
  imports Decoder
begin

section \<open>What is written is what is read\<close>

text \<open>
  The composition of the encoder and the decoder: the file a client writes, parsed with a
  callback that keeps every object, yields one object per write, in order, with the
  database, key, expiration, type and contents that were written.

  \<open>readBack\<close> says what of a value survives: the members of a set of integers come back
  sorted and in decimal, a stream loses what its version does not store.
\<close>

fun readBack :: "rdb_value \<Rightarrow> rdb_value" where
  "readBack (SetVal vals) = SetVal (setRead vals)"
| "readBack (HashExVal h x) = HashExVal h (map (\<lambda>(f, v). (f, expireOf x f)) h)"
| "readBack (StreamVal s) = StreamVal (readStream s)"
| "readBack v = v"

fun valueType :: "rdb_value \<Rightarrow> bytes" where
  "valueType (StringVal _) = StringType"
| "valueType (ListVal _) = ListType"
| "valueType (SetVal _) = SetType"
| "valueType (HashVal _) = HashType"
| "valueType (HashExVal _ _) = HashType"
| "valueType (ZSetVal _) = ZSetType"
| "valueType (StreamVal _) = StreamType"

datatype content =
    DataContent rdb_value
  | AuxContent bytes
  | SizeContent u64 u64
  | OtherContent

fun contentOf :: "'v redis_object \<Rightarrow> content" where
  "contentOf (StringObject _ v) = DataContent (StringVal v)"
| "contentOf (ListObject _ vals) = DataContent (ListVal vals)"
| "contentOf (SetObject _ members) = DataContent (SetVal members)"
| "contentOf (HashObject _ h x) = DataContent (if x = [] then HashVal h else HashExVal h x)"
| "contentOf (ZSetObject _ es) = DataContent (ZSetVal es)"
| "contentOf (StreamObject _ s) = DataContent (StreamVal s)"
| "contentOf (AuxObject _ v) = AuxContent v"
| "contentOf (DBSizeObject _ k t) = SizeContent k t"
| "contentOf _ = OtherContent"

lemma contentOf_withBase [simp]: "contentOf (withBase f x) = contentOf x"
  by (cases x) simp_all

text \<open>What a caller sees of an object.\<close>

type_synonym object_view = "int \<times> bytes \<times> int option \<times> content"

definition viewOf :: "'v redis_object \<Rightarrow> object_view" where
  "viewOf x = (GetDBIndex x, GetKey x, GetExpiration x, contentOf x)"

definition collect :: "'o \<Rightarrow> ('o list, bool) gom" where
  "collect x acc = (Inr True, acc @ [x])"

text \<open>What the calls of a client should give.\<close>

definition optionExpiration :: "write_option list \<Rightarrow> int option" where
  "optionExpiration opts = (case optionTTLs opts of
     [] \<Rightarrow> None
   | ms # _ \<Rightarrow> if 0 < sint ms then Some (expirationTime (sint ms)) else None)"

fun opDB :: "int \<Rightarrow> enc_op \<Rightarrow> int" where
  "opDB db (OpDB i kc tc) = sint i"
| "opDB db _ = db"

fun opViews :: "bool \<Rightarrow> int \<Rightarrow> enc_op \<Rightarrow> object_view list" where
  "opViews special db (OpAux k val) = (if special then [(0, k, None, AuxContent val)] else [])"
| "opViews special db (OpDB i kc tc) = (if special then [(sint i, [], None, SizeContent kc tc)] else [])"
| "opViews special db (OpObject key v opts) = [(db, key, optionExpiration opts, DataContent (readBack v))]"
| "opViews special db _ = []"

fun opsViews :: "bool \<Rightarrow> int \<Rightarrow> enc_op list \<Rightarrow> object_view list" where
  "opsViews special db [] = []"
| "opsViews special db (op # ops) = opViews special db op @ opsViews special (opDB db op) ops"

subsection \<open>Reading a value\<close>

definition readsObject ::
  "(dstate, 'v redis_object) gom \<Rightarrow> bool \<Rightarrow> bytes \<Rightarrow> base_object \<Rightarrow> rdb_value \<Rightarrow> bool"
where
  "readsObject m vk bs base v \<longleftrightarrow> (\<exists>obj. contentOf obj = DataContent (readBack v) \<and>
     baseDB (baseOf obj) = baseDB base \<and> baseKey (baseOf obj) = baseKey base \<and>
     baseExpiration (baseOf obj) = baseExpiration base \<and> sizable obj \<and>
     (\<forall>d tail. input d = bs @ tail \<longrightarrow> valkey d = vk \<longrightarrow> m d = (Inr obj, dec_adv (length bs) d)))"

lemma readsObjectI:
  assumes "dparses m bs x" "contentOf (f x) = DataContent (readBack v)"
    "baseDB (baseOf (f x)) = baseDB base" "baseKey (baseOf (f x)) = baseKey base"
    "baseExpiration (baseOf (f x)) = baseExpiration base" "sizable (f x)"
    "m' = bnd m (\<lambda>x. ret (f x))"
  shows "readsObject m' vk bs base v"
proof -
  have "dparses m' bs (f x)" unfolding assms(7) by (rule src.parses_bnd_ret [OF assms(1)]) simp
  with assms(2-6) show ?thesis unfolding readsObject_def parses_def by blast
qed

lemma string_ok_small: "string_ok c s \<Longrightarrow> small s"
  by (simp add: string_ok_def small_def)

lemma readObject_string:
  assumes "string_ok c val"
  shows "readsObject (readObject pf cfg typeString base) vk (stringBytes c val) base (StringVal val)"
  by (rule readsObjectI [OF readString_parses [OF assms],
        where f = "\<lambda>bs. StringObject (base\<lparr>baseEncoding := encodingMap typeString\<rparr>) bs"])
    (use string_ok_small [OF assms] in \<open>simp_all add: readObject_def Let_def\<close>)

lemma readObject_list:
  assumes "list_ok e vals"
  shows "readsObject (readObject pf cfg (listType e vals) base) vk (listPayload e vals) base (ListVal vals)"
proof (cases "listFits (listZipListOpt e) vals")
  case True
  let ?f = "\<lambda>vals. ListObject (base\<lparr>baseEncoding := encodingMap typeListZipList\<rparr>) vals"
  show ?thesis
    by (rule readsObjectI [OF listPayload_parses(1) [OF assms True], where f = ?f])
      (use True in \<open>simp_all add: readObject_def Let_def listType_def type_consts encodingMap_def
        encoding_consts strlit_def\<close>)
next
  case False
  let ?f = "\<lambda>(vals, extra). ListObject (withExtra (base\<lparr>baseEncoding := encodingMap typeListQuickList\<rparr>) extra) vals"
  show ?thesis
    by (rule readsObjectI [OF listPayload_parses(2) [OF assms False], where f = ?f])
      (use False in \<open>simp_all add: readObject_def Let_def listType_def type_consts encodingMap_def
        encoding_consts strlit_def split_def\<close>)
qed

lemma readObject_set:
  assumes "set_ok c vals"
  shows "readsObject (readObject pf cfg (setType vals) base) vk (setPayload c vals) base (SetVal vals)"
proof (cases "setType vals = typeSet")
  case True
  let ?f = "\<lambda>members. SetObject (base\<lparr>baseEncoding := encodingMap typeSet\<rparr>) members"
  have "list_all small (setRead vals)"
    using assms True string_ok_small
    by (auto simp: setType_def set_ok_def setRead_def list_all_iff type_consts split: if_splits)
  then show ?thesis
    by (intro readsObjectI [OF setPayload_parses(1) [OF assms True], where f = ?f])
      (use True in \<open>simp_all add: readObject_def Let_def type_consts encodingMap_def
        encoding_consts strlit_def\<close>)
next
  case False
  then have t: "setType vals = typeSetIntSet" by (auto simp: setType_def)
  let ?f = "\<lambda>(members, extra). SetObject (withExtra (base\<lparr>baseEncoding := encodingMap typeSetIntSet\<rparr>) extra) members"
  obtain n where n: "dparses readIntSet (setPayload c vals) (setRead vals, IntsetDetail n)"
    using setPayload_parses(2) [OF assms t] by blast
  show ?thesis
    by (rule readsObjectI [OF n, where f = ?f])
      (use t in \<open>simp_all add: readObject_def Let_def type_consts encodingMap_def
        encoding_consts strlit_def split_def\<close>)
qed

lemma readObject_hash:
  assumes "hash_ok e h"
  shows "readsObject (readObject pf cfg (hashType e h) base) vk (hashPayload e h) base (HashVal h)"
proof (cases "hashFits (hashZipListOpt e) h")
  case True
  let ?f = "\<lambda>(h, extra). HashObject (withExtra (base\<lparr>baseEncoding := encodingMap typeHashZipList\<rparr>) extra) h []"
  obtain n where n: "dparses readZipListHash (hashPayload e h) (h, ZiplistDetail n)"
    using hashPayload_parses(1) [OF assms True] by blast
  show ?thesis
    by (rule readsObjectI [OF n, where f = ?f])
      (use True in \<open>simp_all add: readObject_def Let_def hashType_def type_consts encodingMap_def
        encoding_consts strlit_def split_def\<close>)
next
  case False
  let ?f = "\<lambda>h. HashObject (base\<lparr>baseEncoding := encodingMap typeHash\<rparr>) h []"
  have "list_all (\<lambda>p. small (fst p) \<and> small (snd p)) h"
    using assms False string_ok_small by (auto simp: hash_ok_def list_all_iff)
  then show ?thesis
    by (intro readsObjectI [OF hashPayload_parses(2) [OF assms False], where f = ?f])
      (use False in \<open>simp_all add: readObject_def Let_def hashType_def type_consts encodingMap_def
        encoding_consts strlit_def\<close>)
qed

lemma readObject_zset:
  assumes "zset_ok pf ff e es"
  shows "readsObject (readObject pf cfg (zsetType e es) base) vk (zsetPayload ff e es) base (ZSetVal es)"
proof (cases "zsetFits (zsetZipListOpt e) es")
  case True
  let ?f = "\<lambda>(es, extra). ZSetObject (withExtra (base\<lparr>baseEncoding := encodingMap typeZsetZipList\<rparr>) extra) es"
  obtain n where n: "dparses (readZipListZSet pf) (zsetPayload ff e es) (es, ZiplistDetail n)"
    using zsetPayload_parses(1) [OF assms True] by blast
  show ?thesis
    by (rule readsObjectI [OF n, where f = ?f])
      (use True in \<open>simp_all add: readObject_def Let_def zsetType_def type_consts encodingMap_def
        encoding_consts strlit_def split_def\<close>)
next
  case False
  let ?f = "\<lambda>es. ZSetObject (base\<lparr>baseEncoding := encodingMap typeZset2\<rparr>) es"
  have "list_all (\<lambda>x. small (zMember x)) es"
    using assms False string_ok_small by (auto simp: zset_ok_def list_all_iff)
  then show ?thesis
    by (intro readsObjectI [OF zsetPayload_parses(2) [OF assms False], where f = ?f])
      (use False in \<open>simp_all add: readObject_def Let_def zsetType_def type_consts encodingMap_def
        encoding_consts strlit_def\<close>)
qed

lemma readObject_stream:
  assumes "stream_ok c s"
  shows "readsObject (readObject pf cfg (streamType (streamVersion s)) base) vk (streamPayload c s) base (StreamVal s)"
proof -
  let ?t = "streamType (streamVersion s)"
  let ?f = "\<lambda>s. StreamObject (base\<lparr>baseEncoding := encodingMap ?t\<rparr>) s"
  have v: "streamVersion s \<in> {1, 2, 3}" using assms by (simp add: stream_ok_def)
  have "list_all (\<lambda>g. list_all (\<lambda>k. small (consumerName k)) (groupConsumers g)) (streamGroups (readStream s))"
    using assms string_ok_small
    by (fastforce simp: stream_ok_def readStream_def readGrp_def readCons_def group_ok_def consumer_ok_def list_all_iff)
  then show ?thesis
    by (intro readsObjectI [OF readStreamListPacks_parses [OF assms], where f = ?f])
      (use v in \<open>auto simp: readObject_def Let_def streamType_def streamVersionOf_def type_consts encodingMap_def
        encoding_consts strlit_def\<close>)
qed

lemma readObject_hashEx:
  assumes ok: "hashEx_ok c h x"
  shows "readsObject (readObject pf cfg (if vk then typeHash2 else typeHashWithHfe) base) vk
    (if vk then hash2Payload c h x else hashExPayload c h x) base (HashExVal h x)"
proof -
  define t where "t = (if vk then typeHash2 else typeHashWithHfe)"
  define bs where "bs = (if vk then hash2Payload c h x else hashExPayload c h x)"
  define fields where "fields = map (\<lambda>(f, v). (f, expireOf x f)) h"
  let ?m = "if vk then readHashMapExValkey else readHashMapEx False"
  let ?obj = "HashObject (base\<lparr>baseEncoding := encodingMap t\<rparr>) h fields"
  have "dparses ?m bs (h, fields)"
    using hashExPayload_parses [OF ok] hash2Payload_parses [OF ok] by (simp add: bs_def fields_def)
  from src.parses_bnd [OF this, of "\<lambda>(h, expire). ret (HashObject (base\<lparr>baseEncoding := encodingMap t\<rparr>) h expire)" "[]" ?obj]
  have "dparses (bnd ?m (\<lambda>(h, expire). ret (HashObject (base\<lparr>baseEncoding := encodingMap t\<rparr>) h expire)))
      bs ?obj" by (simp add: src.parses_ret)
  moreover have "readObject pf cfg t base d = bnd ?m (\<lambda>(h, expire).
      ret (HashObject (base\<lparr>baseEncoding := encodingMap t\<rparr>) h expire)) d" if "valkey d = vk" for d
    using that unfolding t_def type_consts
    by (cases vk) (simp_all add: readObject_def Let_def readHashObjectEx_def type_consts bnd_def)
  ultimately have run: "readObject pf cfg t base d = (Inr ?obj, dec_adv (length bs) d)"
    if "input d = bs @ tail" "valkey d = vk" for d tail
    using that unfolding parses_def by (cases vk) auto
  have "fields \<noteq> []" "list_all (\<lambda>p. small (fst p) \<and> small (snd p)) h"
    using ok string_ok_small by (auto simp: hashEx_ok_def fields_def list_all_iff)
  then have "sizable ?obj" "contentOf ?obj = DataContent (readBack (HashExVal h x))"
    by (simp_all add: t_def type_consts encodingMap_def encoding_consts strlit_def fields_def)
  with run show ?thesis
    unfolding readsObject_def t_def [symmetric] bs_def [symmetric]
    by (intro exI [of _ ?obj]) simp
qed

lemma readObject_value:
  assumes "rdb_ok pf ff e v"
  shows "readsObject (readObject pf cfg (rdbType e v) base) (encValkey e) (rdbPayload ff e v) base v"
proof (cases v)
  case (StringVal val)
  with assms show ?thesis by (simp add: readObject_string)
next
  case (ListVal vals)
  with assms show ?thesis by (simp add: readObject_list)
next
  case (SetVal vals)
  with assms show ?thesis by (simp add: readObject_set)
next
  case (HashVal h)
  with assms show ?thesis by (simp add: readObject_hash)
next
  case (HashExVal h x)
  with assms show ?thesis using readObject_hashEx [of "compress e" h x pf cfg "encValkey e" base] by simp
next
  case (ZSetVal es)
  with assms show ?thesis by (simp add: readObject_zset)
next
  case (StreamVal s)
  with assms show ?thesis by (simp add: readObject_stream)
qed

subsection \<open>One turn of the loop\<close>

lemma bnd_onDec:
  assumes "dparses m bs x" "input d = bs @ tail"
  shows "bnd (onDec m) k (d, c) = k x (dec_adv (length bs) d, c)"
    and "orBreak (onDec m) j (d, c) = j x (dec_adv (length bs) d, c)"
  using src.parses_apply [OF assms] by (simp_all add: bnd_def orBreak_def onDec_def)

lemma bnd_onDec_byte: "input d = b # r \<Longrightarrow> bnd (onDec dec_readByte) k (d, c) = k b (dec_adv 1 d, c)"
  using bnd_onDec(1) [OF dec_readByte_parses, of d b r] by simp

lemma deliver_collect: "deliver collect obj vars (d, acc) = (Inr (Continue vars), (d, acc @ [obj]))"
  by (simp add: deliver_def onCb_def collect_def bnd_def ret_def)

lemma parseLoop_Continue:
  "parseStep pf cfg cb vars s = (Inr (Continue vars'), s') \<Longrightarrow>
     parseLoop pf cfg cb vars s = parseLoop pf cfg cb vars' s'"
  by (simp add: parseLoop.simps [of pf cfg cb vars s])

lemma dec_adv_add: "dec_adv m (dec_adv n d) = dec_adv (n + m) d"
  by (simp add: dec_adv_def add.commute)

lemma parseStep_aux:
  assumes "string_ok c k" "string_ok c val"
    and "input d = opCodeAux # stringBytes c k @ stringBytes c val @ tail"
  shows "\<exists>objs. parseStep pf cfg collect vars (d, acc) = (Inr (Continue vars),
      (dec_adv (length (opCodeAux # stringBytes c k @ stringBytes c val)) d, acc @ objs)) \<and>
    map viewOf objs = opViews (withSpecialOpCode cfg) db (OpAux k val)"
  using assms(3)
  by (auto simp: parseStep_def bnd_onDec_byte opcodes parseAux_def bnd_onDec [OF readString_parses [OF assms(1)]]
      bnd_onDec [OF readString_parses [OF assms(2)]] deliver_collect ret_def dec_adv_add add.assoc
      viewOf_def GetDBIndex_def GetKey_def GetExpiration_def emptyBase_def
      intro: exI [of _ "[]"])

lemma parseStep_selectDB:
  assumes "input d = opCodeSelectDB # lengthBytes i @ tail"
  shows "parseStep pf cfg cb vars (d, acc) = (Inr (Continue (vars\<lparr>dbIndex := sint i\<rparr>)),
      (dec_adv (1 + length (lengthBytes i)) d, acc))"
  using assms
  by (simp add: parseStep_def bnd_onDec_byte opcodes bnd_onDec [OF readLength_parses] ret_def dec_adv_add)

lemma parseStep_resizeDB:
  assumes "input d = opCodeResizeDB # lengthBytes kc @ lengthBytes tc @ tail"
  shows "\<exists>objs. parseStep pf cfg collect vars (d, acc) = (Inr (Continue vars),
      (dec_adv (1 + length (lengthBytes kc) + length (lengthBytes tc)) d, acc @ objs)) \<and>
    map viewOf objs = (if withSpecialOpCode cfg then [(dbIndex vars, [], None, SizeContent kc tc)] else [])"
  using assms
  by (auto simp: parseStep_def bnd_onDec_byte opcodes parseResizeDB_def bnd_onDec [OF readLength_parses]
      deliver_collect ret_def dec_adv_add add.assoc
      viewOf_def GetDBIndex_def GetKey_def GetExpiration_def emptyBase_def
      intro: exI [of _ "[]"])

lemma parseStep_ttl:
  fixes ms :: u64
  assumes "input d = opCodeExpireTimeMs # le_bytes 8 (unat ms) @ tail"
  shows "parseStep pf cfg cb vars (d, acc) = (Inr (Continue (vars\<lparr>expireMs := sint ms\<rparr>)),
      (dec_adv 9 d, acc))"
  using assms
  by (simp add: parseStep_def bnd_onDec_byte opcodes bnd_onDec [OF dec_readFull_parses [OF length_le_bytes]]
      ret_def dec_adv_add)

lemma rdbType_no_opcode:
  assumes "b \<in> {opCodeEOF, opCodeSelectDB, opCodeExpireTime, opCodeExpireTimeMs, opCodeResizeDB, opCodeAux,
     opCodeFreq, opCodeIdle, opCodeModuleAux, opCodeFunction, opCodeSlotInfo, opCodeSlotImport}"
  shows "rdbType e v \<noteq> b"
  using assms
  by (cases v) (auto simp: opcodes type_consts listType_def setType_def hashType_def zsetType_def streamType_def)

text \<open>Between two calls no expiration, idle time or frequency is pending.\<close>

definition idle_vars :: "int \<Rightarrow> loop_vars \<Rightarrow> bool" where
  "idle_vars db vars \<longleftrightarrow> dbIndex vars = db \<and> expireMs vars \<le> 0 \<and> lru vars = None \<and> lfu vars = None"

lemma parseStep_object:
  assumes ok: "string_ok (compress e) key" "rdb_ok pf ff e v" and vk: "valkey d = encValkey e"
    and d: "input d = rdbType e v # stringBytes (compress e) key @ rdbPayload ff e v @ tail"
  shows "\<exists>obj. parseStep pf cfg collect vars (d, acc) = (Inr (Continue (vars\<lparr>
        expireMs := (if 0 < expireMs vars then 0 else expireMs vars), lru := None, lfu := None\<rparr>)),
      (dec_adv (length (rdbType e v # stringBytes (compress e) key @ rdbPayload ff e v)) d, acc @ [obj])) \<and>
    viewOf obj = (dbIndex vars, key,
      if 0 < expireMs vars then Some (expirationTime (expireMs vars)) else None, DataContent (readBack v))"
proof -
  define base where "base = emptyBase\<lparr>baseDB := dbIndex vars, baseKey := key,
    baseExpiration := (if 0 < expireMs vars then Some (expirationTime (expireMs vars)) else None),
    baseIdleTime := lru vars, baseFreq := lfu vars\<rparr>"
  let ?vars = "vars\<lparr>expireMs := (if 0 < expireMs vars then 0 else expireMs vars), lru := None, lfu := None\<rparr>"
  let ?k = "stringBytes (compress e) key" and ?m = "readObject pf cfg (rdbType e v) base"
  let ?d = "dec_adv (length ?k) (dec_adv 1 d)"
  obtain obj where obj: "contentOf obj = DataContent (readBack v)" "baseDB (baseOf obj) = baseDB base"
      "baseKey (baseOf obj) = baseKey base" "baseExpiration (baseOf obj) = baseExpiration base" "sizable obj"
    and run: "\<And>d tail. input d = rdbPayload ff e v @ tail \<Longrightarrow> valkey d = encValkey e \<Longrightarrow>
      ?m d = (Inr obj, dec_adv (length (rdbPayload ff e v)) d)"
    using readObject_value [OF ok(2), of cfg base] unfolding readsObject_def by blast
  have "GetKey obj = key" using obj(3) by (simp add: GetKey_def base_def)
  then obtain n where n: "SizeOfObject obj = Inr n"
    using SizeOfObject_total [OF _ obj(5)] string_ok_small [OF ok(1)] by auto
  have step: "parseStep pf cfg collect vars (d, acc) = parseObject pf cfg collect vars (rdbType e v) (dec_adv 1 d, acc)"
    using d by (simp add: parseStep_def bnd_onDec_byte rdbType_no_opcode)
  have rd: "?m ?d = (Inr obj, dec_adv (length (rdbPayload ff e v)) ?d)"
    by (rule run) (use d vk in simp_all)
  have "parseObject pf cfg collect vars (rdbType e v) (dec_adv 1 d, acc) =
      bnd (onDec ?m) (\<lambda>obj. bnd (\<lambda>s. (SizeOfObject obj, s)) (\<lambda>n.
        deliver collect (withBase (\<lambda>base. base\<lparr>baseSize := n, baseType := GetType obj\<rparr>) obj) ?vars)) (?d, acc)"
    using d by (simp add: parseObject_def Let_def base_def bnd_onDec [OF readString_parses [OF ok(1)]])
  also have "\<dots> = (Inr (Continue ?vars), (dec_adv (length (rdbPayload ff e v)) ?d,
       acc @ [withBase (\<lambda>base. base\<lparr>baseSize := n, baseType := GetType obj\<rparr>) obj]))"
    by (simp only: bnd_def onDec_def fst_conv snd_conv rd n prod.case sum.case deliver_collect)
  finally have "parseObject pf cfg collect vars (rdbType e v) (dec_adv 1 d, acc) = \<dots>" .
  with step show ?thesis using obj
    by (intro exI [of _ "withBase (\<lambda>base. base\<lparr>baseSize := n, baseType := GetType obj\<rparr>) obj"])
      (simp add: dec_adv_add viewOf_def GetDBIndex_def GetKey_def GetExpiration_def base_def add_ac)
qed

text \<open>The loop reads the bytes of one call, and of a sequence of calls.\<close>

definition loops ::
  "(bytes \<Rightarrow> float64 option) \<Rightarrow> 'v dconfig \<Rightarrow> bool \<Rightarrow> bytes \<Rightarrow> int \<Rightarrow> int \<Rightarrow> object_view list \<Rightarrow> bool"
where
  "loops pf cfg vk bs db db' views \<longleftrightarrow> (\<forall>vars d acc tail. idle_vars db vars \<longrightarrow> valkey d = vk \<longrightarrow>
     input d = bs @ tail \<longrightarrow> (\<exists>vars' objs. idle_vars db' vars' \<and> map viewOf objs = views \<and>
       parseLoop pf cfg collect vars (d, acc) =
       parseLoop pf cfg collect vars' (dec_adv (length bs) d, acc @ objs)))"

lemma loopsI:
  assumes "\<And>vars d acc tail. idle_vars db vars \<Longrightarrow> valkey d = vk \<Longrightarrow> input d = bs @ tail \<Longrightarrow>
    \<exists>vars' objs. idle_vars db' vars' \<and> map viewOf objs = views \<and>
       parseLoop pf cfg collect vars (d, acc) =
       parseLoop pf cfg collect vars' (dec_adv (length bs) d, acc @ objs)"
  shows "loops pf cfg vk bs db db' views"
  using assms unfolding loops_def by blast

lemma dec_adv_0 [simp]: "dec_adv 0 d = d"
  by (simp add: dec_adv_def)

lemma loops_Nil: "loops pf cfg vk [] db db []"
  by (rule loopsI) (auto intro: exI [of _ "[]"])

lemma loops_append:
  fixes cfg :: "'v dconfig"
  assumes a: "loops pf cfg vk a db1 db2 v1" and b: "loops pf cfg vk b db2 db3 v2"
  shows "loops pf cfg vk (a @ b) db1 db3 (v1 @ v2)"
proof (rule loopsI)
  fix vars :: loop_vars and d :: dstate and acc :: "'v option redis_object list" and tail
  assume "idle_vars db1 vars" "valkey d = vk" and d: "input d = (a @ b) @ tail"
  with a obtain vars1 objs1 where 1: "idle_vars db2 vars1" "map viewOf objs1 = v1"
    "parseLoop pf cfg collect vars (d, acc) = parseLoop pf cfg collect vars1 (dec_adv (length a) d, acc @ objs1)"
    unfolding loops_def by (metis append_assoc)
  have "valkey (dec_adv (length a) d) = vk" "input (dec_adv (length a) d) = b @ tail"
    using \<open>valkey d = vk\<close> d by simp_all
  with b 1(1) obtain vars2 objs2 where 2: "idle_vars db3 vars2" "map viewOf objs2 = v2"
    "parseLoop pf cfg collect vars1 (dec_adv (length a) d, acc @ objs1) =
     parseLoop pf cfg collect vars2 (dec_adv (length b) (dec_adv (length a) d), (acc @ objs1) @ objs2)"
    unfolding loops_def by metis
  with 1 show "\<exists>vars' objs. idle_vars db3 vars' \<and> map viewOf objs = v1 @ v2 \<and>
       parseLoop pf cfg collect vars (d, acc) =
       parseLoop pf cfg collect vars' (dec_adv (length (a @ b)) d, acc @ objs)"
    by (intro exI [of _ vars2] exI [of _ "objs1 @ objs2"]) (simp add: dec_adv_add)
qed

lemma loops_aux:
  fixes cfg :: "'v dconfig"
  assumes "string_ok c k" "string_ok c val"
  shows "loops pf cfg vk (opCodeAux # stringBytes c k @ stringBytes c val) db db
    (opViews (withSpecialOpCode cfg) db (OpAux k val))"
proof (rule loopsI)
  fix vars :: loop_vars and d :: dstate and acc :: "'v option redis_object list" and tail
  assume v: "idle_vars db vars" and "input d = (opCodeAux # stringBytes c k @ stringBytes c val) @ tail"
  then have "input d = opCodeAux # stringBytes c k @ stringBytes c val @ tail" by simp
  from parseStep_aux [OF assms this, of pf cfg vars acc db] v show "\<exists>vars' objs. idle_vars db vars' \<and>
      map viewOf objs = opViews (withSpecialOpCode cfg) db (OpAux k val) \<and>
      parseLoop pf cfg collect vars (d, acc) = parseLoop pf cfg collect vars'
        (dec_adv (length (opCodeAux # stringBytes c k @ stringBytes c val)) d, acc @ objs)"
    using parseLoop_Continue by blast
qed

lemma loops_selectDB:
  fixes cfg :: "'v dconfig"
  shows "loops pf cfg vk (opCodeSelectDB # lengthBytes i) db (sint i) []"
proof (rule loopsI)
  fix vars :: loop_vars and d :: dstate and acc :: "'v option redis_object list" and tail
  assume v: "idle_vars db vars" and "input d = (opCodeSelectDB # lengthBytes i) @ tail"
  then have "input d = opCodeSelectDB # lengthBytes i @ tail" by simp
  from parseLoop_Continue [OF parseStep_selectDB [OF this]] v
  show "\<exists>vars' objs. idle_vars (sint i) vars' \<and> map viewOf objs = [] \<and>
      parseLoop pf cfg collect vars (d, acc) = parseLoop pf cfg collect vars'
        (dec_adv (length (opCodeSelectDB # lengthBytes i)) d, acc @ objs)"
    by (intro exI [of _ "vars\<lparr>dbIndex := sint i\<rparr>"] exI [of _ "[]"]) (simp add: idle_vars_def)
qed

lemma loops_resizeDB:
  fixes cfg :: "'v dconfig"
  shows "loops pf cfg vk (opCodeResizeDB # lengthBytes kc @ lengthBytes tc) db db
     (if withSpecialOpCode cfg then [(db, [], None, SizeContent kc tc)] else [])"
proof (rule loopsI)
  fix vars :: loop_vars and d :: dstate and acc :: "'v option redis_object list" and tail
  assume v: "idle_vars db vars" and "input d = (opCodeResizeDB # lengthBytes kc @ lengthBytes tc) @ tail"
  then have "input d = opCodeResizeDB # lengthBytes kc @ lengthBytes tc @ tail" by simp
  from parseStep_resizeDB [OF this, of pf cfg vars acc] v
  show "\<exists>vars' objs. idle_vars db vars' \<and>
      map viewOf objs = (if withSpecialOpCode cfg then [(db, [], None, SizeContent kc tc)] else []) \<and>
      parseLoop pf cfg collect vars (d, acc) = parseLoop pf cfg collect vars'
        (dec_adv (length (opCodeResizeDB # lengthBytes kc @ lengthBytes tc)) d, acc @ objs)"
    using parseLoop_Continue [of pf cfg collect vars "(d, acc)"] by (force simp: idle_vars_def)
qed

lemma loops_object:
  fixes cfg :: "'v dconfig"
  assumes ok: "string_ok (compress e) key" "rdb_ok pf ff e v" and ttl: "length (optionTTLs opts) \<le> 1"
  shows "loops pf cfg (encValkey e) (opBytes ff e (OpObject key v opts)) db db
    (opViews special db (OpObject key v opts))"
proof (rule loopsI)
  fix vars :: loop_vars and d :: dstate and acc :: "'v option redis_object list" and tail
  let ?body = "rdbType e v # stringBytes (compress e) key @ rdbPayload ff e v"
  assume vars: "idle_vars db vars" and vk: "valkey d = encValkey e"
    and d: "input d = opBytes ff e (OpObject key v opts) @ tail"
  obtain w n where w: "dbIndex w = db" "lru w = None" "lfu w = None"
      "(if 0 < expireMs w then Some (expirationTime (expireMs w)) else None) = optionExpiration opts"
      "n = length (ttlPrefix (optionTTLs opts))"
      "parseLoop pf cfg collect vars (d, acc) = parseLoop pf cfg collect w (dec_adv n d, acc)"
      "input (dec_adv n d) = ?body @ tail"
  proof (cases "optionTTLs opts")
    case Nil
    with vars d show thesis
      by (intro that [of vars 0]) (simp_all add: idle_vars_def optionExpiration_def ttlPrefix_def)
  next
    case (Cons ms r)
    with ttl have o: "optionTTLs opts = [ms]" by simp
    with d have "input d = opCodeExpireTimeMs # le_bytes 8 (unat ms) @ ?body @ tail" by (simp add: ttlPrefix_def)
    from parseLoop_Continue [OF parseStep_ttl [OF this]] this vars o show thesis
      by (intro that [of "vars\<lparr>expireMs := sint ms\<rparr>" 9])
        (simp_all add: idle_vars_def optionExpiration_def ttlPrefix_def)
  qed
  let ?w = "w\<lparr>expireMs := (if 0 < expireMs w then 0 else expireMs w), lru := None, lfu := None\<rparr>"
  have d1: "valkey (dec_adv n d) = encValkey e"
    "input (dec_adv n d) = rdbType e v # stringBytes (compress e) key @ rdbPayload ff e v @ tail"
    using vk w(7) by simp_all
  from parseStep_object [OF ok d1, of cfg w acc] obtain obj where
    step: "parseStep pf cfg collect w (dec_adv n d, acc) =
       (Inr (Continue ?w), (dec_adv (length ?body) (dec_adv n d), acc @ [obj]))"
    and view: "viewOf obj = (db, key, optionExpiration opts, DataContent (readBack v))"
    unfolding w(1,4) by blast
  note parseLoop_Continue [OF step]
  with view w vars show "\<exists>vars' objs. idle_vars db vars' \<and> map viewOf objs = opViews special db (OpObject key v opts) \<and>
      parseLoop pf cfg collect vars (d, acc) = parseLoop pf cfg collect vars'
        (dec_adv (length (opBytes ff e (OpObject key v opts))) d, acc @ objs)"
    by (intro exI [of _ ?w] exI [of _ "[obj]"]) (simp add: idle_vars_def dec_adv_add add_ac)
qed

definition call_ok :: "(bytes \<Rightarrow> float64 option) \<Rightarrow> (float64 \<Rightarrow> bytes) \<Rightarrow> encoder \<Rightarrow> enc_op \<Rightarrow> bool" where
  "call_ok pf ff e op \<longleftrightarrow> op_ok pf ff e op \<and> op \<noteq> OpHeader \<and> op \<noteq> OpEnd \<and>
     (\<forall>key v opts. op = OpObject key v opts \<longrightarrow> length (optionTTLs opts) \<le> 1)"

lemma loops_op:
  assumes "call_ok pf ff e op"
  shows "loops pf cfg (encValkey e) (opBytes ff e op) db (opDB db op) (opViews (withSpecialOpCode cfg) db op)"
proof (cases op)
  case (OpAux k val)
  with assms show ?thesis
    using loops_aux [of "compress e" k val pf cfg "encValkey e" db] by (auto simp: call_ok_def)
next
  case (OpDB i kc tc)
  have "loops pf cfg (encValkey e) ((opCodeSelectDB # lengthBytes i) @ (opCodeResizeDB # lengthBytes kc @ lengthBytes tc))
      db (sint i) ([] @ (if withSpecialOpCode cfg then [(sint i, [], None, SizeContent kc tc)] else []))"
    by (rule loops_append [OF loops_selectDB loops_resizeDB])
  with OpDB show ?thesis by simp
next
  case (OpObject key v opts)
  with assms show ?thesis using loops_object [of e key pf ff v opts cfg db] by (simp add: call_ok_def)
qed (use assms in \<open>simp_all add: call_ok_def\<close>)

lemma loops_ops:
  assumes "list_all (call_ok pf ff e) ops"
  shows "loops pf cfg (encValkey e) (concat (map (opBytes ff e) ops)) db (foldl opDB db ops)
    (opsViews (withSpecialOpCode cfg) db ops)"
  using assms
proof (induction ops arbitrary: db)
  case (Cons op ops)
  then show ?case using loops_append [OF loops_op [of pf ff e op cfg db]] by simp
qed (simp add: loops_Nil)

subsection \<open>A whole file\<close>

lemma checkHeader_header:
  assumes "input d = rdbHeaderOf e @ tail"
  shows "checkHeader d = (Inr (), (dec_adv 9 d)\<lparr>valkey := encValkey e,
    rdbVersion := if encValkey e then 80 else 11\<rparr>)"
proof -
  have len: "length (rdbHeaderOf e) = 9"
    by (simp add: rdbHeaderOf_def rdbHeaderValkey_def rdbHeaderRedis_def strlit_def)
  have v: "parseInt 64 (strlit ''0011'') = Some 11" "parseInt 64 (strlit ''080'') = Some 80"
    by code_simp+
  have "dec_readFull 9 d = (Inr (rdbHeaderOf e), dec_adv 9 d)"
    using src.parses_apply [OF dec_readFull_parses [OF len] assms] len by simp
  moreover have "take 5 (rdbHeaderOf e) = magicNumberRedis \<longleftrightarrow> \<not> encValkey e"
    "encValkey e \<Longrightarrow> take 6 (rdbHeaderOf e) = magicNumberValkey"
    "drop (if encValkey e then 6 else 5) (rdbHeaderOf e) = (if encValkey e then strlit ''080'' else strlit ''0011'')"
    by (simp_all add: rdbHeaderOf_def rdbHeaderValkey_def rdbHeaderRedis_def magicNumberRedis_def
        magicNumberValkey_def strlit_def)
  moreover have "length magicNumberRedis = 5" "length magicNumberValkey = 6"
    by (simp_all add: magicNumberRedis_def magicNumberValkey_def strlit_def)
  ultimately show ?thesis
    by (auto simp: checkHeader_def checkVersion_def v minVersion_def maxVersion_def minVersionValkey_def
        maxVersionValkey_def split: if_splits)
qed

lemma parseLoop_EOF:
  assumes "input d = opCodeEOF # tail"
  shows "parseLoop pf cfg cb vars (d, c) = (Inr (), (dec_adv 1 d, c))"
  using assms by (simp add: parseLoop.simps [of pf cfg cb vars "(d, c)"] parseStep_def bnd_onDec_byte ret_def)

lemma Parse_file:
  fixes cfg :: "'v dconfig"
  assumes ops: "list_all (call_ok pf ff e) ops" and "length trailer = 8"
    and bs: "bs = rdbHeaderOf e @ concat (map (opBytes ff e) ops) @ opCodeEOF # trailer"
  shows "\<exists>objs d'. Parse pf cfg collect (newDecoder bs, []) = (Inr (), (d', objs)) \<and>
    map viewOf objs = opsViews (withSpecialOpCode cfg) 0 ops \<and> input d' = []"
proof -
  let ?bs = "concat (map (opBytes ff e) ops)"
  define d where "d = (dec_adv 9 (newDecoder bs))\<lparr>valkey := encValkey e,
    rdbVersion := if encValkey e then 80 else 11\<rparr>"
  have head: "checkHeader (newDecoder bs) = (Inr (), d)"
    unfolding d_def by (rule checkHeader_header) (simp add: bs newDecoder_def)
  have len: "length (rdbHeaderOf e) = 9"
    by (simp add: rdbHeaderOf_def rdbHeaderValkey_def rdbHeaderRedis_def strlit_def)
  have d: "valkey d = encValkey e" "input d = ?bs @ opCodeEOF # trailer"
    using len by (simp_all add: d_def newDecoder_def bs)
  have "idle_vars 0 initVars" by (simp add: idle_vars_def initVars_def)
  with loops_ops [OF ops, of cfg 0] d obtain vars' objs where
    l: "map viewOf objs = opsViews (withSpecialOpCode cfg) 0 ops"
       "parseLoop pf cfg collect initVars (d, []) = parseLoop pf cfg collect vars' (dec_adv (length ?bs) d, objs)"
    unfolding loops_def by (metis append_Nil)
  let ?d = "dec_adv 1 (dec_adv (length ?bs) d)"
  have "input (dec_adv (length ?bs) d) = opCodeEOF # trailer" using d(2) by simp
  from l(2) parseLoop_EOF [OF this] have "parseLoop pf cfg collect initVars (d, []) = (Inr (), (?d, objs))" by simp
  moreover have "dec_readFull 8 ?d = (Inr trailer, dec_adv 8 ?d)"
    using src.parses_apply [OF dec_readFull_parses [OF assms(2)], of ?d "[]"] d(2) assms(2) by simp
  ultimately have "Parse pf cfg collect (newDecoder bs, []) = (Inr (), (dec_adv 8 ?d, objs))"
    by (simp add: Parse_def recovered_def bnd_def onDec_def head parse_def ignoreErr_def ret_def)
  moreover have "input (dec_adv 8 ?d) = []" using d(2) assms(2) by simp
  ultimately show ?thesis using l(1) by blast
qed

lemma runOps_Cons:
  "runOps ff (op # ops) e = (Inr (), e') \<longleftrightarrow>
     (\<exists>e1. runOp ff op e = (Inr (), e1) \<and> runOps ff ops e1 = (Inr (), e'))"
  by (auto simp: runOps_def bnd_eq_Inr_iff)

lemma runOp_target: "runOp ff op e = (Inr (), e') \<Longrightarrow> opTarget op \<in> stateChanges (encState e)"
  using runOp_rejected [of op e ff] by fastforce

lemma no_state_to_start: "startState \<notin> stateChanges s" "writtenHeaderState \<in> stateChanges s \<Longrightarrow> s = startState"
  by (cases s; simp)+

lemma nothing_after_end:
  "encState e = writtenEndState \<Longrightarrow> ops \<noteq> [] \<Longrightarrow> runOps ff ops e \<noteq> (Inr (), e')"
  by (cases ops) (auto simp: runOps_Cons dest: runOp_target)

lemma calls_cong:
  assumes "sameOptions e e'"
  shows "opBytes ff e' = opBytes ff e" "op_ok pf ff e' = op_ok pf ff e" "call_ok pf ff e' = call_ok pf ff e"
  by (simp_all add: fun_eq_iff call_ok_def opBytes_cong [OF assms])

text \<open>A call that succeeds between the header and the end.\<close>

lemma runOp_call_ok:
  assumes r: "ready e" and ok: "op_ok pf ff e op" and start: "encState e \<noteq> startState"
    and run: "runOp ff op e = (Inr (), e1)" and more: "runOps ff ops e1 = (Inr (), e')" "ops \<noteq> []"
  shows "call_ok pf ff e op"
  unfolding call_ok_def
proof (intro conjI allI impI)
  show "op \<noteq> OpHeader" using no_state_to_start(2) [of "encState e"] runOp_target [OF run] start by auto
  show "op \<noteq> OpEnd"
    using runOp_success(1) [OF _ run] nothing_after_end [OF _ more(2)] more(1) by fastforce
  fix key v opts
  assume "op = OpObject key v opts"
  with writeValue_emits(1) [OF r] ok run show "length (optionTTLs opts) \<le> 1" by fastforce
qed (rule ok)

lemma runOps_file:
  assumes "ready e" "encState e \<noteq> startState" "list_all (op_ok pf ff e) ops"
    "runOps ff (ops @ [OpEnd]) e = (Inr (), e')"
  shows "list_all (call_ok pf ff e) ops \<and> (\<exists>trailer. length trailer = 8 \<and>
    out e' = out e @ concat (map (opBytes ff e) ops) @ opCodeEOF # trailer)"
  using assms
proof (induction ops arbitrary: e)
  case Nil
  then have "WriteEnd e = (Inr (), e')" "writtenEndState \<in> stateChanges (encState e)"
    using runOp_target [of ff OpEnd e e'] by (auto simp: runOps_Cons runOps_def ret_def bnd_eq_Inr_iff)
  with WriteEnd_ready [OF Nil(1)] show ?case by (auto simp: digestSum_bytes)
next
  case (Cons op ops)
  then obtain e1 where run: "runOp ff op e = (Inr (), e1)" and more: "runOps ff (ops @ [OpEnd]) e1 = (Inr (), e')"
    by (auto simp: runOps_Cons)
  have ok: "call_ok pf ff e op"
    using runOp_call_ok [OF _ _ _ run more] Cons.prems by simp
  then obtain s x where e1: "e1 = (emit (opBytes ff e op) e)\<lparr>encState := s, existDB := x\<rparr>"
    using runOp_bytes [OF Cons.prems(1) _ run] unfolding call_ok_def by blast
  have "s \<noteq> startState"
    using runOp_state [OF run] Cons.prems(2) e1 ok by (cases op) (auto simp: call_ok_def)
  moreover have "sameOptions e e1" unfolding e1 by (rule sameOptions_emit)
  note calls_cong [OF this]
  ultimately show ?case
    using Cons.IH [of e1] Cons.prems more ok e1 by (simp add: ready_update)
qed

text \<open>The end-to-end statement.\<close>

lemma file_roundtrip:
  assumes r: "ready e" and start: "encState e = startState" "out e = []"
    and ok: "list_all (op_ok pf ff e) ops"
    and run: "runOps ff (OpHeader # ops @ [OpEnd]) e = (Inr (), e')"
  shows "\<exists>objs d. Parse pf cfg collect (newDecoder (out e'), []) = (Inr (), (d, objs)) \<and>
    map viewOf objs = opsViews (withSpecialOpCode cfg) 0 ops \<and> input d = []"
proof -
  let ?e = "(emit (rdbHeaderOf e) e)\<lparr>encState := writtenHeaderState\<rparr>"
  have same: "sameOptions e ?e" by (rule sameOptions_emit)
  have "runOps ff (ops @ [OpEnd]) ?e = (Inr (), e')"
    using run WriteHeader_ready [OF r start(1)] by (auto simp: runOps_Cons)
  with runOps_file [of ?e pf ff ops e'] r ok obtain trailer where
    "list_all (call_ok pf ff e) ops" "length trailer = 8"
    "out e' = rdbHeaderOf e @ concat (map (opBytes ff e) ops) @ opCodeEOF # trailer"
    by (auto simp: calls_cong [OF same] start)
  then show ?thesis by (rule Parse_file)
qed

subsection \<open>The encoder accepts every file\<close>

definition accepts :: "(float64 \<Rightarrow> bytes) \<Rightarrow> encoder \<Rightarrow> enc_op list \<Rightarrow> encoder \<Rightarrow> bool" where
  "accepts ff e ops e' \<longleftrightarrow> runOps ff ops e = (Inr (), e') \<and> ready e' \<and> sameOptions e e'"

lemma accepts_Nil: "ready e \<Longrightarrow> accepts ff e [] e"
  by (simp add: accepts_def runOps_def ret_def sameOptions_def)

lemma runOps_append:
  "runOps ff a e = (Inr (), e1) \<Longrightarrow> runOps ff b e1 = (Inr (), e2) \<Longrightarrow> runOps ff (a @ b) e = (Inr (), e2)"
proof (induction a arbitrary: e)
  case (Cons op a)
  from Cons.prems(1) obtain e0 where "runOp ff op e = (Inr (), e0)" "runOps ff a e0 = (Inr (), e1)"
    by (auto simp: runOps_Cons)
  with Cons.IH [OF this(2) Cons.prems(2)] show ?case by (simp add: runOps_Cons)
qed (simp add: runOps_def ret_def)

lemma accepts_append: "accepts ff e a e1 \<Longrightarrow> accepts ff e1 b e2 \<Longrightarrow> accepts ff e (a @ b) e2"
  unfolding accepts_def using runOps_append sameOptions_trans by blast

lemma accepts_aux:
  assumes r: "ready e" and ok: "op_ok pf ff e (OpAux k val)"
    and st: "writtenAuxState \<in> stateChanges (encState e)"
  shows "\<exists>e'. accepts ff e [OpAux k val] e' \<and> encState e' = writtenAuxState \<and> existDB e' = existDB e"
proof -
  let ?m = "bnd (enc_write [opCodeAux]) (\<lambda>_. bnd (writeString k) (\<lambda>_. writeString val))"
  have "ewrites (compress e) ?m ([opCodeAux] @ stringBytes (compress e) k @ stringBytes (compress e) val) ()"
    using ok by (intro sink.writes_seq enc_write_writes writeString_writes) simp_all
  from sink.writes_apply [OF this, of e] r
  have "?m e = (Inr (), emit (opBytes ff e (OpAux k val)) e)" by simp
  moreover have "WriteAux k val e = bnd ?m (\<lambda>_. setState writtenAuxState) e"
    using st by (simp add: WriteAux_def bnd_assoc)
  ultimately have "WriteAux k val e = (Inr (), (emit (opBytes ff e (OpAux k val)) e)\<lparr>encState := writtenAuxState\<rparr>)"
    by (simp add: bnd_Inr setState_def)
  then show ?thesis using r
    by (intro exI [of _ "(emit (opBytes ff e (OpAux k val)) e)\<lparr>encState := writtenAuxState\<rparr>"])
      (simp add: accepts_def runOps_def bnd_def ret_def sameOptions_emit)
qed

lemma accepts_db:
  assumes r: "ready e" and st: "writtenDBHeaderState \<in> stateChanges (encState e)" and new: "i \<notin> existDB e"
  shows "\<exists>e'. accepts ff e [OpDB i kc tc] e' \<and> encState e' = writtenDBHeaderState \<and>
    existDB e' = insert i (existDB e)"
proof -
  let ?m = "bnd (enc_write [opCodeSelectDB]) (\<lambda>_. bnd (writeLength i) (\<lambda>_.
    bnd (enc_write [opCodeResizeDB]) (\<lambda>_. bnd (writeLength kc) (\<lambda>_. writeLength tc))))"
  let ?e = "e\<lparr>existDB := insert i (existDB e)\<rparr>" and ?bs = "opBytes ff e (OpDB i kc tc)"
  have "ewrites (compress e) ?m ([opCodeSelectDB] @ lengthBytes i @ [opCodeResizeDB] @ lengthBytes kc @ lengthBytes tc) ()"
    by (intro sink.writes_seq enc_write_writes writeLength_writes)
  from sink.writes_apply [OF this, of ?e] r have "?m ?e = (Inr (), emit ?bs ?e)" by simp
  moreover have "WriteDBHeader i kc tc e = bnd ?m (\<lambda>_. setState writtenDBHeaderState) ?e"
    using st new by (simp add: WriteDBHeader_def bnd_addDB bnd_assoc)
  ultimately have "WriteDBHeader i kc tc e = (Inr (), (emit ?bs ?e)\<lparr>encState := writtenDBHeaderState\<rparr>)"
    by (simp add: bnd_Inr setState_def)
  moreover have "sameOptions e ((emit ?bs ?e)\<lparr>encState := writtenDBHeaderState\<rparr>)"
    by (simp add: sameOptions_def)
  ultimately show ?thesis using r
    by (intro exI [of _ "(emit ?bs ?e)\<lparr>encState := writtenDBHeaderState\<rparr>"])
      (simp add: accepts_def runOps_def bnd_def ret_def)
qed

lemma forEach_options_accepted:
  assumes "ready e" "length (optionTTLs opts) \<le> 1" "writtenTTLState \<in> stateChanges (encState e)"
  shows "\<exists>e'. forEach applyOption opts e = (Inr (), e') \<and> existDB e' = existDB e"
  using assms(2)
proof (induction opts)
  case (Cons opt opts)
  show ?case
  proof (cases opt)
    case OtherOption
    with Cons show ?thesis by (simp add: applyOption_def bnd_ret optionTTLs_def)
  next
    case (TTLOption ms)
    with Cons.prems have "optionTTLs opts = []" by (simp add: optionTTLs_def)
    with TTLOption assms(1,3) show ?thesis
      by (simp add: applyOption_simps bnd_def writeTTL_ready forEach_options_noTTL)
  qed
qed (simp add: ret_def)

lemma accepts_object:
  assumes r: "ready e" and ok: "op_ok pf ff e (OpObject key v opts)" and ttl: "length (optionTTLs opts) \<le> 1"
    and st: "encState e \<in> {writtenDBHeaderState, writtenObjectState}"
  shows "\<exists>e'. accepts ff e [OpObject key v opts] e' \<and> encState e' = writtenObjectState \<and> existDB e' = existDB e"
proof -
  have t: "writtenTTLState \<in> stateChanges (encState e)" "writtenObjectState \<in> stateChanges (encState e)"
    using st by auto
  obtain e1 where e1: "forEach applyOption opts e = (Inr (), e1)"
    using forEach_options_accepted [OF r ttl t(1)] by blast
  obtain s where s: "e1 = (emit (ttlPrefix (optionTTLs opts)) e)\<lparr>encState := s\<rparr>"
    using forEach_options_ready [OF r e1] by blast
  have same: "sameOptions e e1" unfolding s by (rule sameOptions_emit)
  have "ready e1" using r s by simp
  moreover have "string_ok (compress e1) key" "rdb_ok pf ff e1 v"
    using ok same by (simp_all add: rdb_cong(3) [OF same]) (simp add: sameOptions_def)
  ultimately have body: "writeBody ff key v e1 =
      (Inr (), emit (rdbType e1 v # stringBytes (compress e1) key @ rdbPayload ff e1 v) e1)"
    by (rule writeBody_emits)
  let ?e = "(emit (rdbType e1 v # stringBytes (compress e1) key @ rdbPayload ff e1 v) e1)\<lparr>encState := writtenObjectState\<rparr>"
  have "beforeWriteObject opts e = (Inr (), e1)" using t(2) e1 by (simp add: beforeWriteObject_def)
  with body have "writeValue ff key v opts e = (Inr (), ?e)"
    by (simp add: writeValue_body bnd_Inr setState_def)
  moreover have "ready ?e" "sameOptions e ?e" "existDB ?e = existDB e"
    using \<open>ready e1\<close> same by (simp_all add: sameOptions_def s)
  ultimately show ?thesis
    by (intro exI [of _ ?e]) (simp add: accepts_def runOps_def bnd_def ret_def)
qed

text \<open>One call after the other: \<open>P\<close> is what each call keeps.\<close>

lemma accepts_all:
  assumes step: "\<And>e op. ready e \<Longrightarrow> op \<in> set ops \<Longrightarrow> op_ok pf ff e op \<Longrightarrow> P e \<Longrightarrow>
      \<exists>e'. accepts ff e [op] e' \<and> P e'"
    and "ready e" "list_all (op_ok pf ff e) ops" "P e"
  shows "\<exists>e'. accepts ff e ops e' \<and> P e'"
  using assms
proof (induction ops arbitrary: e)
  case Nil
  then show ?case using accepts_Nil by blast
next
  case (Cons op ops)
  then obtain e1 where e1: "accepts ff e [op] e1" "P e1" by (metis list.pred_inject(2) list.set_intros(1))
  then have "ready e1" "op_ok pf ff e1 = op_ok pf ff e" by (simp_all add: accepts_def calls_cong(2))
  with Cons.IH [of e1] Cons.prems e1(2) obtain e2 where "accepts ff e1 ops e2" "P e2"
    by (metis list.pred_inject(2) list.set_intros(2))
  with accepts_append [OF e1(1)] show ?case by auto
qed

lemma accepts_auxs:
  assumes "ready e" "list_all (op_ok pf ff e) (map (\<lambda>(k, v). OpAux k v) auxs)"
    "encState e \<in> {writtenHeaderState, writtenAuxState}"
  shows "\<exists>e'. accepts ff e (map (\<lambda>(k, v). OpAux k v) auxs) e' \<and>
    encState e' \<in> {writtenHeaderState, writtenAuxState} \<and> existDB e' = existDB e"
proof (rule accepts_all [where P = "\<lambda>e'. encState e' \<in> {writtenHeaderState, writtenAuxState} \<and> existDB e' = existDB e"])
  fix e0 op
  assume "ready e0" "op \<in> set (map (\<lambda>(k, v). OpAux k v) auxs)" "op_ok pf ff e0 op"
    "encState e0 \<in> {writtenHeaderState, writtenAuxState} \<and> existDB e0 = existDB e"
  then show "\<exists>e'. accepts ff e0 [op] e' \<and> encState e' \<in> {writtenHeaderState, writtenAuxState} \<and> existDB e' = existDB e"
    using accepts_aux [of e0 pf ff] by fastforce
qed (use assms in auto)

definition block_ok :: "db_block \<Rightarrow> bool" where
  "block_ok b \<longleftrightarrow> snd b \<noteq> [] \<and> (\<forall>(key, v, opts) \<in> set (snd b). length (optionTTLs opts) \<le> 1)"

lemma accepts_block:
  assumes r: "ready e" and ok: "list_all (op_ok pf ff e) (blockOps b)" and b: "block_ok b"
    and st: "encState e \<in> {writtenHeaderState, writtenAuxState, writtenObjectState}" and new: "blockIndex b \<notin> existDB e"
  shows "\<exists>e'. accepts ff e (blockOps b) e' \<and> encState e' = writtenObjectState \<and>
    existDB e' = insert (blockIndex b) (existDB e)"
proof -
  obtain i kc tc objs where bi: "b = ((i, kc, tc), objs)" by (metis prod.collapse)
  then obtain key v opts r where objs: "objs = (key, v, opts) # r"
    using b by (cases objs) (auto simp: block_ok_def)
  let ?f = "\<lambda>(key, v, opts). OpObject key v opts"
  let ?P = "\<lambda>e'. encState e' \<in> {writtenDBHeaderState, writtenObjectState} \<and> existDB e' = insert i (existDB e)"
  have dbst: "writtenDBHeaderState \<in> stateChanges (encState e)" using st by auto
  have "i \<notin> existDB e" using new by (simp add: bi blockIndex_def)
  from accepts_db [OF assms(1) dbst this] obtain e1 where e1: "accepts ff e [OpDB i kc tc] e1"
    "encState e1 = writtenDBHeaderState" "existDB e1 = insert i (existDB e)" by blast
  then have c: "ready e1" "op_ok pf ff e1 = op_ok pf ff e" by (simp_all add: accepts_def calls_cong(2))
  have ttl: "length (optionTTLs opts) \<le> 1" if "(key, v, opts) \<in> set objs" for key v opts
    using b that by (auto simp: block_ok_def bi)
  have okf: "op_ok pf ff e1 (OpObject key v opts)" "list_all (op_ok pf ff e1) (map ?f r)"
    using ok c(2) by (simp_all add: bi blockOps_def objs)
  obtain e2 where e2: "accepts ff e1 [OpObject key v opts] e2" "encState e2 = writtenObjectState"
    "existDB e2 = existDB e1"
    using accepts_object [OF c(1) okf(1) ttl [of key v opts]] e1(2) objs by auto
  have "\<exists>e3. accepts ff e2 (map ?f r) e3 \<and> (encState e3 = writtenObjectState \<and> existDB e3 = existDB e1)"
  proof (rule accepts_all [where P = "\<lambda>e3. encState e3 = writtenObjectState \<and> existDB e3 = existDB e1"])
    fix e0 op
    assume "ready e0" "op \<in> set (map ?f r)" "op_ok pf ff e0 op"
      "encState e0 = writtenObjectState \<and> existDB e0 = existDB e1"
    then show "\<exists>e'. accepts ff e0 [op] e' \<and> encState e' = writtenObjectState \<and> existDB e' = existDB e1"
      using accepts_object [of e0 pf ff] ttl objs by fastforce
  next
    show "list_all (op_ok pf ff e2) (map ?f r)" using okf(2) e2(1) calls_cong(2) [of e1 e2] by (simp add: accepts_def)
  qed (use e2 in \<open>auto simp: accepts_def\<close>)
  then obtain e3 where "accepts ff e2 (map ?f r) e3" "encState e3 = writtenObjectState" "existDB e3 = existDB e1"
    by blast
  with accepts_append [OF accepts_append [OF e1(1) e2(1)]] e1(3) show ?thesis
    by (auto simp: bi objs blockOps_def blockIndex_def)
qed

lemma accepts_blocks:
  assumes "ready e" "list_all (op_ok pf ff e) (concat (map blockOps blocks))" "list_all block_ok blocks"
    "encState e \<in> {writtenHeaderState, writtenAuxState, writtenObjectState}"
    "distinct (map blockIndex blocks)" "blockIndex ` set blocks \<inter> existDB e = {}"
  shows "\<exists>e'. accepts ff e (concat (map blockOps blocks)) e' \<and>
    encState e' \<in> {writtenHeaderState, writtenAuxState, writtenObjectState}"
  using assms
proof (induction blocks arbitrary: e)
  case Nil
  then show ?case using accepts_Nil by auto
next
  case (Cons b blocks)
  then obtain e1 where e1: "accepts ff e (blockOps b) e1" "encState e1 = writtenObjectState"
      "existDB e1 = insert (blockIndex b) (existDB e)"
    using accepts_block [of e pf ff b] by auto
  then have "ready e1" "op_ok pf ff e1 = op_ok pf ff e" by (simp_all add: accepts_def calls_cong(2))
  with Cons.IH [of e1] Cons.prems e1(2,3) obtain e2 where "accepts ff e1 (concat (map blockOps blocks)) e2"
    "encState e2 \<in> {writtenHeaderState, writtenAuxState, writtenObjectState}" by auto
  with accepts_append [OF e1(1)] show ?case by auto
qed

definition file_ok ::
  "(bytes \<Rightarrow> float64 option) \<Rightarrow> (float64 \<Rightarrow> bytes) \<Rightarrow> encoder \<Rightarrow> (bytes \<times> bytes) list \<Rightarrow> db_block list \<Rightarrow> bool"
where
  "file_ok pf ff e auxs blocks \<longleftrightarrow>
     list_all (\<lambda>(k, v). op_ok pf ff e (OpAux k v)) auxs \<and>
     list_all (\<lambda>b. block_ok b \<and> list_all (op_ok pf ff e) (blockOps b)) blocks \<and>
     distinct (map blockIndex blocks)"

definition fileOps :: "(bytes \<times> bytes) list \<Rightarrow> db_block list \<Rightarrow> enc_op list" where
  "fileOps auxs blocks = map (\<lambda>(k, v). OpAux k v) auxs @ concat (map blockOps blocks)"

lemma callSeq_file: "callSeq auxs blocks True = OpHeader # fileOps auxs blocks @ [OpEnd]"
  by (simp add: callSeq_def fileOps_def)

lemma file_ok_ops: "file_ok pf ff e auxs blocks \<Longrightarrow> list_all (op_ok pf ff e) (fileOps auxs blocks)"
  by (auto simp: file_ok_def fileOps_def list_all_iff)

definition fresh :: "encoder \<Rightarrow> bool" where
  "fresh e \<longleftrightarrow> ready e \<and> encState e = startState \<and> existDB e = {} \<and> out e = []"

lemma accepts_file:
  assumes e: "fresh e" and ok: "file_ok pf ff e auxs blocks"
  shows "\<exists>e'. runOps ff (callSeq auxs blocks True) e = (Inr (), e')"
proof -
  let ?e = "(emit (rdbHeaderOf e) e)\<lparr>encState := writtenHeaderState\<rparr>"
  have same: "sameOptions e ?e" by (rule sameOptions_emit)
  have r: "ready ?e" "existDB ?e = {}" using e by (simp_all add: fresh_def)
  have head: "runOp ff OpHeader e = (Inr (), ?e)" using e WriteHeader_ready by (simp add: fresh_def)
  have ok1: "list_all (op_ok pf ff ?e) (map (\<lambda>(k, v). OpAux k v) auxs)"
    using ok calls_cong(2) [OF same] by (auto simp: file_ok_def list_all_iff)
  from accepts_auxs [OF r(1) this] obtain e1 where
    e1: "accepts ff ?e (map (\<lambda>(k, v). OpAux k v) auxs) e1"
      "encState e1 \<in> {writtenHeaderState, writtenAuxState}" "existDB e1 = {}" using r(2) by auto
  then have same1: "ready e1" "sameOptions e e1" using same sameOptions_trans by (auto simp: accepts_def)
  have ok2: "list_all (op_ok pf ff e1) (concat (map blockOps blocks))"
    using ok calls_cong(2) [OF same1(2)] by (auto simp: file_ok_def list_all_iff)
  obtain e2 where e2: "accepts ff e1 (concat (map blockOps blocks)) e2"
    "encState e2 \<in> {writtenHeaderState, writtenAuxState, writtenObjectState}"
    using accepts_blocks [OF same1(1) ok2] e1(2,3) ok by (auto simp: file_ok_def list_all_iff)
  have mid: "runOps ff (fileOps auxs blocks) ?e = (Inr (), e2)" "ready e2"
    using accepts_append [OF e1(1) e2(1)] by (simp_all add: accepts_def fileOps_def)
  have "writtenEndState \<in> stateChanges (encState e2)" using e2(2) by auto
  from WriteEnd_ready [OF mid(2) this] obtain e3 where "WriteEnd e2 = (Inr (), e3)" by blast
  then have "runOps ff [OpEnd] e2 = (Inr (), e3)" by (simp add: runOps_def bnd_def ret_def)
  from runOps_append [OF mid(1) this] head show ?thesis by (simp add: callSeq_file runOps_Cons)
qed

subsection \<open>What is kept of a value\<close>

definition sameMessage :: "stream_message \<Rightarrow> stream_message \<Rightarrow> bool" where
  "sameMessage m m' \<longleftrightarrow> msgId m' = msgId m \<and> msgDeleted m' = msgDeleted m \<and>
     map_of (msgFields m') = map_of (msgFields m)"

definition sameEntry :: "stream_entry \<Rightarrow> stream_entry \<Rightarrow> bool" where
  "sameEntry x x' \<longleftrightarrow> firstMsgId x' = firstMsgId x \<and> entryFields x' = entryFields x \<and>
     list_all2 sameMessage (entryMsgs x) (entryMsgs x')"

definition sameStream :: "stream_object \<Rightarrow> stream_object \<Rightarrow> bool" where
  "sameStream s s' \<longleftrightarrow> streamVersion s' = streamVersion s \<and> streamLength s' = streamLength s \<and> lastId s' = lastId s \<and>
     list_all2 sameEntry (streamEntries s) (streamEntries s') \<and>
     (2 \<le> streamVersion s \<longrightarrow> orZero (firstId s') = orZero (firstId s) \<and>
        orZero (maxDeletedId s') = orZero (maxDeletedId s) \<and> addedEntriesCount s' = addedEntriesCount s) \<and>
     (streamVersion s = 3 \<longrightarrow> streamGroups s' = streamGroups s)"

fun sameValue :: "rdb_value \<Rightarrow> rdb_value \<Rightarrow> bool" where
  "sameValue (SetVal vals) (SetVal vals') \<longleftrightarrow> mset vals' = mset vals"
| "sameValue (HashExVal h x) (HashExVal h' x') \<longleftrightarrow> h' = h \<and> (\<forall>p \<in> set h. expireOf x' (fst p) = expireOf x (fst p))"
| "sameValue (StreamVal s) (StreamVal s') \<longleftrightarrow> sameStream s s'"
| "sameValue v v' \<longleftrightarrow> v' = v"

lemma expireOf_back:
  "distinct (map fst h) \<Longrightarrow> (f, v) \<in> set h \<Longrightarrow> expireOf (map (\<lambda>(f, v). (f, expireOf x f)) h) f = expireOf x f"
  by (induction h) (auto simp: expireOf_def rev_image_eqI split: prod.splits)

lemma readMsg_same: "distinct (entryFields entry) \<Longrightarrow> msg_ok entry msg \<Longrightarrow> sameMessage msg (readMsg entry msg)"
  using sameFields_map_of [of entry msg] by (simp add: sameMessage_def readMsg_def msg_ok_def)

lemma readEntry_same: "entry_ok c entry \<Longrightarrow> sameEntry entry (readEntry entry)"
  by (auto simp: sameEntry_def readEntry_def entry_ok_def list.rel_map list_all2_same list_all_iff
      intro!: readMsg_same)

lemma readGrp_3 [simp]: "readGrp 3 g = g"
  by (cases g) (simp add: readGrp_def readCons_def map_idI)

lemma readStream_same:
  assumes "stream_ok c s"
  shows "sameStream s (readStream s)"
  using assms
  by (auto simp: sameStream_def readStream_def stream_ok_def list.rel_map list_all2_same list_all_iff orZero_def
      map_idI intro: readEntry_same)

lemma readBack_same: "rdb_ok pf ff e v \<Longrightarrow> sameValue v (readBack v)"
  by (cases v) (auto simp: setRead_mset readStream_same hashEx_ok_def expireOf_back)

text \<open>The objects a client writes, with the database each of them goes to.\<close>

fun objectWrites :: "int \<Rightarrow> enc_op list \<Rightarrow> (int \<times> bytes \<times> rdb_value) list" where
  "objectWrites db [] = []"
| "objectWrites db (OpObject key v opts # ops) = (db, key, v) # objectWrites db ops"
| "objectWrites db (op # ops) = objectWrites (opDB db op) ops"

definition sameObject :: "int \<times> bytes \<times> rdb_value \<Rightarrow> 'v redis_object \<Rightarrow> bool" where
  "sameObject w obj \<longleftrightarrow> GetDBIndex obj = fst w \<and> GetKey obj = fst (snd w) \<and>
     (\<exists>v'. contentOf obj = DataContent v' \<and> sameValue (snd (snd w)) v')"

lemma objectWrites_same:
  "list_all (op_ok pf ff e) ops \<Longrightarrow> map viewOf objs = opsViews False db ops \<Longrightarrow> list_all2 sameObject (objectWrites db ops) objs"
proof (induction db ops arbitrary: objs rule: objectWrites.induct)
  case (2 db key v opts ops)
  from "2.prems" obtain obj rest where objs: "objs = obj # rest" "map viewOf rest = opsViews False db ops"
    and view: "viewOf obj = (db, key, optionExpiration opts, DataContent (readBack v))" by auto
  have "sameObject (db, key, v) obj"
    using view readBack_same [of pf ff e v] "2.prems"(1) by (simp add: sameObject_def viewOf_def)
  with "2.IH" [OF _ objs(2)] "2.prems"(1) show ?case by (simp add: objs(1))
qed simp_all

text \<open>Whatever state an open encoder is in, there are calls that finish the file.\<close>

lemma finish_from:
  assumes r: "ready e" and st: "encState e \<noteq> writtenEndState"
  shows "\<exists>more e'. runOps ff more e = (Inr (), e') \<and> encState e' = writtenEndState"
proof -
  have fin: "\<exists>e'. runOps ff [OpEnd] e = (Inr (), e') \<and> encState e' = writtenEndState"
    if "ready e" "writtenEndState \<in> stateChanges (encState e)" for e
    using WriteEnd_ready [OF that] by (auto simp: runOps_def bnd_def ret_def)
  show ?thesis
  proof (cases "writtenEndState \<in> stateChanges (encState e)")
    case True
    with fin [OF r] show ?thesis by blast
  next
    case False
    show ?thesis
    proof (cases "encState e = startState")
      case True
      let ?e = "(emit (rdbHeaderOf e) e)\<lparr>encState := writtenHeaderState\<rparr>"
      have "runOps ff [OpHeader] e = (Inr (), ?e)"
        using WriteHeader_ready [OF r True] by (simp add: runOps_def bnd_def ret_def)
      moreover have "ready ?e" using r by simp
      ultimately show ?thesis using fin [of ?e] runOps_append by fastforce
    next
      case start: False
      let ?v = "StringVal []"
      have ok: "string_ok (compress e) []" by (simp add: string_ok_def maxAlloc_def)
      with False start st have obj: "writtenObjectState \<in> stateChanges (encState e)"
        by (cases "encState e") auto
      have "writeBody ff [] ?v e = (Inr (), emit (rdbType e ?v # stringBytes (compress e) [] @ rdbPayload ff e ?v) e)"
        by (rule writeBody_emits [OF r ok]) (simp add: ok)
      moreover have "beforeWriteObject [] e = (Inr (), e)" using obj by (simp add: beforeWriteObject_def ret_def)
      ultimately obtain e1 where e1: "writeValue ff [] ?v [] e = (Inr (), e1)" "ready e1" "encState e1 = writtenObjectState"
        using r by (simp add: writeValue_body bnd_Inr setState_def)
      then have "runOps ff [OpObject [] ?v []] e = (Inr (), e1)" by (simp add: runOps_def bnd_def ret_def)
      moreover obtain e2 where "runOps ff [OpEnd] e1 = (Inr (), e2)" "encState e2 = writtenEndState"
        using fin [OF e1(2)] e1(3) by auto
      ultimately show ?thesis using runOps_append by blast
    qed
  qed
qed

subsection \<open>Properties\<close>

text \<open>
  C1: a file can always be written: on a writer that does not fail, from a new encoder,
  every call of a well-formed sequence (header, auxiliary fields, databases with different
  indices and at least one object each, at most one expiration per object, the end)
  succeeds, and the bytes it leaves are parsed without an error into exactly what was
  written: one object per write, in order, with the database, key, expiration and contents
  of the write, and no input left over.
\<close>

theorem rdb_file_roundtrip:
  assumes "fresh e" and "file_ok pf ff e auxs blocks"
  shows "\<exists>e' objs d. runOps ff (callSeq auxs blocks True) e = (Inr (), e') \<and>
    Parse pf cfg collect (newDecoder (out e'), []) = (Inr (), (d, objs)) \<and>
    map viewOf objs = opsViews (withSpecialOpCode cfg) 0 (fileOps auxs blocks) \<and> input d = []"
proof -
  obtain e' where "runOps ff (callSeq auxs blocks True) e = (Inr (), e')" using accepts_file [OF assms] by blast
  with file_roundtrip [of e pf ff "fileOps auxs blocks" e' cfg] file_ok_ops [OF assms(2)] assms(1)
  show ?thesis by (auto simp: fresh_def callSeq_file)
qed

theorem rdb_file_roundtrip_witness:
  "\<exists>e' objs d. runOps (\<lambda>_. []) (callSeq [(strlit ''ver'', strlit ''7'')]
       [((3, 2, 1), [(strlit ''k'', StringVal (strlit ''v''), [TTLOption 5]),
                     (strlit ''s'', SetVal [strlit ''2'', strlit ''1''], [])])] True)
       (newEncoder (\<lambda>_ _. None)) = (Inr (), e') \<and>
     Parse (\<lambda>_. None) \<lparr>withSpecialOpCode = True, withSpecialTypes = \<lambda>_. (None :: (int \<Rightarrow> nat handler) option)\<rparr>
       collect (newDecoder (out e'), []) = (Inr (), (d, objs)) \<and>
     map viewOf objs = [(0, strlit ''ver'', None, AuxContent (strlit ''7'')),
       (3, [], None, SizeContent 2 1),
       (3, strlit ''k'', Some 5000000, DataContent (StringVal (strlit ''v''))),
       (3, strlit ''s'', None, DataContent (SetVal [strlit ''1'', strlit ''2'']))] \<and> input d = []"
proof -
  let ?e = "newEncoder (\<lambda>_ _. None)"
  let ?blocks = "[((3, 2, 1), [(strlit ''k'', StringVal (strlit ''v''), [TTLOption 5]),
      (strlit ''s'', SetVal [strlit ''2'', strlit ''1''], [])])] :: db_block list"
  have "fresh ?e" by (simp add: fresh_def ready_newEncoder) (simp add: newEncoder_def)
  have i: "isEncodableUint64 [50] = Some 2" "isEncodableUint64 [49] = Some 1" "length (intsetRaw [2, 1]) = 12"
    by code_simp+
  have vw: "setRead [strlit ''2'', strlit ''1''] = [strlit ''1'', strlit ''2'']"
    "optionExpiration [TTLOption 5] = Some 5000000" "optionExpiration [] = None"
    by code_simp+
  have "file_ok (\<lambda>_. None) (\<lambda>_. []) ?e [(strlit ''ver'', strlit ''7'')] ?blocks"
    by (simp add: file_ok_def block_ok_def blockOps_def string_ok_def maxAlloc_def optionTTLs_def
        set_ok_def i newEncoder_def strlit_def)
  from rdb_file_roundtrip [OF \<open>fresh ?e\<close> this, where cfg = "\<lparr>withSpecialOpCode = True, withSpecialTypes = \<lambda>_. None\<rparr>"]
  show ?thesis by (simp add: fileOps_def blockOps_def vw)
qed

text \<open>
  C2: whatever a client did with an encoder, if every call returned without an error, the
  last one ended the file and every written value is one that its readers understand
  (\<open>op_ok\<close>: among others, no string of 16384 bytes or more in a ziplist), parsing the output
  gives what was written.
\<close>

theorem parse_returns_writes:
  assumes "fresh e" and "runOps ff (OpHeader # ops @ [OpEnd]) e = (Inr (), e')"
    and "list_all (op_ok pf ff e) ops"
  shows "\<exists>objs d. Parse pf cfg collect (newDecoder (out e'), []) = (Inr (), (d, objs)) \<and>
    map viewOf objs = opsViews (withSpecialOpCode cfg) 0 ops \<and> input d = []"
  using file_roundtrip [OF _ _ _ assms(3,2)] assms(1) by (simp add: fresh_def)

theorem parse_returns_writes_witness:
  "\<exists>objs d. Parse (\<lambda>_. None) \<lparr>withSpecialOpCode = False, withSpecialTypes = \<lambda>_. (None :: (int \<Rightarrow> nat handler) option)\<rparr>
      collect (newDecoder (out (snd (runOps (\<lambda>_. [])
        [OpHeader, OpDB 0 1 0, OpObject (strlit ''k'') (StringVal (strlit ''v'')) [], OpEnd]
        (newEncoder (\<lambda>_ _. None))))), []) = (Inr (), (d, objs)) \<and>
    map viewOf objs = [(0, strlit ''k'', None, DataContent (StringVal (strlit ''v'')))] \<and> input d = []"
proof -
  let ?e = "newEncoder (\<lambda>_ _. None)"
  let ?ops = "[OpDB 0 1 0, OpObject (strlit ''k'') (StringVal (strlit ''v'')) []]"
  have f: "fresh ?e" by (simp add: fresh_def ready_newEncoder) (simp add: newEncoder_def)
  have ok: "list_all (op_ok (\<lambda>_. None) (\<lambda>_. []) ?e) ?ops"
    by (simp add: string_ok_def maxAlloc_def newEncoder_def strlit_def)
  have "file_ok (\<lambda>_. None) (\<lambda>_. []) ?e [] [((0, 1, 0), [(strlit ''k'', StringVal (strlit ''v''), [])])]"
    using ok by (simp add: file_ok_def block_ok_def blockOps_def optionTTLs_def)
  from accepts_file [OF f this] obtain e' where
    e': "runOps (\<lambda>_. []) (OpHeader # ?ops @ [OpEnd]) ?e = (Inr (), e')"
    by (auto simp: callSeq_def blockOps_def)
  have "optionExpiration [] = None" by code_simp
  with parse_returns_writes [OF f e' ok, where cfg = "\<lparr>withSpecialOpCode = False, withSpecialTypes = \<lambda>_. None\<rparr>"] e'
  show ?thesis by simp
qed

text \<open>
  C3: nothing a client wrote is changed by writing and parsing: if every call returned without
  an error, the last one ended the file and the values are ones that the readers understand,
  the objects of the file, parsed without the special opcodes, are, in order, those written, in their databases and under their
  keys; strings, lists, hashes and sorted sets come back as they are, a set has the same
  members, a hash the same fields and expirations, a stream the same entries, ids and fields,
  and its groups in version 3.
\<close>

theorem contents_come_back:
  assumes "fresh e" and "runOps ff (OpHeader # ops @ [OpEnd]) e = (Inr (), e')"
    and "list_all (op_ok pf ff e) ops" and "\<not> withSpecialOpCode cfg"
  shows "\<exists>objs d. Parse pf cfg collect (newDecoder (out e'), []) = (Inr (), (d, objs)) \<and>
    list_all2 sameObject (objectWrites 0 ops) objs"
  using file_roundtrip [OF _ _ _ assms(3,2), of cfg] objectWrites_same [OF assms(3), of _ 0] assms(1,4)
  by (auto simp: fresh_def)

theorem contents_come_back_witness:
  "\<exists>obj d. Parse (\<lambda>_. None) \<lparr>withSpecialOpCode = False, withSpecialTypes = \<lambda>_. (None :: (int \<Rightarrow> nat handler) option)\<rparr>
      collect (newDecoder (out (snd (runOps (\<lambda>_. [])
        [OpHeader, OpDB 2 1 0, OpObject (strlit ''h'') (HashExVal [(strlit ''f'', strlit ''v''), (strlit ''g'', strlit ''w'')]
           [(strlit ''g'', 500)]) [], OpEnd]
        (newEncoder (\<lambda>_ _. None))))), []) = (Inr (), (d, [obj])) \<and> GetDBIndex obj = 2 \<and> GetKey obj = strlit ''h'' \<and>
    (\<exists>x. contentOf obj = DataContent (HashExVal [(strlit ''f'', strlit ''v''), (strlit ''g'', strlit ''w'')] x) \<and>
       expireOf x (strlit ''f'') = 0 \<and> expireOf x (strlit ''g'') = 500)"
proof -
  let ?e = "newEncoder (\<lambda>_ _. None)"
  let ?v = "HashExVal [(strlit ''f'', strlit ''v''), (strlit ''g'', strlit ''w'')] [(strlit ''g'', 500)]"
  let ?ops = "[OpDB 2 1 0, OpObject (strlit ''h'') ?v []]"
  have f: "fresh ?e" by (simp add: fresh_def ready_newEncoder) (simp add: newEncoder_def)
  have ok: "list_all (op_ok (\<lambda>_. None) (\<lambda>_. []) ?e) ?ops"
    by (simp add: hashEx_ok_def string_ok_def maxAlloc_def newEncoder_def strlit_def EB_EXPIRE_TIME_MAX_def)
  have "file_ok (\<lambda>_. None) (\<lambda>_. []) ?e [] [((2, 1, 0), [(strlit ''h'', ?v, [])])]"
    using ok by (simp add: file_ok_def block_ok_def blockOps_def optionTTLs_def)
  then obtain e' where e': "runOps (\<lambda>_. []) (OpHeader # ?ops @ [OpEnd]) ?e = (Inr (), e')"
    using accepts_file [OF f, of "\<lambda>_. None" "\<lambda>_. []"] by (fastforce simp: callSeq_def blockOps_def)
  let ?cfg = "\<lparr>withSpecialOpCode = False, withSpecialTypes = \<lambda>_. (None :: (int \<Rightarrow> nat handler) option)\<rparr>"
  obtain objs d where p: "Parse (\<lambda>_. None) ?cfg collect (newDecoder (out e'), []) = (Inr (), (d, objs))"
    and all: "list_all2 sameObject (objectWrites 0 ?ops) objs"
    using contents_come_back [OF f e' ok, of ?cfg] by auto
  from all obtain obj where obj: "objs = [obj]" "sameObject (2, strlit ''h'', ?v) obj"
    by (auto simp: list_all2_Cons1)
  from obj(2) obtain v' where v': "GetDBIndex obj = 2" "GetKey obj = strlit ''h''" "contentOf obj = DataContent v'" "sameValue ?v v'"
    by (auto simp: sameObject_def)
  from v'(4) obtain x where "v' = HashExVal [(strlit ''f'', strlit ''v''), (strlit ''g'', strlit ''w'')] x"
    "expireOf x (strlit ''f'') = 0" "expireOf x (strlit ''g'') = 500"
    by (cases v') (auto simp: expireOf_def strlit_def)
  with p e' obj(1) v'(1-3) show ?thesis by auto
qed

text \<open>
  C8: an encoder is never stuck: whatever a client has called, also after calls that
  failed, on a writer that does not fail there are calls that complete the file.
\<close>

theorem encoder_can_finish:
  assumes "reachable ff w ops e" and "\<And>o' p. w o' p = None" and "encState e \<noteq> writtenEndState"
  shows "\<exists>more e'. runOps ff more e = (Inr (), e') \<and> encState e' = writtenEndState"
  using reachable_file_inv [OF assms(1,2)] finish_from [OF _ assms(3)] by (simp add: file_inv_def)

theorem encoder_can_finish_witness:
  "\<exists>more e'. runOps (\<lambda>_. []) more (newEncoderValkey (\<lambda>_ _. None)) = (Inr (), e') \<and> encState e' = writtenEndState"
  by (rule encoder_can_finish [OF reachable.startValkey]) (simp_all add: newEncoderValkey_def newEncoder_def)

end
