(* ===== verification/ParseLaws.thy ===== *)
theory ParseLaws
  imports RoundTrip
begin

section \<open>Laws of the parse loop\<close>

text \<open>
  What holds of \<^verbatim>\<open>Parse\<close> on any input and with any callback: the protocol of the calls to
  the callback, the type of what is delivered, the number of turns, and what truncated or
  foreign files give.
\<close>

subsection \<open>The callback\<close>

text \<open>
  \<open>protocol cb c objs c'\<close>: calling \<open>cb\<close> on \<open>objs\<close> one after the other leads from \<open>c\<close> to
  \<open>c'\<close>, and only the last call may have failed, panicked or asked to stop.
\<close>

fun protocol :: "('o \<Rightarrow> ('c, bool) gom) \<Rightarrow> 'c \<Rightarrow> 'o list \<Rightarrow> 'c \<Rightarrow> bool" where
  "protocol cb c [] c' \<longleftrightarrow> c' = c"
| "protocol cb c (obj # objs) c' \<longleftrightarrow> (case cb obj c of (r, c1) \<Rightarrow>
     if r = Inr True then protocol cb c1 objs c' else objs = [] \<and> c' = c1)"

text \<open>A step of the loop calls the callback at most once, on an object with \<open>Q\<close>.\<close>

definition calling ::
  "('o \<Rightarrow> bool) \<Rightarrow> ('o \<Rightarrow> ('c, bool) gom) \<Rightarrow> ('c pstate, loop_next) gom \<Rightarrow> bool"
where
  "calling Q cb m \<longleftrightarrow> (\<forall>d c r d' c'. m (d, c) = (r, (d', c')) \<longrightarrow>
     c' = c \<or> (\<exists>obj. Q obj \<and> c' = snd (cb obj c) \<and>
       ((\<exists>vars. r = Inr (Continue vars)) \<longrightarrow> fst (cb obj c) = Inr True)))"

lemma callingD:
  "calling Q cb m \<Longrightarrow> m (d, c) = (r, (d', c')) \<Longrightarrow>
     c' = c \<or> (\<exists>obj. Q obj \<and> c' = snd (cb obj c) \<and>
       ((\<exists>vars. r = Inr (Continue vars)) \<longrightarrow> fst (cb obj c) = Inr True))"
  unfolding calling_def by metis

lemma onDec_Pair: "onDec m (d, c) = (case m d of (r, d') \<Rightarrow> (r, (d', c)))"
  by (simp add: onDec_def)

lemma calling_bnd: "(\<And>x. calling Q cb (k x)) \<Longrightarrow> calling Q cb (bnd (onDec m) k)"
  unfolding calling_def bnd_def onDec_Pair
  by (auto split: prod.splits sum.splits)

lemma calling_orBreak: "(\<And>x. calling Q cb (k x)) \<Longrightarrow> calling Q cb (orBreak (onDec m) k)"
  unfolding calling_def orBreak_def onDec_Pair
  by (auto split: prod.splits sum.splits go_error.splits)

lemma calling_ret: "calling Q cb (ret x)"
  by (simp add: calling_def ret_def)

lemma calling_fail: "calling Q cb (\<lambda>s. (Inl e, s))"
  by (simp add: calling_def)

lemma calling_pure: "(\<And>x. calling Q cb (k x)) \<Longrightarrow> calling Q cb (bnd (\<lambda>s. (v, s)) k)"
  by (cases v) (simp_all add: calling_def bnd_def)

lemma calling_deliver: "Q obj \<Longrightarrow> calling Q cb (deliver cb obj vars)"
  unfolding calling_def deliver_def bnd_def onCb_def ret_def
  by (auto split: prod.splits sum.splits if_splits)

lemma calling_if: "(p \<Longrightarrow> calling Q cb a) \<Longrightarrow> (\<not> p \<Longrightarrow> calling Q cb b) \<Longrightarrow> calling Q cb (if p then a else b)"
  by simp

lemma calling_split: "(\<And>x y. calling Q cb (f x y)) \<Longrightarrow> calling Q cb (case p of (x, y) \<Rightarrow> f x y)"
  by (cases p) simp

lemmas calling_intros =
  calling_if calling_split calling_bnd calling_orBreak calling_ret calling_fail calling_pure calling_deliver

subsection \<open>The type of what is delivered\<close>

definition typeOfFlag :: "byte \<Rightarrow> bytes option" where
  "typeOfFlag flag =
     (if flag = typeString then Some StringType
      else if flag \<in> {typeList, typeListZipList, typeListQuickList, typeListQuickList2} then Some ListType
      else if flag \<in> {typeSet, typeSetIntSet, typeSetListPack} then Some SetType
      else if flag \<in> {typeHash, typeHashZipMap, typeHashZipList, typeHashListPack, typeHashWithHfe,
        typeHashWithHfeRc, typeHashListPackWithHfe, typeHashListPackWithHfeRc} then Some HashType
      else if flag \<in> {typeZset, typeZset2, typeZsetZipList, typeZsetListPack} then Some ZSetType
      else if flag \<in> {typeStreamListPacks, typeStreamListPacks2, typeStreamListPacks3} then Some StreamType
      else None)"

definition typedBy :: "byte \<Rightarrow> 'v redis_object \<Rightarrow> bool" where
  "typedBy flag obj \<longleftrightarrow> GetEncoding obj = encodingMap flag \<and>
     (case typeOfFlag flag of Some t \<Rightarrow> GetType obj = t
      | None \<Rightarrow> flag = typeModule2 \<and> (\<exists>b m v. obj = ModuleTypeObject b m v))"

text \<open>Every successful result of a method has \<open>P\<close>.\<close>

definition gives :: "('a \<Rightarrow> bool) \<Rightarrow> ('s, 'a) gom \<Rightarrow> bool" where
  "gives P m \<longleftrightarrow> (\<forall>s x s'. m s = (Inr x, s') \<longrightarrow> P x)"

lemma gives_rules:
  "P x \<Longrightarrow> gives P (ret x)"
  "gives P (fail e)"
  "(\<And>x. gives P (k x)) \<Longrightarrow> gives P (bnd m k)"
  "(b \<Longrightarrow> gives P m1) \<Longrightarrow> (\<not> b \<Longrightarrow> gives P m2) \<Longrightarrow> gives P (if b then m1 else m2)"
  "(\<And>x y. gives P (f x y)) \<Longrightarrow> gives P (case p of (x, y) \<Rightarrow> f x y)"
  by (auto simp: gives_def ret_def fail_def bnd_eq_Inr_iff split: prod.splits)

lemma readObject_gives:
  "gives (\<lambda>obj. typedBy flag obj \<and> baseDB (baseOf obj) = baseDB base \<and> baseKey (baseOf obj) = baseKey base \<and>
    baseExpiration (baseOf obj) = baseExpiration base) (readObject pf cfg flag base)"
  unfolding readObject_def Let_def
  by (intro gives_rules; auto simp: typedBy_def typeOfFlag_def GetEncoding_def type_consts)

text \<open>
  What a callback can see: values whose type and encoding agree with a type flag, and the
  special objects, if the decoder was asked for them.
\<close>

definition delivered :: "'v dconfig \<Rightarrow> 'v option redis_object \<Rightarrow> bool" where
  "delivered cfg obj \<longleftrightarrow> (case obj of
     AuxObject _ _ \<Rightarrow> withSpecialOpCode cfg
   | DBSizeObject _ _ _ \<Rightarrow> withSpecialOpCode cfg
   | FunctionsObject _ _ \<Rightarrow> withSpecialOpCode cfg
   | _ \<Rightarrow> (\<exists>flag. typedBy flag obj) \<and> baseType (baseOf obj) = GetType obj)"

lemma typedBy_withBase: "(\<And>b. baseEncoding (f b) = baseEncoding b) \<Longrightarrow> typedBy flag obj \<Longrightarrow> typedBy flag (withBase f obj)"
  by (auto simp: typedBy_def GetEncoding_def split: option.splits)

lemma delivered_value:
  assumes "typedBy flag obj"
  shows "delivered cfg (withBase (\<lambda>base. base\<lparr>baseSize := n, baseType := GetType obj\<rparr>) obj)"
proof -
  have "typedBy flag (withBase (\<lambda>base. base\<lparr>baseSize := n, baseType := GetType obj\<rparr>) obj)"
    using assms by (rule typedBy_withBase [rotated]) simp
  moreover have "typeOfFlag flag \<noteq> Some AuxType" "typeOfFlag flag \<noteq> Some DBSizeType"
    "typeOfFlag flag \<noteq> Some FunctionsType"
    by (auto simp: typeOfFlag_def otype_consts strlit_def)
  ultimately show ?thesis using assms
    by (cases obj) (auto simp: delivered_def typedBy_def split: option.splits)
qed

lemma calling_gives:
  assumes "gives P m" "\<And>x. P x \<Longrightarrow> calling Q cb (k x)"
  shows "calling Q cb (bnd (onDec m) k)"
  unfolding calling_def
proof (intro allI impI)
  fix d c r d' c'
  assume run: "bnd (onDec m) k (d, c) = (r, (d', c'))"
  show "c' = c \<or> (\<exists>obj. Q obj \<and> c' = snd (cb obj c) \<and>
      ((\<exists>vars. r = Inr (Continue vars)) \<longrightarrow> fst (cb obj c) = Inr True))"
  proof (cases "m d")
    case (Pair q d1)
    show ?thesis
    proof (cases q)
      case (Inl e)
      with run Pair show ?thesis by (simp add: bnd_def onDec_Pair)
    next
      case (Inr x)
      have "P x" using assms(1) Pair Inr unfolding gives_def by blast
      moreover have "k x (d1, c) = (r, (d', c'))" using run Pair Inr by (simp add: bnd_def onDec_Pair)
      ultimately show ?thesis by (rule callingD [OF assms(2)])
    qed
  qed
qed

lemma parseObject_calling: "calling (delivered cfg) cb (parseObject pf cfg cb vars b)"
  unfolding parseObject_def Let_def
  by (intro calling_intros calling_gives [OF readObject_gives]) (rule delivered_value, blast)

lemma calling_choice:
  assumes "calling Q cb a" "calling Q cb b" "\<And>s. m s = a s \<or> m s = b s"
  shows "calling Q cb m"
  using assms unfolding calling_def by metis

lemma makeslice_onDec:
  fixes k :: "unit \<Rightarrow> ('c pstate, 'a) gom"
  shows "bnd (makeslice 16 n) k = bnd (onDec (makeslice 16 n)) k"
  by (rule ext) (simp add: bnd_def makeslice_def onDec_def fail_def ret_def)

lemma slot_calling:
  "calling Q cb (parseSlotInfo vars)" "calling Q cb (parseSlotImport vars)"
proof -
  have "calling Q cb (bnd (onDec readLength) (\<lambda>_. bnd (onDec readLength) (\<lambda>_. bnd (onDec readLength) (\<lambda>_.
      ret (Continue vars)))))"
    by (intro calling_intros)
  moreover have "calling Q cb (\<lambda>s. (Inl (MsgArgs ''unsupported opcode 244 in Redis RDB version'' [rdbVersion (fst s)]), s))"
    by (simp add: calling_def)
  ultimately show "calling Q cb (parseSlotInfo vars)"
    by (rule calling_choice) (auto simp: parseSlotInfo_def)
  have "calling Q cb (bnd (onDec readString) (\<lambda>job. bnd (onDec readLength) (\<lambda>(num_slot_ranges, _).
      bnd (makeslice 16 (uint num_slot_ranges)) (\<lambda>_.
      bnd (onDec (readN (unat num_slot_ranges) (bnd readLength (\<lambda>_. readLength)))) (\<lambda>_.
      ret (Continue vars))))))"
    unfolding makeslice_onDec by (intro calling_intros)
  moreover have "calling Q cb (\<lambda>s. (Inl (MsgArgs ''unsupported opcode: RDB_OPCODE_KEY_META (243) in Redis RDB version''
      [rdbVersion (fst s)]), s))"
    by (simp add: calling_def)
  ultimately show "calling Q cb (parseSlotImport vars)"
    by (rule calling_choice) (auto simp: parseSlotImport_def)
qed

lemma parseStep_calling: "calling (delivered cfg) cb (parseStep pf cfg cb vars)"
  unfolding parseStep_def parseResizeDB_def parseAux_def parseFunction_def
  by (intro calling_intros slot_calling parseObject_calling; simp add: delivered_def)

text \<open>The whole run: at most one call per byte.\<close>

lemma parseStep_empty: "input d = [] \<Longrightarrow> parseStep pf cfg cb vars (d, c) = (Inl EOF, (d, c))"
  by (simp add: parseStep_def bnd_def onDec_def dec_readByte_def)

lemma parseStep_calls:
  assumes "parseStep pf cfg cb vars (d, c) = (r, (d', c'))"
  shows "\<exists>objs. list_all (delivered cfg) objs \<and> length objs \<le> 1 \<and> length objs \<le> length (input d) \<and>
    protocol cb c objs c' \<and>
    (\<forall>vars'. r = Inr (Continue vars') \<longrightarrow> (\<forall>objs' c2. protocol cb c' objs' c2 \<longrightarrow> protocol cb c (objs @ objs') c2))"
proof (cases "c' = c")
  case False
  then have "input d \<noteq> []" using assms parseStep_empty [of d pf cfg cb vars c] by auto
  moreover obtain obj where "delivered cfg obj" "c' = snd (cb obj c)"
    "(\<exists>vars. r = Inr (Continue vars)) \<longrightarrow> fst (cb obj c) = Inr True"
    using callingD [OF parseStep_calling assms] False by blast
  ultimately show ?thesis
    by (intro exI [of _ "[obj]"]) (auto simp: Suc_le_eq split: prod.splits)
qed (auto intro: exI [of _ "[]"])

lemma parseLoop_protocol:
  "parseLoop pf cfg cb vars s = (r, s') \<Longrightarrow> \<exists>objs. protocol cb (snd s) objs (snd s') \<and>
     list_all (delivered cfg) objs \<and> length objs \<le> length (input (fst s))"
proof (induction pf cfg cb vars s arbitrary: r s' rule: parseLoop.induct)
  case (1 pf cfg cb vars s)
  obtain d c q d1 c1 where s: "s = (d, c)" and step: "parseStep pf cfg cb vars (d, c) = (q, (d1, c1))"
    by (metis surj_pair)
  from parseStep_calls [OF step] obtain objs where objs: "list_all (delivered cfg) objs" "length objs \<le> 1"
    "length objs \<le> length (input d)" "protocol cb c objs c1"
    "\<And>vars' objs' c2. q = Inr (Continue vars') \<Longrightarrow> protocol cb c1 objs' c2 \<Longrightarrow> protocol cb c (objs @ objs') c2"
    by blast
  show ?case
  proof (cases "\<exists>vars'. q = Inr (Continue vars')")
    case True
    then obtain vars' where q: "q = Inr (Continue vars')" by blast
    with 1 step s have "\<exists>objs. protocol cb (snd (d1, c1)) objs (snd s') \<and> list_all (delivered cfg) objs \<and>
        length objs \<le> length (input (fst (d1, c1)))"
      using parseLoop_Continue [of pf cfg cb vars "(d, c)" vars' "(d1, c1)"] by auto
    then obtain objs' where "protocol cb c1 objs' (snd s')" "list_all (delivered cfg) objs'"
      "length objs' \<le> length (input d1)" by auto
    moreover have "length (input d1) < length (input d)"
      using parseStep_progress [of pf cfg cb vars "(d, c)" "Continue vars'" "(d1, c1)"] step q by simp
    ultimately show ?thesis using objs(1,2) objs(5) [OF q] s
      by (intro exI [of _ "objs @ objs'"]) auto
  next
    case False
    then have "s' = (d1, c1)"
      using 1(2) step s by (auto simp: parseLoop.simps [of pf cfg cb vars "(d, c)"] split: sum.splits loop_next.splits)
    with objs s show ?thesis by auto
  qed
qed

lemma recovered_state: "snd (recovered m s) = snd (m s)"
  by (auto simp: recovered_def split: prod.split sum.split go_error.split)

lemma checkHeader_shorter: "length (input (snd (checkHeader d))) \<le> length (input d)"
proof -
  have v: "input (snd (checkVersion vs d)) = input d" for vs d
    by (auto simp: checkVersion_def split: option.split)
  have "length (input (snd (dec_readFull 9 d))) \<le> length (input d)" by (simp add: dec_readFull_def)
  moreover have "input (snd (checkHeader d)) = input (snd (dec_readFull 9 d))"
    by (auto simp: checkHeader_def v split: prod.split sum.split go_error.split)
  ultimately show ?thesis by simp
qed

lemma Parse_state:
  assumes "Parse pf cfg cb (d, c) = (r, (d', c'))"
  shows "c' = c \<or> (\<exists>d1 q d2. checkHeader d = (Inr (), d1) \<and>
    parseLoop pf cfg cb initVars (d1, c) = (q, (d2, c')))"
proof -
  have run: "(d', c') = snd (bnd (onDec checkHeader) (\<lambda>_. parse pf cfg cb) (d, c))"
    using assms recovered_state by (metis Parse_def snd_conv)
  have tail: "snd (snd (parse pf cfg cb s)) = snd (snd (parseLoop pf cfg cb initVars s))" for s
    by (auto simp: parse_def bnd_def onDec_def ret_def split: prod.split sum.split)
  show ?thesis
  proof (cases "checkHeader d")
    case (Pair h d1)
    show ?thesis
    proof (cases h)
      case (Inl e)
      with run Pair show ?thesis by (simp add: bnd_def onDec_Pair)
    next
      case (Inr u)
      with run Pair have "c' = snd (snd (parse pf cfg cb (d1, c)))"
        by (metis bnd_Inr onDec_Pair prod.case snd_conv)
      then have "c' = snd (snd (parseLoop pf cfg cb initVars (d1, c)))" by (simp add: tail)
      with Pair Inr show ?thesis by (metis old.unit.exhaust prod.collapse)
    qed
  qed
qed

lemma Parse_protocol:
  assumes "Parse pf cfg cb (d, c) = (r, (d', c'))"
  shows "\<exists>objs. protocol cb c objs c' \<and> list_all (delivered cfg) objs \<and> length objs \<le> length (input d)"
  using Parse_state [OF assms]
proof
  assume "\<exists>d1 q d2. checkHeader d = (Inr (), d1) \<and> parseLoop pf cfg cb initVars (d1, c) = (q, (d2, c'))"
  then obtain d1 q d2 where h: "checkHeader d = (Inr (), d1)" and
    l: "parseLoop pf cfg cb initVars (d1, c) = (q, (d2, c'))" by blast
  from parseLoop_protocol [OF l] checkHeader_shorter [of d] h show ?thesis by fastforce
qed (auto intro: exI [of _ "[]"])

subsection \<open>The header\<close>

definition header_ok :: "bytes \<Rightarrow> bool" where
  "header_ok bs \<longleftrightarrow> 9 \<le> length bs \<and>
     (if take 5 bs = magicNumberRedis
      then (case parseInt 64 (drop 5 (take 9 bs)) of None \<Rightarrow> False | Some v \<Rightarrow> 1 \<le> v \<and> v \<le> 12)
      else take 6 bs = magicNumberValkey \<and> parseInt 64 (drop 6 (take 9 bs)) = Some 80)"

lemma checkHeader_refuses:
  assumes "\<not> header_ok bs"
  shows "\<exists>err d'. checkHeader (newDecoder bs) = (Inl err, d') \<and> (\<forall>p. err \<noteq> GoPanic p)"
proof (cases "9 \<le> length bs")
  case False
  then show ?thesis by (auto simp: checkHeader_def dec_readFull_def newDecoder_def)
next
  case True
  have len: "length magicNumberRedis = 5" "length magicNumberValkey = 6"
    by (simp_all add: magicNumberRedis_def magicNumberValkey_def strlit_def)
  have "take 5 (take 9 bs) = take 5 bs" "take 6 (take 9 bs) = take 6 bs" by (simp_all add: min_def)
  moreover have "magicNumberRedis \<noteq> [] " by (simp add: magicNumberRedis_def strlit_def)
  ultimately show ?thesis using assms True
    by (auto simp: checkHeader_def dec_readFull_def newDecoder_def len header_ok_def checkVersion_def
        minVersion_def maxVersion_def minVersionValkey_def maxVersionValkey_def split: option.splits if_splits)
qed

subsection \<open>Cut files\<close>

lemma Parse_prefix:
  fixes cfg :: "'v dconfig"
  assumes ops: "list_all (call_ok pf ff e) ops"
    and bs: "bs = rdbHeaderOf e @ concat (map (opBytes ff e) ops) @ tail"
  shows "\<exists>objs d vars. Parse pf cfg collect (newDecoder bs, []) =
      recovered (bnd (parseLoop pf cfg collect vars) (\<lambda>_. bnd (onDec (ignoreErr [] (dec_readFull 8))) (\<lambda>_. ret ()))) (d, objs) \<and>
    map viewOf objs = opsViews (withSpecialOpCode cfg) 0 ops \<and> input d = tail \<and> valkey d = encValkey e"
proof -
  let ?bs = "concat (map (opBytes ff e) ops)"
  define d where "d = (dec_adv 9 (newDecoder bs))\<lparr>valkey := encValkey e,
    rdbVersion := if encValkey e then 80 else 11\<rparr>"
  have head: "checkHeader (newDecoder bs) = (Inr (), d)"
    unfolding d_def by (rule checkHeader_header) (simp add: bs newDecoder_def)
  have len: "length (rdbHeaderOf e) = 9"
    by (simp add: rdbHeaderOf_def rdbHeaderValkey_def rdbHeaderRedis_def strlit_def)
  have d: "valkey d = encValkey e" "input d = ?bs @ tail"
    using len by (simp_all add: d_def newDecoder_def bs)
  have "idle_vars 0 initVars" by (simp add: idle_vars_def initVars_def)
  with loops_ops [OF ops, of cfg 0] d obtain vars' objs where
    l: "map viewOf objs = opsViews (withSpecialOpCode cfg) 0 ops"
       "parseLoop pf cfg collect initVars (d, []) = parseLoop pf cfg collect vars' (dec_adv (length ?bs) d, objs)"
    unfolding loops_def by (metis append_Nil)
  have "Parse pf cfg collect (newDecoder bs, []) =
      recovered (bnd (parseLoop pf cfg collect vars') (\<lambda>_. bnd (onDec (ignoreErr [] (dec_readFull 8))) (\<lambda>_. ret ())))
        (dec_adv (length ?bs) d, objs)"
    by (simp add: Parse_def recovered_def bnd_def onDec_Pair head parse_def l(2))
  with l(1) d show ?thesis by (intro exI [of _ objs] exI [of _ "dec_adv (length ?bs) d"] exI [of _ vars']) simp
qed

lemma Parse_cut:
  assumes "list_all (call_ok pf ff e) ops"
  shows "\<exists>objs d. Parse pf cfg collect (newDecoder (rdbHeaderOf e @ concat (map (opBytes ff e) ops)), []) =
      (Inl EOF, (d, objs)) \<and> map viewOf objs = opsViews (withSpecialOpCode cfg) 0 ops"
proof -
  from Parse_prefix [OF assms, of "rdbHeaderOf e @ concat (map (opBytes ff e) ops)" "[]" cfg] obtain objs d vars where
    p: "Parse pf cfg collect (newDecoder (rdbHeaderOf e @ concat (map (opBytes ff e) ops)), []) =
      recovered (bnd (parseLoop pf cfg collect vars) (\<lambda>_. bnd (onDec (ignoreErr [] (dec_readFull 8))) (\<lambda>_. ret ()))) (d, objs)"
    "map viewOf objs = opsViews (withSpecialOpCode cfg) 0 ops" "input d = []" by auto
  moreover have "parseLoop pf cfg collect vars (d, objs) = (Inl EOF, (d, objs))"
    by (simp add: parseLoop.simps [of _ _ _ vars] parseStep_empty [OF p(3)])
  ultimately show ?thesis by (simp add: recovered_def bnd_def)
qed

lemma parseStep_cut_aux:
  assumes "string_ok c k" "input d = opCodeAux # stringBytes c k"
  shows "\<exists>d'. parseStep pf cfg cb vars (d, x) = (Inr Break, (d', x)) \<and> input d' = []"
proof -
  let ?d = "dec_adv (length (stringBytes c k)) (dec_adv 1 d)"
  have "readString ?d = (Inl (Wrap ''read length failed'' EOF), ?d)"
    using assms(2) by (simp add: readString_def readLength_def dec_readByte_def wrapErr_def bnd_def)
  with assms show ?thesis
    by (simp add: parseStep_def bnd_onDec_byte opcodes parseAux_def bnd_onDec [OF readString_parses [OF assms(1)], of _ "[]"]
        orBreak_def onDec_Pair)
qed

lemma Parse_cut_aux:
  assumes "list_all (call_ok pf ff e) ops" "string_ok (compress e) k"
  shows "\<exists>objs d. Parse pf cfg collect (newDecoder (rdbHeaderOf e @ concat (map (opBytes ff e) ops) @
      opCodeAux # stringBytes (compress e) k), []) = (Inr (), (d, objs)) \<and>
    map viewOf objs = opsViews (withSpecialOpCode cfg) 0 ops"
proof -
  let ?bs = "rdbHeaderOf e @ concat (map (opBytes ff e) ops) @ opCodeAux # stringBytes (compress e) k"
  from Parse_prefix [OF assms(1) refl, of cfg "opCodeAux # stringBytes (compress e) k"] obtain objs d vars where
    p: "Parse pf cfg collect (newDecoder ?bs, []) =
      recovered (bnd (parseLoop pf cfg collect vars) (\<lambda>_. bnd (onDec (ignoreErr [] (dec_readFull 8))) (\<lambda>_. ret ()))) (d, objs)"
    "map viewOf objs = opsViews (withSpecialOpCode cfg) 0 ops" "input d = opCodeAux # stringBytes (compress e) k" by blast
  from parseStep_cut_aux [OF assms(2) p(3), of pf cfg collect vars objs] obtain d' where
    "parseStep pf cfg collect vars (d, objs) = (Inr Break, (d', objs))" "input d' = []" by blast
  then have "parseLoop pf cfg collect vars (d, objs) = (Inr (), (d', objs))"
    by (simp add: parseLoop.simps [of _ _ _ vars])
  with p show ?thesis by (simp add: recovered_def bnd_def onDec_Pair ignoreErr_def dec_readFull_def ret_def split: prod.split)
qed

subsection \<open>The number of turns\<close>

fun parseFuel ::
  "nat \<Rightarrow> (bytes \<Rightarrow> float64 option) \<Rightarrow> 'v dconfig \<Rightarrow> ('v option redis_object \<Rightarrow> ('c, bool) gom) \<Rightarrow> loop_vars \<Rightarrow>
    'c pstate \<Rightarrow> ((go_error + unit) \<times> 'c pstate) option"
where
  "parseFuel 0 pf cfg cb vars s = None"
| "parseFuel (Suc n) pf cfg cb vars s = (case parseStep pf cfg cb vars s of
     (Inl err, s') \<Rightarrow> Some (Inl err, s')
   | (Inr Break, s') \<Rightarrow> Some (Inr (), s')
   | (Inr (Continue vars'), s') \<Rightarrow> parseFuel n pf cfg cb vars' s')"

lemma parseFuel_enough:
  "length (input (fst s)) < n \<Longrightarrow> parseFuel n pf cfg cb vars s = Some (parseLoop pf cfg cb vars s)"
proof (induction n arbitrary: vars s)
  case (Suc n)
  obtain q s' where step: "parseStep pf cfg cb vars s = (q, s')" by (metis surj_pair)
  show ?case
  proof (cases "\<exists>vars'. q = Inr (Continue vars')")
    case True
    then obtain vars' where q: "q = Inr (Continue vars')" by blast
    with parseStep_progress [of pf cfg cb vars s "Continue vars'" s'] step Suc.prems
    have "length (input (fst s')) < n" by simp
    with Suc.IH [of s' vars'] step q parseLoop_Continue [of pf cfg cb vars s vars' s'] show ?thesis by simp
  next
    case False
    with step show ?thesis
      by (auto simp: parseLoop.simps [of pf cfg cb vars s] split: sum.split loop_next.split)
  qed
qed simp

subsection \<open>Properties\<close>

text \<open>
  C4: on any input, the callback is called on at most one object per byte, one after the
  other, and never again after it failed, panicked or asked to stop; every object it sees
  has a type and an encoding that belong to one type flag, and special objects are passed
  only if they were asked for.
\<close>

theorem callback_protocol:
  "\<exists>objs. protocol cb c objs (snd (snd (Parse pf cfg cb (d, c)))) \<and>
     list_all (delivered cfg) objs \<and> length objs \<le> length (input d)"
  using Parse_protocol [of pf cfg cb d c] by (metis prod.collapse)

text \<open>
  C5: the reader of an object returns the kind of object the type flag stands for, with the
  encoding name of the flag and the database, key and expiration it was given; a flag it
  does not know is an error.
\<close>

theorem readObject_typed:
  "case fst (readObject pf cfg flag base d) of
     Inl err \<Rightarrow> True
   | Inr obj \<Rightarrow> typedBy flag obj \<and> baseDB (baseOf obj) = baseDB base \<and> baseKey (baseOf obj) = baseKey base \<and>
       baseExpiration (baseOf obj) = baseExpiration base"
proof (cases "fst (readObject pf cfg flag base d)")
  case (Inr obj)
  then have "readObject pf cfg flag base d = (Inr obj, snd (readObject pf cfg flag base d))"
    by (metis prod.collapse)
  with readObject_gives [of flag base pf cfg] have "typedBy flag obj \<and> baseDB (baseOf obj) = baseDB base \<and>
      baseKey (baseOf obj) = baseKey base \<and> baseExpiration (baseOf obj) = baseExpiration base"
    unfolding gives_def by blast
  with Inr show ?thesis by simp
qed simp

text \<open>
  C13: a file whose first nine bytes are not a header of a supported version, of Redis (1
  to 12) or Valkey (80), is refused before the callback is called.
\<close>

theorem header_gate:
  assumes "\<not> header_ok bs"
  shows "\<exists>err d'. Parse pf cfg cb (newDecoder bs, c) = (Inl err, (d', c))"
  using checkHeader_refuses [OF assms]
  by (auto simp: Parse_def recovered_def bnd_def onDec_Pair split: go_error.split)

theorem header_gate_witness:
  "\<exists>err d'. Parse (\<lambda>_. None) \<lparr>withSpecialOpCode = True, withSpecialTypes = \<lambda>_. (None :: (int \<Rightarrow> nat handler) option)\<rparr>
     collect (newDecoder (strlit ''REDIS0013''), []) = (Inl err, (d', []))"
proof (rule header_gate)
  show "\<not> header_ok (strlit ''REDIS0013'')" by code_simp
qed

text \<open>
  C14: a file that breaks off between two calls, before the end opcode, has all its objects
  delivered and is then reported as incomplete.
\<close>

theorem cut_file_reported:
  assumes "list_all (call_ok pf ff e) ops"
  shows "\<exists>objs d. Parse pf cfg collect (newDecoder (rdbHeaderOf e @ concat (map (opBytes ff e) ops)), []) =
      (Inl EOF, (d, objs)) \<and> map viewOf objs = opsViews (withSpecialOpCode cfg) 0 ops"
  using assms by (rule Parse_cut)

theorem cut_file_reported_witness:
  "\<exists>objs d. Parse (\<lambda>_. None) \<lparr>withSpecialOpCode = True, withSpecialTypes = \<lambda>_. (None :: (int \<Rightarrow> nat handler) option)\<rparr>
     collect (newDecoder (strlit ''REDIS0011'' @ opCodeSelectDB # lengthBytes 3 @ opCodeResizeDB # lengthBytes 0 @ lengthBytes 0), []) =
     (Inl EOF, (d, objs)) \<and> map viewOf objs = [(3, [], None, SizeContent 0 0)]"
  using cut_file_reported [of "\<lambda>_. None" "\<lambda>_. []" "newEncoder (\<lambda>_ _. None)" "[OpDB 3 0 0]",
      where cfg = "\<lparr>withSpecialOpCode = True, withSpecialTypes = \<lambda>_. None\<rparr>"]
  by (simp add: call_ok_def rdbHeaderOf_def rdbHeaderRedis_def newEncoder_def)

text \<open>
  C15: a file that breaks off in front of the value of an auxiliary field is reported as
  complete: the loop is left, no error is returned.
\<close>

theorem cut_aux_accepted:
  assumes "list_all (call_ok pf ff e) ops" "string_ok (compress e) k"
  shows "\<exists>objs d. Parse pf cfg collect (newDecoder (rdbHeaderOf e @ concat (map (opBytes ff e) ops) @
      opCodeAux # stringBytes (compress e) k), []) = (Inr (), (d, objs)) \<and>
    map viewOf objs = opsViews (withSpecialOpCode cfg) 0 ops"
  using assms by (rule Parse_cut_aux)

theorem cut_aux_accepted_witness:
  "\<exists>objs d. Parse (\<lambda>_. None) \<lparr>withSpecialOpCode = True, withSpecialTypes = \<lambda>_. (None :: (int \<Rightarrow> nat handler) option)\<rparr>
     collect (newDecoder (strlit ''REDIS0011'' @ opCodeAux # stringBytes False (strlit ''redis-ver'')), []) =
     (Inr (), (d, objs)) \<and> map viewOf objs = []"
  using cut_aux_accepted [of "\<lambda>_. None" "\<lambda>_. []" "newEncoder (\<lambda>_ _. None)" "[]" "strlit ''redis-ver''",
      where cfg = "\<lparr>withSpecialOpCode = True, withSpecialTypes = \<lambda>_. None\<rparr>"]
  by (simp add: string_ok_def maxAlloc_def strlit_def rdbHeaderOf_def rdbHeaderRedis_def newEncoder_def)

text \<open>
  C12: the parse loop ends after at most one turn per byte of input and one more: run with
  that much fuel it returns, whatever the input, the handlers and the callback.
\<close>

theorem parse_terminates:
  assumes "length (input (fst s)) < n"
  shows "parseFuel n pf cfg cb vars s = Some (parseLoop pf cfg cb vars s)"
  using assms by (rule parseFuel_enough)

theorem parse_terminates_witness:
  "parseFuel 4 (\<lambda>_. None) \<lparr>withSpecialOpCode = True, withSpecialTypes = \<lambda>_. (None :: (int \<Rightarrow> nat handler) option)\<rparr>
     collect initVars (newDecoder [opCodeSelectDB, 1, opCodeEOF], []) =
   Some (parseLoop (\<lambda>_. None) \<lparr>withSpecialOpCode = True, withSpecialTypes = \<lambda>_. None\<rparr>
     collect initVars (newDecoder [opCodeSelectDB, 1, opCodeEOF], []))"
  by (rule parse_terminates) (simp add: newDecoder_def)

end
