(* ===== verification/ByteFmt.thy ===== *)
theory ByteFmt
  imports Strconv
begin

section \<open>Sizes as text (bytefmt/bytefmt.go)\<close>

text \<open>
  The two conversions between a number of bytes and its human-readable form.  Floating
  point is exact where the code is: \<open>floatOf\<close> rounds a \<^verbatim>\<open>uint64\<close> to the 53 bits of a
  \<^verbatim>\<open>float64\<close>, division by a power of two is exact, and \<^verbatim>\<open>FormatFloat(_, 'f', 1, 64)\<close>
  rounds the decimal expansion to the nearest tenth, ties to even.  \<^verbatim>\<open>ParseFloat\<close> is the
  parameter \<open>pf\<close>; the text is ASCII, as on a command line.
\<close>

definition sizeByte :: nat where "sizeByte = 2 ^ 0"
definition sizeKilo :: nat where "sizeKilo = 2 ^ 10"
definition sizeMega :: nat where "sizeMega = 2 ^ 20"
definition sizeGiga :: nat where "sizeGiga = 2 ^ 30"
definition sizeTera :: nat where "sizeTera = 2 ^ 40"
definition sizePeta :: nat where "sizePeta = 2 ^ 50"
definition sizeExa :: nat where "sizeExa = 2 ^ 60"

lemmas size_units =
  sizeByte_def sizeKilo_def sizeMega_def sizeGiga_def sizeTera_def sizePeta_def sizeExa_def

subsection \<open>Formatting\<close>

definition roundHalfEven :: "nat \<Rightarrow> nat \<Rightarrow> nat" where
  "roundHalfEven n d =
     (let q = n div d; r = n mod d
      in if 2 * r < d then q else if d < 2 * r then q + 1 else if even q then q else q + 1)"

fun bitLen :: "nat \<Rightarrow> nat" where
  "bitLen n = (if n = 0 then 0 else Suc (bitLen (n div 2)))"

declare bitLen.simps [simp del]

definition floatOf :: "nat \<Rightarrow> nat" where
  "floatOf n = (let k = bitLen n - 53 in roundHalfEven n (2 ^ k) * 2 ^ k)"

definition trimSuffix :: "bytes \<Rightarrow> bytes \<Rightarrow> bytes" where
  "trimSuffix suf s =
     (if length suf \<le> length s \<and> drop (length s - length suf) s = suf
      then take (length s - length suf) s else s)"

definition formatTenths :: "nat \<Rightarrow> bytes" where
  "formatTenths t = digits (t div 10) @ [46, of_nat (48 + t mod 10)]"

definition sizeUnit :: "nat \<Rightarrow> bytes \<times> nat" where
  "sizeUnit n =
     (if sizeExa \<le> n then (strlit ''E'', sizeExa)
      else if sizePeta \<le> n then (strlit ''P'', sizePeta)
      else if sizeTera \<le> n then (strlit ''T'', sizeTera)
      else if sizeGiga \<le> n then (strlit ''G'', sizeGiga)
      else if sizeMega \<le> n then (strlit ''M'', sizeMega)
      else if sizeKilo \<le> n then (strlit ''K'', sizeKilo)
      else (strlit ''B'', sizeByte))"

definition FormatSize :: "u64 \<Rightarrow> bytes" where
  "FormatSize b =
     (let n = unat b in
      if n = 0 then strlit ''0''
      else case sizeUnit n of (unit, d) \<Rightarrow>
        trimSuffix (strlit ''.0'') (formatTenths (roundHalfEven (floatOf n * 10) d)) @ unit)"

subsection \<open>Parsing\<close>

text \<open>The finite \<^verbatim>\<open>float64\<close> with the given bits: its mantissa, exponent and sign.\<close>

definition f64_expBits :: "u64 \<Rightarrow> nat" where
  "f64_expBits f = unat f div 2 ^ 52 mod 2 ^ 11"

definition f64_mantissa :: "u64 \<Rightarrow> nat" where
  "f64_mantissa f = (if f64_expBits f = 0 then 0 else 2 ^ 52) + unat f mod 2 ^ 52"

definition f64_exponent :: "u64 \<Rightarrow> int" where
  "f64_exponent f = (if f64_expBits f = 0 then - 1074 else int (f64_expBits f) - 1075)"

definition f64_negative :: "u64 \<Rightarrow> bool" where
  "f64_negative f \<longleftrightarrow> 2 ^ 63 \<le> unat f \<and> f64_mantissa f \<noteq> 0"

text \<open>
  \<^verbatim>\<open>uint64(f * 2^k)\<close> for \<open>f\<close> not negative; the conversion of a value outside the range is up
  to the machine, the parameter \<open>outside\<close>.
\<close>

definition f64_toUint64 :: "u64 \<Rightarrow> u64 \<Rightarrow> nat \<Rightarrow> u64" where
  "f64_toUint64 outside f k =
     (let m = f64_mantissa f; e = f64_exponent f + int k;
          v = (if 0 \<le> e then m * 2 ^ nat e else m div 2 ^ nat (- e))
      in if v < 2 ^ 64 then of_nat v else outside)"

definition isSpace :: "byte \<Rightarrow> bool" where
  "isSpace c \<longleftrightarrow> c = 32 \<or> (9 \<le> c \<and> c \<le> 13)"

definition trimSpace :: "bytes \<Rightarrow> bytes" where
  "trimSpace s = rev (dropWhile isSpace (rev (dropWhile isSpace s)))"

definition upperByte :: "byte \<Rightarrow> byte" where
  "upperByte c = (if 97 \<le> c \<and> c \<le> 122 then c - 32 else c)"

definition isLetter :: "byte \<Rightarrow> bool" where
  "isLetter c \<longleftrightarrow> 65 \<le> c \<and> c \<le> 90 \<or> 97 \<le> c \<and> c \<le> 122"

definition unitShift :: "bytes \<Rightarrow> nat option" where
  "unitShift multiple =
     (if multiple \<in> {strlit ''E'', strlit ''EB'', strlit ''EIB''} then Some 60
      else if multiple \<in> {strlit ''P'', strlit ''PB'', strlit ''PIB''} then Some 50
      else if multiple \<in> {strlit ''T'', strlit ''TB'', strlit ''TIB''} then Some 40
      else if multiple \<in> {strlit ''G'', strlit ''GB'', strlit ''GIB''} then Some 30
      else if multiple \<in> {strlit ''M'', strlit ''MB'', strlit ''MIB''} then Some 20
      else if multiple \<in> {strlit ''K'', strlit ''KB'', strlit ''KIB''} then Some 10
      else if multiple = strlit ''B'' then Some 0
      else None)"

definition ParseSize :: "(bytes \<Rightarrow> u64 option) \<Rightarrow> u64 \<Rightarrow> bytes \<Rightarrow> u64 res" where
  "ParseSize pf outside s0 =
     (let s = map upperByte (trimSpace s0);
          number = takeWhile (\<lambda>c. \<not> isLetter c) s;
          multiple = dropWhile (\<lambda>c. \<not> isLetter c) s;
          invalid = Inl (Msg ''byte quantity must be a positive integer with a unit of measurement like M, MB, MiB, G, GiB, or GB'')
      in case pf number of
           None \<Rightarrow> invalid
         | Some f \<Rightarrow>
             if f64_negative f then invalid
             else if multiple = [] then Inr (f64_toUint64 outside f 0)
             else (case unitShift multiple of
                 None \<Rightarrow> invalid
               | Some k \<Rightarrow> Inr (f64_toUint64 outside f k)))"

subsection \<open>How close the text is\<close>

lemma roundHalfEven_close:
  assumes "0 < d"
  shows "\<bar>int n - int (roundHalfEven n d) * int d\<bar> * 2 \<le> int d"
proof -
  have n: "int n = int (n div d) * int d + int (n mod d)"
    by (metis div_mult_mod_eq of_nat_add of_nat_mult)
  have r: "n mod d < d" using assms by simp
  define q where "q = int (n div d)"
  define t where "t = int (n mod d)"
  have "int n = q * int d + t" "t < int d" "0 \<le> t" using n r by (simp_all add: q_def t_def)
  then show ?thesis
    by (auto simp: roundHalfEven_def Let_def q_def [symmetric] algebra_simps) (auto simp: t_def)
qed

lemma roundHalfEven_1 [simp]: "roundHalfEven n 1 = n" "roundHalfEven n (Suc 0) = n"
  by (simp_all add: roundHalfEven_def)

lemma bitLen_le: "n < 2 ^ k \<Longrightarrow> bitLen n \<le> k"
proof (induction k arbitrary: n)
  case (Suc k)
  then have "n div 2 < 2 ^ k" by auto
  from Suc.IH [OF this] show ?case by (simp add: bitLen.simps [of n])
qed (simp add: bitLen.simps)

lemma floatOf_exact: "n < 2 ^ 53 \<Longrightarrow> floatOf n = n"
  using bitLen_le [of n 53] by (simp add: floatOf_def)

lemma trim_tenths:
  "trimSuffix (strlit ''.0'') (formatTenths t) =
     (if t mod 10 = 0 then digits (t div 10) else formatTenths t)"
proof -
  have "(of_nat (48 + t mod 10) = (48 :: byte)) \<longleftrightarrow> t mod 10 = 0"
  proof -
    have "unat (of_nat (48 + t mod 10) :: byte) = 48 + t mod 10" by (rule unat_of_digit) simp
    then show ?thesis by (metis add_cancel_right_right add_eq_self_zero of_nat_numeral unat_of_digit zero_less_numeral)
  qed
  then show ?thesis by (simp add: trimSuffix_def formatTenths_def strlit_def)
qed

lemma sizeUnit_spec:
  assumes "sizeUnit n = (u, d)" "0 < n"
  shows "d \<le> n" "0 < d" "n < 2 ^ 60 \<Longrightarrow> n < 1024 * d"
  using assms by (auto simp: sizeUnit_def size_units split: if_splits)

subsection \<open>Properties\<close>

text \<open>
  C33: the text of a size names the largest unit that fits, and its decimal is within half
  a tenth of that unit of the true size, for every size a float64 holds exactly.
\<close>

theorem format_size_close:
  assumes "0 < unat b" "unat b < 2 ^ 53"
  shows "\<exists>u d t. sizeUnit (unat b) = (u, d) \<and> d \<le> unat b \<and> unat b < 1024 * d \<and>
    FormatSize b = (if t mod 10 = 0 then digits (t div 10) else formatTenths t) @ u \<and>
    \<bar>10 * int (unat b) - int t * int d\<bar> * 2 \<le> int d"
proof -
  obtain u d where ud: "sizeUnit (unat b) = (u, d)" by (metis surj_pair)
  note spec = sizeUnit_spec [OF ud assms(1)]
  let ?t = "roundHalfEven (unat b * 10) d"
  have "FormatSize b = (if ?t mod 10 = 0 then digits (?t div 10) else formatTenths ?t) @ u"
    using assms ud by (simp add: FormatSize_def Let_def floatOf_exact trim_tenths)
  moreover have "\<bar>10 * int (unat b) - int ?t * int d\<bar> * 2 \<le> int d"
    using roundHalfEven_close [OF spec(2), of "unat b * 10"] by (simp add: mult.commute)
  ultimately show ?thesis using ud spec(1) spec(3) assms(2) by (intro exI [of _ u] exI [of _ d] exI [of _ ?t]) simp
qed

theorem format_size_close_witness:
  "FormatSize 1536 = strlit ''1.5K'' \<and> (\<exists>u d t. sizeUnit 1536 = (u, d) \<and> d \<le> 1536 \<and> 1536 < 1024 * d \<and>
    FormatSize 1536 = (if t mod 10 = 0 then digits (t div 10) else formatTenths t) @ u \<and>
    \<bar>10 * 1536 - int t * int d\<bar> * 2 \<le> int d)"
proof
  show "FormatSize 1536 = strlit ''1.5K''"
    by (simp add: FormatSize_def sizeUnit_def size_units floatOf_exact roundHalfEven_def formatTenths_def
        digits.simps trimSuffix_def strlit_def Let_def)
  show "\<exists>u d t. sizeUnit 1536 = (u, d) \<and> d \<le> 1536 \<and> 1536 < 1024 * d \<and>
    FormatSize 1536 = (if t mod 10 = 0 then digits (t div 10) else formatTenths t) @ u \<and>
    \<bar>10 * 1536 - int t * int d\<bar> * 2 \<le> int d"
    using format_size_close [of 1536] by simp
qed

end
