(* ===== verification/Filters.thy ===== *)
theory Filters
  imports ParseLaws ByteFmt
begin

section \<open>Filters around the decoder (helper/regex.go)\<close>

text \<open>
  The decoders the helpers stack on each other: each calls the \<^verbatim>\<open>Parse\<close> of the one below
  with a callback that passes an object on or skips it.  A decoder is its \<^verbatim>\<open>Parse\<close> method,
  a \<open>parser\<close>.  What comes from outside is the record \<open>helper_env\<close>: \<^verbatim>\<open>regexp.Compile\<close>, the
  clock, \<^verbatim>\<open>ParseFloat\<close> and the machine's conversion of a float out of range.
\<close>

type_synonym ('o, 'c) parser = "('o \<Rightarrow> ('c, bool) gom) \<Rightarrow> ('c pstate, unit) gom"

record helper_env =
  compileRegex :: "bytes \<Rightarrow> (bytes \<Rightarrow> bool) option"
  nowNanos :: int
  nowSeconds :: int
  envParseFloat :: "bytes \<Rightarrow> u64 option"
  envOutside :: u64

definition maxInt64 :: int where "maxInt64 = 2 ^ 63 - 1"

subsection \<open>The wrappers\<close>

definition regexParse :: "(bytes \<Rightarrow> bool) \<Rightarrow> ('v redis_object, 'c) parser \<Rightarrow> ('v redis_object, 'c) parser" where
  "regexParse matches dec cb = dec (\<lambda>obj. if matches (GetKey obj) then cb obj else ret True)"

definition regexWrapper ::
  "helper_env \<Rightarrow> ('v redis_object, 'c) parser \<Rightarrow> bytes \<Rightarrow> ('v redis_object, 'c) parser res"
where
  "regexWrapper env dec expr = (case compileRegex env expr of
     None \<Rightarrow> Inl (Msg ''illegal regex expression'')
   | Some reg \<Rightarrow> Inr (regexParse reg dec))"

definition noExpiredParse :: "int \<Rightarrow> ('v redis_object, 'c) parser \<Rightarrow> ('v redis_object, 'c) parser" where
  "noExpiredParse now dec cb = dec (\<lambda>obj. case GetExpiration obj of
     None \<Rightarrow> cb obj
   | Some t \<Rightarrow> if now < t then cb obj else ret True)"

definition expirationParse :: "int \<times> int \<Rightarrow> ('v redis_object, 'c) parser \<Rightarrow> ('v redis_object, 'c) parser" where
  "expirationParse rng dec cb = dec (\<lambda>obj. case GetExpiration obj of
     None \<Rightarrow> ret True
   | Some t \<Rightarrow>
       let timestamp = t div 10 ^ 9
       in if fst rng \<le> timestamp \<and> timestamp \<le> snd rng then cb obj else ret True)"

definition sizeParse :: "int \<times> int \<Rightarrow> ('v redis_object, 'c) parser \<Rightarrow> ('v redis_object, 'c) parser" where
  "sizeParse rng dec cb = dec (\<lambda>obj.
     if fst rng \<le> GetSize obj \<and> GetSize obj \<le> snd rng then cb obj else ret True)"

definition noExpirationParse :: "('v redis_object, 'c) parser \<Rightarrow> ('v redis_object, 'c) parser" where
  "noExpirationParse dec cb = dec (\<lambda>obj. case GetExpiration obj of
     None \<Rightarrow> cb obj
   | Some t \<Rightarrow> ret True)"

subsection \<open>Range expressions\<close>

text \<open>\<^verbatim>\<open>strings.Index\<close> and \<^verbatim>\<open>strings.SplitN\<close> with a separator that is not empty.\<close>

fun indexOf :: "bytes \<Rightarrow> bytes \<Rightarrow> nat option" where
  "indexOf sep s =
     (if take (length sep) s = sep then Some 0
      else case s of [] \<Rightarrow> None | _ # t \<Rightarrow> map_option Suc (indexOf sep t))"

declare indexOf.simps [simp del]

fun splitLoop :: "nat \<Rightarrow> bytes \<Rightarrow> bytes \<Rightarrow> bytes list" where
  "splitLoop 0 sep s = [s]"
| "splitLoop (Suc n) sep s = (case indexOf sep s of
     None \<Rightarrow> [s]
   | Some m \<Rightarrow> take m s # splitLoop n sep (drop (m + length sep) s))"

text \<open>\<^verbatim>\<open>strings.Split\<close>: a separator occurs at most once per byte.\<close>

definition splitAll :: "bytes \<Rightarrow> bytes \<Rightarrow> bytes list" where
  "splitAll sep s = splitLoop (length s) sep s"

definition expireValue :: "helper_env \<Rightarrow> bytes \<Rightarrow> int option" where
  "expireValue env s =
     (if s = strlit ''now'' then Some (nowSeconds env)
      else if s = strlit ''inf'' then Some maxInt64
      else parseInt 64 s)"

definition parseExpireExpr :: "helper_env \<Rightarrow> bytes \<Rightarrow> (int \<times> int) res" where
  "parseExpireExpr env s = (case splitAll (strlit ''~'') s of
     [a, b] \<Rightarrow>
       (case expireValue env a of
          None \<Rightarrow> Inl (Msg ''illegal range begin'')
        | Some lo \<Rightarrow> (case expireValue env b of
              None \<Rightarrow> Inl (Msg ''illegal range end'')
            | Some hi \<Rightarrow> Inr (lo, hi)))
   | _ \<Rightarrow> Inl (Msg ''illegal expr, should be timestamp1~timestamp2''))"

definition sizeValue :: "helper_env \<Rightarrow> bytes \<Rightarrow> int option" where
  "sizeValue env s =
     (if s = strlit ''inf'' then Some maxInt64
      else case ParseSize (envParseFloat env) (envOutside env) s of
          Inl err \<Rightarrow> None
        | Inr val \<Rightarrow> if maxInt64 < uint val then Some maxInt64 else Some (uint val))"

definition parseSizeExpr :: "helper_env \<Rightarrow> bytes \<Rightarrow> (int \<times> int) res" where
  "parseSizeExpr env s = (case splitAll (strlit ''~'') s of
     [a, b] \<Rightarrow>
       (case sizeValue env a of
          None \<Rightarrow> Inl (Msg ''illegal range begin'')
        | Some lo \<Rightarrow> (case sizeValue env b of
              None \<Rightarrow> Inl (Msg ''illegal range end'')
            | Some hi \<Rightarrow> Inr (lo, hi)))
   | _ \<Rightarrow> Inl (Msg ''illegal expr, should be size1~size2''))"

subsection \<open>Options\<close>

datatype helper_option =
    RegexOption "bytes option"
  | NoExpiredOption bool
  | ExpirationOption bytes
  | SizeOption bytes
  | GlobalMetaOption bool
  | LexOrder
  | ConcurrentOption int
  | OtherHelperOption

definition WithRegexOption :: "bytes \<Rightarrow> helper_option" where
  "WithRegexOption expr = RegexOption (Some expr)"

definition WithNoExpiredOption :: helper_option where
  "WithNoExpiredOption = NoExpiredOption True"

definition WithExpirationOption :: "bytes \<Rightarrow> helper_option" where
  "WithExpirationOption expr = ExpirationOption expr"

definition WithSizeOption :: "bytes \<Rightarrow> helper_option" where
  "WithSizeOption expr = SizeOption expr"

definition WithGlobalMeta :: helper_option where
  "WithGlobalMeta = GlobalMetaOption True"

record helper_settings =
  regexOpt :: "bytes option"
  noExpiredOpt :: bool
  expirationOpt :: bytes
  sizeOpt :: bytes
  globalMetaOpt :: bool

fun setOption :: "helper_option \<Rightarrow> helper_settings \<Rightarrow> helper_settings" where
  "setOption (RegexOption r) st = st\<lparr>regexOpt := r\<rparr>"
| "setOption (NoExpiredOption b) st = st\<lparr>noExpiredOpt := b\<rparr>"
| "setOption (ExpirationOption s) st = st\<lparr>expirationOpt := s\<rparr>"
| "setOption (SizeOption s) st = st\<lparr>sizeOpt := s\<rparr>"
| "setOption (GlobalMetaOption b) st = st\<lparr>globalMetaOpt := b\<rparr>"
| "setOption _ st = st"

definition settingsOf :: "helper_option list \<Rightarrow> helper_settings" where
  "settingsOf options = fold setOption options \<lparr>regexOpt = None, noExpiredOpt = False,
     expirationOpt = [], sizeOpt = [], globalMetaOpt = False\<rparr>"

text \<open>
  The decoder that is wrapped is a core decoder; its argument says whether
  \<^verbatim>\<open>WithSpecialOpCode\<close> has been called on it.
\<close>

definition wrapRegex ::
  "helper_env \<Rightarrow> helper_settings \<Rightarrow> ('v redis_object, 'c) parser \<Rightarrow> ('v redis_object, 'c) parser res"
where
  "wrapRegex env st dec = (case regexOpt st of None \<Rightarrow> Inr dec | Some expr \<Rightarrow> regexWrapper env dec expr)"

definition wrapExpiration ::
  "helper_env \<Rightarrow> helper_settings \<Rightarrow> ('v redis_object, 'c) parser \<Rightarrow> ('v redis_object, 'c) parser res"
where
  "wrapExpiration env st dec =
     (if expirationOpt st = [] then Inr dec
      else if expirationOpt st = strlit ''noexpire'' then Inr (noExpirationParse dec)
      else if expirationOpt st = strlit ''anyexpire'' then Inr (expirationParse (0, maxInt64) dec)
      else case parseExpireExpr env (expirationOpt st) of
          Inl err \<Rightarrow> Inl err | Inr rng \<Rightarrow> Inr (expirationParse rng dec))"

definition wrapSize ::
  "helper_env \<Rightarrow> helper_settings \<Rightarrow> ('v redis_object, 'c) parser \<Rightarrow> ('v redis_object, 'c) parser res"
where
  "wrapSize env st dec =
     (if sizeOpt st = [] then Inr dec
      else case parseSizeExpr env (sizeOpt st) of
          Inl err \<Rightarrow> Inl err | Inr rng \<Rightarrow> Inr (sizeParse rng dec))"

definition wrapDecoder ::
  "helper_env \<Rightarrow> (bool \<Rightarrow> ('v redis_object, 'c) parser) \<Rightarrow> helper_option list \<Rightarrow> ('v redis_object, 'c) parser res"
where
  "wrapDecoder env base options =
     (let st = settingsOf options in
      case wrapRegex env st (base (globalMetaOpt st)) of
        Inl err \<Rightarrow> Inl err
      | Inr dec \<Rightarrow>
          (case wrapExpiration env st (if noExpiredOpt st then noExpiredParse (nowNanos env) dec else dec) of
             Inl err \<Rightarrow> Inl err
           | Inr dec \<Rightarrow> wrapSize env st dec))"

subsection \<open>One filter for all\<close>

text \<open>The objects a setting lets through.\<close>

definition passesRegex :: "helper_env \<Rightarrow> helper_settings \<Rightarrow> 'v redis_object \<Rightarrow> bool" where
  "passesRegex env st obj = (case regexOpt st of None \<Rightarrow> True
     | Some expr \<Rightarrow> (case compileRegex env expr of None \<Rightarrow> False | Some matches \<Rightarrow> matches (GetKey obj)))"

definition passesExpired :: "helper_env \<Rightarrow> helper_settings \<Rightarrow> 'v redis_object \<Rightarrow> bool" where
  "passesExpired env st obj \<longleftrightarrow> (noExpiredOpt st \<longrightarrow>
     (case GetExpiration obj of None \<Rightarrow> True | Some t \<Rightarrow> nowNanos env < t))"

definition inRange :: "int \<times> int \<Rightarrow> int \<Rightarrow> bool" where
  "inRange rng x \<longleftrightarrow> fst rng \<le> x \<and> x \<le> snd rng"

definition passesExpiration :: "helper_env \<Rightarrow> helper_settings \<Rightarrow> 'v redis_object \<Rightarrow> bool" where
  "passesExpiration env st obj =
     (if expirationOpt st = [] then True
      else if expirationOpt st = strlit ''noexpire'' then GetExpiration obj = None
      else case GetExpiration obj of None \<Rightarrow> False | Some t \<Rightarrow>
        (if expirationOpt st = strlit ''anyexpire'' then inRange (0, maxInt64) (t div 10 ^ 9)
         else case parseExpireExpr env (expirationOpt st) of
             Inl err \<Rightarrow> False | Inr rng \<Rightarrow> inRange rng (t div 10 ^ 9)))"

definition passesSize :: "helper_env \<Rightarrow> helper_settings \<Rightarrow> 'v redis_object \<Rightarrow> bool" where
  "passesSize env st obj =
     (if sizeOpt st = [] then True
      else case parseSizeExpr env (sizeOpt st) of Inl err \<Rightarrow> False | Inr rng \<Rightarrow> inRange rng (GetSize obj))"

definition passes :: "helper_env \<Rightarrow> helper_settings \<Rightarrow> 'v redis_object \<Rightarrow> bool" where
  "passes env st obj \<longleftrightarrow> passesRegex env st obj \<and> passesExpired env st obj \<and>
     passesExpiration env st obj \<and> passesSize env st obj"

definition onlyIf :: "('o \<Rightarrow> bool) \<Rightarrow> ('o \<Rightarrow> ('c, bool) gom) \<Rightarrow> 'o \<Rightarrow> ('c, bool) gom" where
  "onlyIf P cb obj = (if P obj then cb obj else ret True)"

lemma onlyIf_True [simp]: "onlyIf (\<lambda>_. True) cb = cb"
  by (simp add: onlyIf_def fun_eq_iff)

lemma onlyIf_onlyIf: "onlyIf P (onlyIf Q cb) = onlyIf (\<lambda>obj. P obj \<and> Q obj) cb"
  by (auto simp: onlyIf_def fun_eq_iff)

lemma filters_onlyIf:
  "regexParse matches dec cb = dec (onlyIf (\<lambda>obj. matches (GetKey obj)) cb)"
  "noExpiredParse now dec cb = dec (onlyIf (\<lambda>obj. case GetExpiration obj of None \<Rightarrow> True | Some t \<Rightarrow> now < t) cb)"
  "expirationParse rng dec cb = dec (onlyIf (\<lambda>obj. case GetExpiration obj of None \<Rightarrow> False
     | Some t \<Rightarrow> inRange rng (t div 10 ^ 9)) cb)"
  "sizeParse rng dec cb = dec (onlyIf (\<lambda>obj. inRange rng (GetSize obj)) cb)"
  "noExpirationParse dec cb = dec (onlyIf (\<lambda>obj. GetExpiration obj = None) cb)"
proof -
  have "(\<lambda>obj. case GetExpiration obj of None \<Rightarrow> cb obj | Some t \<Rightarrow> if now < t then cb obj else ret True) =
      onlyIf (\<lambda>obj. case GetExpiration obj of None \<Rightarrow> True | Some t \<Rightarrow> now < t) cb"
    by (rule ext) (simp add: onlyIf_def split: option.split)
  then show "noExpiredParse now dec cb = dec (onlyIf (\<lambda>obj. case GetExpiration obj of None \<Rightarrow> True | Some t \<Rightarrow> now < t) cb)"
    by (simp add: noExpiredParse_def)
  have "(\<lambda>obj. case GetExpiration obj of None \<Rightarrow> ret True | Some t \<Rightarrow>
        let timestamp = t div 10 ^ 9
        in if fst rng \<le> timestamp \<and> timestamp \<le> snd rng then cb obj else ret True) =
      onlyIf (\<lambda>obj. case GetExpiration obj of None \<Rightarrow> False | Some t \<Rightarrow> inRange rng (t div 10 ^ 9)) cb"
    by (rule ext) (simp add: onlyIf_def inRange_def Let_def split: option.split)
  then show "expirationParse rng dec cb = dec (onlyIf (\<lambda>obj. case GetExpiration obj of None \<Rightarrow> False
     | Some t \<Rightarrow> inRange rng (t div 10 ^ 9)) cb)"
    by (simp add: expirationParse_def)
  have "(\<lambda>obj. case GetExpiration obj of None \<Rightarrow> cb obj | Some t \<Rightarrow> ret True) =
      onlyIf (\<lambda>obj. GetExpiration obj = None) cb"
    by (rule ext) (simp add: onlyIf_def split: option.split)
  then show "noExpirationParse dec cb = dec (onlyIf (\<lambda>obj. GetExpiration obj = None) cb)"
    by (simp add: noExpirationParse_def)
qed (simp_all add: regexParse_def sizeParse_def onlyIf_def [abs_def] inRange_def)

lemma wrapRegex_onlyIf:
  fixes dec :: "('v redis_object, 'c) parser"
  assumes "wrapRegex env st dec = Inr dec'"
  shows "dec' cb = dec (onlyIf (passesRegex env st) cb)"
proof (cases "regexOpt st")
  case None
  then have "passesRegex env st = (\<lambda>obj :: 'v redis_object. True)" by (simp add: passesRegex_def fun_eq_iff)
  with None assms show ?thesis by (simp add: wrapRegex_def)
next
  case (Some expr)
  with assms obtain m where m: "compileRegex env expr = Some m" "dec' = regexParse m dec"
    by (auto simp: wrapRegex_def regexWrapper_def split: option.splits)
  with Some have "passesRegex env st = (\<lambda>obj :: 'v redis_object. m (GetKey obj))" by (simp add: passesRegex_def fun_eq_iff)
  with m show ?thesis by (simp add: filters_onlyIf)
qed

lemma noExpired_onlyIf:
  fixes dec :: "('v redis_object, 'c) parser"
  shows "(if noExpiredOpt st then noExpiredParse (nowNanos env) dec else dec) cb =
     dec (onlyIf (passesExpired env st) cb)"
proof (cases "noExpiredOpt st")
  case True
  then have "passesExpired env st = (\<lambda>obj :: 'v redis_object. case GetExpiration obj of None \<Rightarrow> True | Some t \<Rightarrow> nowNanos env < t)"
    by (simp add: passesExpired_def fun_eq_iff)
  with True show ?thesis by (simp add: filters_onlyIf)
next
  case False
  then have "passesExpired env st = (\<lambda>obj :: 'v redis_object. True)" by (simp add: passesExpired_def fun_eq_iff)
  with False show ?thesis by simp
qed

lemma wrapExpiration_onlyIf:
  fixes dec :: "('v redis_object, 'c) parser"
  assumes "wrapExpiration env st dec = Inr dec'"
  shows "dec' cb = dec (onlyIf (passesExpiration env st) cb)"
proof -
  consider (none) "expirationOpt st = []" | (noexp) "expirationOpt st = strlit ''noexpire''"
    | (any) "expirationOpt st = strlit ''anyexpire''"
    | (rng) r where "expirationOpt st \<noteq> []" "expirationOpt st \<noteq> strlit ''noexpire''"
        "expirationOpt st \<noteq> strlit ''anyexpire''" "parseExpireExpr env (expirationOpt st) = Inr r"
    using assms by (auto simp: wrapExpiration_def split: if_splits sum.splits)
  then show ?thesis
  proof cases
    case none
    then have "passesExpiration env st = (\<lambda>obj :: 'v redis_object. True)" by (simp add: passesExpiration_def fun_eq_iff)
    with none assms show ?thesis by (simp add: wrapExpiration_def)
  next
    case noexp
    then have "passesExpiration env st = (\<lambda>obj :: 'v redis_object. GetExpiration obj = None)"
      by (simp add: passesExpiration_def fun_eq_iff strlit_def)
    with noexp assms show ?thesis by (auto simp: wrapExpiration_def filters_onlyIf strlit_def)
  next
    case any
    have ne: "strlit ''anyexpire'' \<noteq> []" "strlit ''anyexpire'' \<noteq> strlit ''noexpire''" by (simp_all add: strlit_def)
    then have "passesExpiration env st = (\<lambda>obj :: 'v redis_object. case GetExpiration obj of None \<Rightarrow> False
        | Some t \<Rightarrow> inRange (0, maxInt64) (t div 10 ^ 9))"
      by (simp add: passesExpiration_def fun_eq_iff any split: option.split)
    with any ne assms show ?thesis by (auto simp: wrapExpiration_def filters_onlyIf)
  next
    case (rng r)
    then have "passesExpiration env st = (\<lambda>obj :: 'v redis_object. case GetExpiration obj of None \<Rightarrow> False
        | Some t \<Rightarrow> inRange r (t div 10 ^ 9))"
      by (simp add: passesExpiration_def fun_eq_iff split: option.split)
    moreover have "dec' = expirationParse r dec" using rng assms by (simp add: wrapExpiration_def)
    ultimately show ?thesis by (simp only: filters_onlyIf)
  qed
qed

lemma wrapSize_onlyIf:
  fixes dec :: "('v redis_object, 'c) parser"
  assumes "wrapSize env st dec = Inr dec'"
  shows "dec' cb = dec (onlyIf (passesSize env st) cb)"
proof (cases "sizeOpt st = []")
  case True
  then have "passesSize env st = (\<lambda>obj :: 'v redis_object. True)" by (simp add: passesSize_def fun_eq_iff)
  with True assms show ?thesis by (simp add: wrapSize_def)
next
  case False
  with assms obtain r where r: "parseSizeExpr env (sizeOpt st) = Inr r" "dec' = sizeParse r dec"
    by (auto simp: wrapSize_def split: sum.splits)
  with False have "passesSize env st = (\<lambda>obj :: 'v redis_object. inRange r (GetSize obj))" by (simp add: passesSize_def fun_eq_iff)
  with r show ?thesis by (simp only: filters_onlyIf)
qed

lemma wrapDecoder_onlyIf:
  assumes "wrapDecoder env base options = Inr dec"
  shows "dec cb = base (globalMetaOpt (settingsOf options)) (onlyIf (passes env (settingsOf options)) cb)"
proof -
  let ?st = "settingsOf options"
  obtain dec1 where d1: "wrapRegex env ?st (base (globalMetaOpt ?st)) = Inr dec1"
    using assms by (auto simp: wrapDecoder_def Let_def split: sum.splits)
  let ?dec2 = "if noExpiredOpt ?st then noExpiredParse (nowNanos env) dec1 else dec1"
  obtain dec3 where d3: "wrapExpiration env ?st ?dec2 = Inr dec3"
    using assms d1 by (auto simp: wrapDecoder_def Let_def split: sum.splits)
  have "wrapSize env ?st dec3 = Inr dec" using assms d1 d3 by (simp add: wrapDecoder_def Let_def)
  then have "dec cb = dec3 (onlyIf (passesSize env ?st) cb)" by (rule wrapSize_onlyIf)
  also have "\<dots> = ?dec2 (onlyIf (passesExpiration env ?st) (onlyIf (passesSize env ?st) cb))"
    by (rule wrapExpiration_onlyIf [OF d3])
  also have "\<dots> = dec1 (onlyIf (passesExpired env ?st) (onlyIf (passesExpiration env ?st) (onlyIf (passesSize env ?st) cb)))"
    by (rule noExpired_onlyIf)
  also have "\<dots> = base (globalMetaOpt ?st) (onlyIf (passesRegex env ?st) (onlyIf (passesExpired env ?st)
      (onlyIf (passesExpiration env ?st) (onlyIf (passesSize env ?st) cb))))"
    by (rule wrapRegex_onlyIf [OF d1])
  finally show ?thesis by (simp add: onlyIf_onlyIf passes_def [abs_def])
qed

subsection \<open>Filtering a run\<close>

text \<open>
  Two runs of the loop whose callbacks agree up to an abstraction \<open>h\<close> of their states, as
  long as the first one's state satisfies \<open>g\<close>, which once lost is never regained.
\<close>

definition simulates :: "('c \<Rightarrow> bool) \<Rightarrow> ('c \<Rightarrow> 'd) \<Rightarrow> ('c pstate, 'a) gom \<Rightarrow> ('d pstate, 'a) gom \<Rightarrow> bool" where
  "simulates g h m1 m2 \<longleftrightarrow> (\<forall>d c. case m1 (d, c) of (r, (d', c')) \<Rightarrow>
     g c' \<longrightarrow> g c \<and> m2 (d, h c) = (r, (d', h c')))"

lemma simulatesD:
  "simulates g h m1 m2 \<Longrightarrow> m1 (d, c) = (r, (d', c')) \<Longrightarrow> g c' \<Longrightarrow> g c \<and> m2 (d, h c) = (r, (d', h c'))"
  by (auto simp: simulates_def split: prod.splits)

lemma simulatesI:
  "(\<And>d c r d' c'. m1 (d, c) = (r, (d', c')) \<Longrightarrow> g c' \<Longrightarrow> g c \<and> m2 (d, h c) = (r, (d', h c'))) \<Longrightarrow> simulates g h m1 m2"
  by (auto simp: simulates_def split: prod.split)

lemma simulates_bnd:
  assumes m: "simulates g h m1 m2" and k: "\<And>x. simulates g h (k1 x) (k2 x)"
  shows "simulates g h (bnd m1 k1) (bnd m2 k2)"
proof (rule simulatesI)
  fix d c r d' c'
  assume run: "bnd m1 k1 (d, c) = (r, (d', c'))" and "g c'"
  obtain x d1 c1 where 1: "m1 (d, c) = (x, (d1, c1))" by (metis surj_pair)
  note 2 = simulatesD [OF m 1]
  show "g c \<and> bnd m2 k2 (d, h c) = (r, (d', h c'))"
  proof (cases x)
    case (Inl err)
    with run 1 2 \<open>g c'\<close> show ?thesis by (auto simp: bnd_def)
  next
    case (Inr y)
    with run 1 have "k1 y (d1, c1) = (r, (d', c'))" by (simp add: bnd_def)
    from simulatesD [OF k this \<open>g c'\<close>] 2 Inr show ?thesis by (simp add: bnd_def)
  qed
qed

lemma simulates_orBreak:
  assumes m: "simulates g h m1 m2" and k: "\<And>x. simulates g h (k1 x) (k2 x)"
  shows "simulates g h (orBreak m1 k1) (orBreak m2 k2)"
proof (rule simulatesI)
  fix d c r d' c'
  assume run: "orBreak m1 k1 (d, c) = (r, (d', c'))" and "g c'"
  obtain x d1 c1 where 1: "m1 (d, c) = (x, (d1, c1))" by (metis surj_pair)
  note 2 = simulatesD [OF m 1]
  show "g c \<and> orBreak m2 k2 (d, h c) = (r, (d', h c'))"
  proof (cases x)
    case (Inl err)
    with run 1 2 \<open>g c'\<close> show ?thesis by (auto simp: orBreak_def split: go_error.splits)
  next
    case (Inr y)
    with run 1 have "k1 y (d1, c1) = (r, (d', c'))" by (simp add: orBreak_def)
    from simulatesD [OF k this \<open>g c'\<close>] 2 Inr show ?thesis by (simp add: orBreak_def)
  qed
qed

lemma simulates_onDec: "simulates g h (onDec m) (onDec m)"
  by (simp add: simulates_def onDec_def split: prod.split)

lemma simulates_onCb:
  "(\<And>c. case cb1 c of (r, c') \<Rightarrow> g c' \<longrightarrow> g c \<and> cb2 (h c) = (r, h c')) \<Longrightarrow> simulates g h (onCb cb1) (onCb cb2)"
  by (fastforce simp: simulates_def onCb_def split: prod.splits)

lemma simulates_same: "simulates g h (ret x) (ret x)" "simulates g h (\<lambda>s. (v, s)) (\<lambda>s. (v, s))"
  "simulates g h (makeslice n k) (makeslice n k)"
  by (simp_all add: simulates_def ret_def makeslice_def fail_def)

lemma simulates_if: "simulates g h a1 a2 \<Longrightarrow> simulates g h b1 b2 \<Longrightarrow> simulates g h (if p then a1 else b1) (if p then a2 else b2)"
  by simp

lemma simulates_split: "(\<And>x y. simulates g h (f1 x y) (f2 x y)) \<Longrightarrow> simulates g h (case p of (x, y) \<Rightarrow> f1 x y) (case p of (x, y) \<Rightarrow> f2 x y)"
  by (cases p) simp

lemmas simulates_intros = simulates_bnd simulates_orBreak simulates_onDec simulates_same simulates_if simulates_split

definition agree :: "('c \<Rightarrow> bool) \<Rightarrow> ('c \<Rightarrow> 'd) \<Rightarrow> ('o \<Rightarrow> ('c, bool) gom) \<Rightarrow> ('o \<Rightarrow> ('d, bool) gom) \<Rightarrow> bool" where
  "agree g h cb1 cb2 \<longleftrightarrow> (\<forall>obj c. case cb1 obj c of (r, c') \<Rightarrow> g c' \<longrightarrow> g c \<and> cb2 obj (h c) = (r, h c'))"

lemma deliver_simulates: "agree g h cb1 cb2 \<Longrightarrow> simulates g h (deliver cb1 obj vars) (deliver cb2 obj vars)"
  unfolding deliver_def by (intro simulates_intros simulates_onCb) (simp add: agree_def)

lemma slot_simulates:
  "simulates g h (parseSlotInfo vars) (parseSlotInfo vars)"
  "simulates g h (parseSlotImport vars) (parseSlotImport vars)"
proof -
  have "simulates g h (bnd (onDec readLength) (\<lambda>_. bnd (onDec readLength) (\<lambda>_. bnd (onDec readLength) (\<lambda>_.
      ret (Continue vars))))) (bnd (onDec readLength) (\<lambda>_. bnd (onDec readLength) (\<lambda>_. bnd (onDec readLength) (\<lambda>_.
      ret (Continue vars)))))"
    by (intro simulates_intros)
  then show "simulates g h (parseSlotInfo vars) (parseSlotInfo vars)"
    by (simp add: simulates_def parseSlotInfo_def)
  have "simulates g h (bnd (onDec readString) (\<lambda>job. bnd (onDec readLength) (\<lambda>(num_slot_ranges, _).
      bnd (makeslice 16 (uint num_slot_ranges)) (\<lambda>_.
      bnd (onDec (readN (unat num_slot_ranges) (bnd readLength (\<lambda>_. readLength)))) (\<lambda>_.
      ret (Continue vars)))))) (bnd (onDec readString) (\<lambda>job. bnd (onDec readLength) (\<lambda>(num_slot_ranges, _).
      bnd (makeslice 16 (uint num_slot_ranges)) (\<lambda>_.
      bnd (onDec (readN (unat num_slot_ranges) (bnd readLength (\<lambda>_. readLength)))) (\<lambda>_.
      ret (Continue vars))))))"
    by (intro simulates_intros)
  then show "simulates g h (parseSlotImport vars) (parseSlotImport vars)"
    by (simp add: simulates_def parseSlotImport_def)
qed

lemma parseStep_simulates:
  assumes "agree g h cb1 cb2"
  shows "simulates g h (parseStep pf cfg cb1 vars) (parseStep pf cfg cb2 vars)"
  unfolding parseStep_def parseResizeDB_def parseAux_def parseFunction_def parseObject_def Let_def
  by (intro simulates_intros slot_simulates deliver_simulates [OF assms])

lemma parseLoop_simulates:
  fixes cb1 :: "'v option redis_object \<Rightarrow> ('c, bool) gom" and cb2 :: "'v option redis_object \<Rightarrow> ('d, bool) gom"
  assumes "agree g h cb1 cb2"
  shows "parseLoop pf cfg cb1 vars (d, c) = (r, (d', c')) \<Longrightarrow> g c' \<Longrightarrow>
    g c \<and> parseLoop pf cfg cb2 vars (d, h c) = (r, (d', h c'))"
proof (induction "length (input d)" arbitrary: vars d c rule: less_induct)
  case less
  obtain q d1 c1 where step: "parseStep pf cfg cb1 vars (d, c) = (q, (d1, c1))" by (metis surj_pair)
  note sim = simulatesD [OF parseStep_simulates [OF assms] step]
  show ?case
  proof (cases "\<exists>vars'. q = Inr (Continue vars')")
    case True
    then obtain vars' where q: "q = Inr (Continue vars')" by blast
    have "length (input d1) < length (input d)"
      using parseStep_progress [of pf cfg cb1 vars "(d, c)" "Continue vars'" "(d1, c1)"] step q by simp
    moreover have "parseLoop pf cfg cb1 vars' (d1, c1) = (r, (d', c'))"
      using less.prems(1) parseLoop_Continue step q by metis
    ultimately have "g c1 \<and> parseLoop pf cfg cb2 vars' (d1, h c1) = (r, (d', h c'))"
      using less.prems(2) by (rule less.hyps)
    with parseLoop_Continue sim q show ?thesis by metis
  next
    case False
    with less.prems(1) step have "c1 = c'"
      by (auto simp: parseLoop.simps [of pf cfg cb1 vars "(d, c)"] split: sum.splits loop_next.splits)
    with sim less.prems(2) have "g c" and step2: "parseStep pf cfg cb2 vars (d, h c) = (q, (d1, h c1))" by simp_all
    with False less.prems(1) step show ?thesis
      by (auto simp: parseLoop.simps [of pf cfg cb1 vars "(d, c)"] parseLoop.simps [of pf cfg cb2 vars "(d, h c)"]
          split: sum.splits loop_next.splits)
  qed
qed

lemma Parse_simulates:
  assumes "agree g h cb1 cb2" "Parse pf cfg cb1 (d, c) = (r, (d', c'))" "g c'"
  shows "Parse pf cfg cb2 (d, h c) = (r, (d', h c'))"
proof -
  have "simulates g h (parseLoop pf cfg cb1 vars) (parseLoop pf cfg cb2 vars)" for vars
    unfolding simulates_def
    by (intro allI) (auto dest: parseLoop_simulates [OF assms(1)] split: prod.splits)
  then have sim: "simulates g h (bnd (onDec checkHeader) (\<lambda>_. parse pf cfg cb1)) (bnd (onDec checkHeader) (\<lambda>_. parse pf cfg cb2))"
    unfolding parse_def by (intro simulates_intros)
  obtain q where q: "bnd (onDec checkHeader) (\<lambda>_. parse pf cfg cb1) (d, c) = (q, (d', c'))"
    and r: "r = fst (recovered (\<lambda>s. (q, s)) (d', c'))"
    using assms(2) by (auto simp: Parse_def recovered_def split: prod.splits sum.splits go_error.splits)
  from simulatesD [OF sim q assms(3)] r show ?thesis
    by (auto simp: Parse_def recovered_def split: prod.splits sum.splits go_error.splits)
qed

text \<open>A filtered run keeps the objects of the unfiltered one that pass.\<close>

lemma agree_collect: "agree (\<lambda>_. True) (filter P) collect (onlyIf P collect)"
  by (simp add: agree_def onlyIf_def collect_def ret_def)

text \<open>When the expressions of the options are accepted.\<close>

definition acceptsOptions :: "helper_env \<Rightarrow> helper_settings \<Rightarrow> bool" where
  "acceptsOptions env st \<longleftrightarrow>
     (case regexOpt st of None \<Rightarrow> True | Some expr \<Rightarrow> compileRegex env expr \<noteq> None) \<and>
     (expirationOpt st \<in> {[], strlit ''noexpire'', strlit ''anyexpire''} \<or> \<not> isl (parseExpireExpr env (expirationOpt st))) \<and>
     (sizeOpt st = [] \<or> \<not> isl (parseSizeExpr env (sizeOpt st)))"

lemma wrapDecoder_accepts:
  assumes "acceptsOptions env (settingsOf options)"
  shows "\<exists>dec. wrapDecoder env base options = Inr dec"
proof -
  let ?st = "settingsOf options"
  have "\<exists>dec'. wrapRegex env ?st dec = Inr dec'" for dec :: "('a redis_object, 'b) parser"
    using assms by (auto simp: acceptsOptions_def wrapRegex_def regexWrapper_def split: option.splits)
  moreover have "\<exists>dec'. wrapExpiration env ?st dec = Inr dec'" for dec :: "('a redis_object, 'b) parser"
    using assms by (auto simp: acceptsOptions_def wrapExpiration_def split: sum.splits)
  moreover have "\<exists>dec'. wrapSize env ?st dec = Inr dec'" for dec :: "('a redis_object, 'b) parser"
    using assms by (auto simp: acceptsOptions_def wrapSize_def split: sum.splits)
  ultimately show ?thesis by (auto simp: wrapDecoder_def Let_def split: sum.split) (metis sum.distinct(1))+
qed

lemma wrapDecoder_fold_on:
  assumes "wrapDecoder env (\<lambda>special. Parse pf (cfg special)) options = Inr dec"
    and "Parse pf (cfg (globalMetaOpt (settingsOf options))) collect (d, []) = (r, (d', objs))"
    and good: "\<forall>obj \<in> set objs. passes env (settingsOf options) obj \<longrightarrow> Good obj"
    and step: "\<And>objs obj. Good obj \<Longrightarrow> cb obj (h objs) = (Inr True, h (objs @ [obj]))"
  shows "dec cb (d, h []) = (r, (d', h (filter (passes env (settingsOf options)) objs)))"
proof -
  let ?P = "passes env (settingsOf options)"
  have "agree (\<lambda>objs. \<forall>obj \<in> set objs. ?P obj \<longrightarrow> Good obj) (\<lambda>objs. h (filter ?P objs)) collect (onlyIf ?P cb)"
    by (simp add: agree_def onlyIf_def collect_def ret_def step)
  from Parse_simulates [OF this assms(2) good] show ?thesis
    by (simp add: wrapDecoder_onlyIf [OF assms(1)])
qed

lemmas wrapDecoder_fold = wrapDecoder_fold_on [where Good = "\<lambda>_. True", simplified]

subsection \<open>Properties\<close>

text \<open>
  C16: whatever the options are, if the expressions in them are accepted, parsing through
  the stacked filters gives the objects of the plain parse that pass every filter, in the
  same order, with the same outcome and the same input left.
\<close>

theorem filters_select:
  assumes "wrapDecoder env (\<lambda>special. Parse pf (cfg\<lparr>withSpecialOpCode := special\<rparr>)) options = Inr dec"
    and "Parse pf (cfg\<lparr>withSpecialOpCode := globalMetaOpt (settingsOf options)\<rparr>) collect (d, []) = (r, (d', objs))"
  shows "dec collect (d, []) = (r, (d', filter (passes env (settingsOf options)) objs))"
proof -
  have "filter (passes env (settingsOf options)) [] = []" by simp
  with Parse_simulates [OF agree_collect assms(2) TrueI, of "passes env (settingsOf options)"]
  show ?thesis by (simp add: wrapDecoder_onlyIf [OF assms(1)])
qed

theorem filters_select_witness:
  "case wrapDecoder \<lparr>compileRegex = \<lambda>_. Some (\<lambda>key. key = strlit ''other''), nowNanos = 0, nowSeconds = 0,
       envParseFloat = \<lambda>_. None, envOutside = 0\<rparr>
      (\<lambda>special. Parse (\<lambda>_. None) \<lparr>withSpecialOpCode = special, withSpecialTypes = \<lambda>_. (None :: (int \<Rightarrow> nat handler) option)\<rparr>)
      [WithGlobalMeta, WithRegexOption (strlit ''oth.*'')] of
    Inl err \<Rightarrow> False
  | Inr dec \<Rightarrow> \<exists>d'. dec collect (newDecoder (strlit ''REDIS0011'' @ opCodeAux # stringBytes False (strlit ''ver'') @
      stringBytes False (strlit ''7'')), []) = (Inl EOF, (d', []))"
proof -
  let ?opts = "[WithGlobalMeta, WithRegexOption (strlit ''oth.*'')]" and ?e = "newEncoder (\<lambda>_ _. None)"
  let ?cfg = "\<lparr>withSpecialOpCode = False, withSpecialTypes = \<lambda>_. (None :: (int \<Rightarrow> nat handler) option)\<rparr>"
  let ?bs = "strlit ''REDIS0011'' @ opCodeAux # stringBytes False (strlit ''ver'') @ stringBytes False (strlit ''7'')"
  define env where "env = \<lparr>compileRegex = \<lambda>_. Some (\<lambda>key. key = strlit ''other''), nowNanos = 0, nowSeconds = 0,
       envParseFloat = \<lambda>_. None, envOutside = 0\<rparr>"
  have st: "settingsOf ?opts = \<lparr>regexOpt = Some (strlit ''oth.*''), noExpiredOpt = False, expirationOpt = [],
      sizeOpt = [], globalMetaOpt = True\<rparr>"
    by (simp add: settingsOf_def WithGlobalMeta_def WithRegexOption_def)
  let ?base = "(\<lambda>special. Parse (\<lambda>_. None) (?cfg\<lparr>withSpecialOpCode := special\<rparr>)) ::
    bool \<Rightarrow> (nat option redis_object, nat option redis_object list) parser"
  obtain dec where w: "wrapDecoder env ?base ?opts = Inr dec"
    by (auto simp: wrapDecoder_def st Let_def wrapRegex_def regexWrapper_def wrapExpiration_def wrapSize_def env_def)
  have "list_all (call_ok (\<lambda>_. None) (\<lambda>_. []) ?e) [OpAux (strlit ''ver'') (strlit ''7'')]"
    by (simp add: call_ok_def string_ok_def maxAlloc_def strlit_def newEncoder_def)
  from Parse_cut [OF this, of "?cfg\<lparr>withSpecialOpCode := True\<rparr>"] obtain objs d' where
    run: "Parse (\<lambda>_. None) (?cfg\<lparr>withSpecialOpCode := True\<rparr>) collect (newDecoder ?bs, []) = (Inl EOF, (d', objs))"
    and v: "map viewOf objs = [(0, strlit ''ver'', None, AuxContent (strlit ''7''))]"
    by (auto simp: rdbHeaderOf_def rdbHeaderRedis_def newEncoder_def)
  from v obtain obj where obj: "objs = [obj]" "GetKey obj = strlit ''ver''" by (auto simp: viewOf_def)
  have "strlit ''ver'' \<noteq> strlit ''other''" by (simp add: strlit_def)
  with obj have "filter (passes env (settingsOf ?opts)) objs = []"
    by (simp add: st passes_def passesRegex_def env_def)
  with filters_select [OF w, of "newDecoder ?bs" "Inl EOF" d' objs] run w show ?thesis
    unfolding env_def by (simp add: st)
qed

end
