(* ===== verification/TopList.thy ===== *)
theory TopList
  imports Filters
begin

section \<open>The largest objects of a file (helper/toplist.go, bigkey.go, hotkey.go, memory.go)\<close>

text \<open>
  A list of bounded length that keeps the largest elements, by size or by access
  frequency, and the reports made of it.  Both lists implement one contract,
  \<open>top_contract\<close>; what it promises is proved once: after any additions the list is the
  beginning of the sorted sequence of everything that was added.
\<close>

subsection \<open>The lists\<close>

text \<open>
  \<^verbatim>\<open>append\<close>, \<^verbatim>\<open>copy(list[index+1:], list[index:])\<close> and the assignment at \<^verbatim>\<open>index\<close>.
\<close>

definition insertAt :: "nat \<Rightarrow> 'a \<Rightarrow> 'a list \<Rightarrow> 'a list" where
  "insertAt index x xs =
     (let grown = xs @ [x];
          shifted = take (index + 1) grown @ take (length grown - (index + 1)) (drop index grown)
      in shifted[index := x])"

definition truncateTo :: "int \<Rightarrow> 'a list \<Rightarrow> 'a list res" where
  "truncateTo cap xs =
     (if cap < int (length xs)
      then (if cap < 0 then Inl (GoPanic ''slice bounds out of range'') else Inr (take (nat cap) xs))
      else Inr xs)"

record 'a topList =
  topItems :: "'a list"
  topCapacity :: int

definition newToplist :: "int \<Rightarrow> 'a topList" where
  "newToplist cap = \<lparr>topItems = [], topCapacity = cap\<rparr>"

text \<open>\<open>size_of\<close> is the method of the interface \<^verbatim>\<open>Sized\<close>.\<close>

definition topAdd :: "('a \<Rightarrow> int) \<Rightarrow> 'a \<Rightarrow> 'a topList \<Rightarrow> 'a topList res" where
  "topAdd size_of x tp =
     (let xs = topItems tp;
          index = sortSearch 0 (length xs) (\<lambda>i. size_of (xs ! i) \<le> size_of x)
      in case truncateTo (topCapacity tp) (insertAt index x xs) of
           Inl err \<Rightarrow> Inl err
         | Inr xs' \<Rightarrow> Inr (tp\<lparr>topItems := xs'\<rparr>))"

record 'o hotKeyEntry =
  hotObject :: 'o
  hotFreq :: int

record 'o hotKeyList =
  hotItems :: "'o hotKeyEntry list"
  hotCapacity :: int

definition newHotKeyList :: "int \<Rightarrow> 'o hotKeyList" where
  "newHotKeyList cap = \<lparr>hotItems = [], hotCapacity = cap\<rparr>"

definition hotAdd :: "'o hotKeyEntry \<Rightarrow> 'o hotKeyList \<Rightarrow> 'o hotKeyList res" where
  "hotAdd entry hl =
     (let xs = hotItems hl;
          index = sortSearch 0 (length xs) (\<lambda>i. hotFreq (xs ! i) \<le> hotFreq entry)
      in case truncateTo (hotCapacity hl) (insertAt index entry xs) of
           Inl err \<Rightarrow> Inl err
         | Inr xs' \<Rightarrow> Inr (hl\<lparr>hotItems := xs'\<rparr>))"

subsection \<open>The contract\<close>

fun addAll :: "('a \<Rightarrow> 's \<Rightarrow> 's res) \<Rightarrow> 'a list \<Rightarrow> 's \<Rightarrow> 's res" where
  "addAll add [] s = Inr s"
| "addAll add (x # xs) s = (case add x s of Inl err \<Rightarrow> Inl err | Inr s' \<Rightarrow> addAll add xs s')"

lemma addAll_snoc: "addAll add (xs @ [x]) s = (case addAll add xs s of Inl err \<Rightarrow> Inl err | Inr s' \<Rightarrow> add x s')"
  by (induction xs arbitrary: s) (auto split: sum.split)

definition descending :: "('a \<Rightarrow> int) \<Rightarrow> 'a list \<Rightarrow> 'a list" where
  "descending key xs = sort_key (\<lambda>x. - key x) xs"

lemma descending_snoc: "descending key (rev (xs @ [x])) = insort_key (\<lambda>x. - key x) x (descending key (rev xs))"
  by (simp add: descending_def)

lemma sorted_descending: "sorted_wrt (\<lambda>a b. key b \<le> key a) (descending key xs)"
proof -
  have "sorted (map (\<lambda>x. - key x) (descending key xs))" unfolding descending_def by (rule sorted_sort_key)
  then show ?thesis by (simp add: sorted_map)
qed

lemma take_insort: "take n (insort_key f x (take n xs)) = take n (insort_key f x xs)"
proof (induction xs arbitrary: n)
  case (Cons y ys)
  then show ?case by (cases n) (auto simp: take_Cons')
qed (cases n; simp)

locale top_contract =
  fixes add :: "'a \<Rightarrow> 's \<Rightarrow> 's res" and items :: "'s \<Rightarrow> 'a list" and cap :: "'s \<Rightarrow> int"
    and key :: "'a \<Rightarrow> int" and new :: "int \<Rightarrow> 's"
  assumes new_items: "items (new n) = []" and new_cap: "cap (new n) = n"
    and add_items: "0 \<le> cap s \<Longrightarrow> sorted_wrt (\<lambda>a b. key b \<le> key a) (items s) \<Longrightarrow>
      \<exists>s'. add x s = Inr s' \<and> cap s' = cap s \<and>
        items s' = take (nat (cap s)) (insort_key (\<lambda>x. - key x) x (items s))"
begin

lemma all_added:
  assumes "0 \<le> n"
  shows "\<exists>s. addAll add xs (new n) = Inr s \<and> cap s = n \<and> items s = take (nat n) (descending key (rev xs))"
proof (induction xs rule: rev_induct)
  case Nil
  then show ?case by (simp add: new_items new_cap descending_def)
next
  case (snoc x xs)
  then obtain s where s: "addAll add xs (new n) = Inr s" "cap s = n"
    "items s = take (nat n) (descending key (rev xs))" by blast
  have "sorted_wrt (\<lambda>a b. key b \<le> key a) (items s)"
    unfolding s(3) using sorted_descending by (rule sorted_wrt_take)
  with s assms obtain s' where "add x s = Inr s'" "cap s' = n"
    "items s' = take (nat n) (insort_key (\<lambda>x. - key x) x (take (nat n) (descending key (rev xs))))"
    using add_items [of s x] by auto
  with s(1) show ?case by (simp add: addAll_snoc take_insort descending_snoc del: rev_append)
qed

end

subsection \<open>Both lists implement it\<close>

lemma insertAt_eq:
  assumes "i \<le> length xs"
  shows "insertAt i x xs = take i xs @ x # drop i xs"
proof -
  have "take (length (xs @ [x]) - (i + 1)) (drop i (xs @ [x])) = drop i xs"
    using assms by (simp add: Suc_diff_le)
  moreover have "(take (i + 1) (xs @ [x]) @ ys)[i := x] = take i xs @ x # ys" for ys
  proof (cases "i = length xs")
    case False
    with assms have "take (i + 1) (xs @ [x]) = take i xs @ [xs ! i]" by (simp add: take_Suc_conv_app_nth)
    then show ?thesis using assms by (simp add: list_update_append)
  qed simp
  ultimately show ?thesis by (simp add: insertAt_def Let_def)
qed

lemma insort_at:
  assumes "i \<le> length xs" "\<forall>k < i. \<not> f x \<le> f (xs ! k)" "i < length xs \<longrightarrow> f x \<le> f (xs ! i)"
  shows "take i xs @ x # drop i xs = insort_key f x xs"
  using assms
proof (induction xs arbitrary: i)
  case (Cons y ys)
  show ?case
  proof (cases i)
    case 0
    with Cons.prems show ?thesis by simp
  next
    case (Suc j)
    from Cons.prems(2) Suc have "\<not> f x \<le> f y" by (metis nth_Cons_0 zero_less_Suc)
    moreover have "\<forall>k < j. \<not> f x \<le> f (ys ! k)" using Cons.prems(2) Suc by auto
    ultimately show ?thesis using Cons.IH [of j] Cons.prems Suc by simp
  qed
qed simp

lemma search_insert:
  fixes key :: "'a \<Rightarrow> int"
  assumes "sorted_wrt (\<lambda>a b. key b \<le> key a) xs"
  shows "insertAt (sortSearch 0 (length xs) (\<lambda>i. key (xs ! i) \<le> key x)) x xs = insort_key (\<lambda>x. - key x) x xs"
proof -
  let ?i = "sortSearch 0 (length xs) (\<lambda>i. key (xs ! i) \<le> key x)"
  have "?i \<le> length xs \<and> (\<forall>k < ?i. \<not> key (xs ! k) \<le> key x) \<and> (?i < length xs \<longrightarrow> key (xs ! ?i) \<le> key x)"
  proof (rule sortSearch_spec)
    show "\<And>a b. a \<le> b \<Longrightarrow> b < length xs \<Longrightarrow> key (xs ! a) \<le> key x \<Longrightarrow> key (xs ! b) \<le> key x"
      using sorted_wrt_nth_less [OF assms] by (metis le_neq_implies_less order_trans)
  qed simp_all
  then show ?thesis using insort_at [of ?i xs "\<lambda>x. - key x" x] by (simp add: insertAt_eq)
qed

lemma truncateTo_pos: "0 \<le> cap \<Longrightarrow> truncateTo cap xs = Inr (take (nat cap) xs)"
  by (simp add: truncateTo_def)

interpretation top: top_contract "topAdd size_of" topItems topCapacity size_of newToplist for size_of
  by unfold_locales (simp_all add: newToplist_def topAdd_def search_insert truncateTo_pos)

interpretation hot: top_contract hotAdd hotItems hotCapacity hotFreq newHotKeyList
  by unfold_locales (simp_all add: newHotKeyList_def hotAdd_def search_insert truncateTo_pos)

subsection \<open>Reports\<close>

text \<open>
  The file a report is written to: what has been written, and the environment that may
  refuse a line.  The header is written as text, every row through a CSV writer, which is
  library code: a row is the list of its fields.  Its buffer is counted in whole rows: a row of
  which a part is still in the buffer counts as not yet handed over.
\<close>

datatype out_line = RawLine bytes | CsvRow "bytes list"

record out_file =
  outLines :: "out_line list"
  outRefuses :: "out_line list \<Rightarrow> out_line \<Rightarrow> bool"
  outSpills :: "out_line list \<Rightarrow> out_line list \<Rightarrow> nat"

definition outWrite :: "string \<Rightarrow> out_line \<Rightarrow> (out_file, unit) gom" where
  "outWrite msg line f =
     (if outRefuses f (outLines f) line then (Inl (Wrap msg (Msg ''write error'')), f)
      else (Inr (), f\<lparr>outLines := outLines f @ [line]\<rparr>))"

text \<open>
  A CSV writer with the rows its buffer still holds.  A write puts the row into the buffer; how
  many of the rows in it the buffer then hands to the file, because it is full, is up to the
  environment (\<open>outSpills\<close>, given what the file and the buffer hold).  Only that can fail, and
  after a failure every further write fails and nothing more is handed to the file.  The
  deferred \<^verbatim>\<open>Flush\<close> hands over what is left when the function returns or panics; it returns
  nothing, and nobody asks for the error.
\<close>

record csv_writer =
  csvOut :: out_file
  csvPending :: "out_line list"
  csvFailed :: bool

fun handOver :: "out_line list \<Rightarrow> (out_file, unit) gom" where
  "handOver [] f = (Inr (), f)"
| "handOver (line # lines) f =
     (if outRefuses f (outLines f) line then (Inl (Msg ''write error''), f)
      else handOver lines (f\<lparr>outLines := outLines f @ [line]\<rparr>))"

definition csvWrite :: "out_line \<Rightarrow> (csv_writer, unit) gom" where
  "csvWrite row w =
     (if csvFailed w then (Inl (Msg ''write error''), w)
      else let rows = csvPending w @ [row]; n = outSpills (csvOut w) (outLines (csvOut w)) rows
           in case handOver (take n rows) (csvOut w) of
                (Inl err, f) \<Rightarrow> (Inl err, w\<lparr>csvOut := f, csvFailed := True\<rparr>)
              | (Inr _, f) \<Rightarrow> (Inr (), w\<lparr>csvOut := f, csvPending := drop n rows\<rparr>))"

definition csvFlush :: "csv_writer \<Rightarrow> out_file" where
  "csvFlush w = (if csvFailed w then csvOut w else snd (handOver (csvPending w) (csvOut w)))"

definition withCsv :: "(csv_writer, 'a) gom \<Rightarrow> (out_file, 'a) gom" where
  "withCsv body f = (case body \<lparr>csvOut = f, csvPending = [], csvFailed = False\<rparr> of (r, w) \<Rightarrow> (r, csvFlush w))"

type_synonym robj = "unit option redis_object"

definition coreDecoder :: "(bytes \<Rightarrow> float64 option) \<Rightarrow> bool \<Rightarrow> (robj, 'c) parser" where
  "coreDecoder pf special = Parse pf \<lparr>withSpecialOpCode = special, withSpecialTypes = \<lambda>_. None\<rparr>"

text \<open>Opening the file, wrapping the decoder, parsing: what every helper starts with.\<close>

definition decodeFile ::
  "helper_env \<Rightarrow> (bytes \<Rightarrow> bytes option) \<Rightarrow> bytes \<Rightarrow> helper_option list \<Rightarrow>
     (robj \<Rightarrow> ('c, bool) gom) \<Rightarrow> 'c \<Rightarrow> 'c res"
where
  "decodeFile env fs rdbFilename options cb c = (case fs rdbFilename of
     None \<Rightarrow> Inl (Msg ''open rdb failed'')
   | Some inp \<Rightarrow> (case wrapDecoder env (coreDecoder (envParseFloat env)) options of
         Inl err \<Rightarrow> Inl err
       | Inr dec \<Rightarrow> (case dec cb (newDecoder inp, c) of
             (Inl err, _) \<Rightarrow> Inl err
           | (Inr _, s) \<Rightarrow> Inr (snd s))))"

definition addCallback :: "('o \<Rightarrow> 'c \<Rightarrow> 'c res) \<Rightarrow> 'o \<Rightarrow> ('c, bool) gom" where
  "addCallback add obj c = (case add obj c of Inl err \<Rightarrow> (Inl err, c) | Inr c' \<Rightarrow> (Inr True, c'))"

definition bigKeyRow :: "robj \<Rightarrow> out_line" where
  "bigKeyRow obj = CsvRow [itoa (GetDBIndex obj), GetKey obj, GetType obj, itoa (GetSize obj),
     FormatSize (of_int (GetSize obj)), itoa (int (GetElemCount obj))]"

definition FindBiggestKeys ::
  "helper_env \<Rightarrow> (bytes \<Rightarrow> bytes option) \<Rightarrow> bytes \<Rightarrow> int \<Rightarrow> helper_option list \<Rightarrow> (out_file, unit) gom"
where
  "FindBiggestKeys env fs rdbFilename topN options f =
     (if rdbFilename = [] then (Inl (Msg ''src file path is required''), f)
      else if topN \<le> 0 then (Inl (Msg ''n must greater than 0''), f)
      else case decodeFile env fs rdbFilename options (addCallback (topAdd GetSize)) (newToplist topN) of
          Inl err \<Rightarrow> (Inl err, f)
        | Inr tp \<Rightarrow>
            bnd (outWrite ''write header failed'' (RawLine (strlit ''database,key,type,size,size_readable,element_count'')))
              (\<lambda>_. withCsv (forEach (\<lambda>obj. wrapErr ''csv write failed'' (csvWrite (bigKeyRow obj))) (topItems tp))) f)"

text \<open>Every object has the method \<^verbatim>\<open>GetFreq\<close>, so the interface test succeeds.\<close>

definition hotCallback :: "robj \<Rightarrow> (robj hotKeyList, bool) gom" where
  "hotCallback obj =
     (if GetFreq obj < 0 then ret True
      else addCallback hotAdd \<lparr>hotObject = obj, hotFreq = GetFreq obj\<rparr>)"

definition hotKeyRow :: "robj hotKeyEntry \<Rightarrow> out_line" where
  "hotKeyRow entry = (let obj = hotObject entry in
     CsvRow [itoa (GetDBIndex obj), GetKey obj, GetType obj, itoa (GetSize obj),
       FormatSize (of_int (GetSize obj)), itoa (hotFreq entry)])"

definition FindHotKeys ::
  "helper_env \<Rightarrow> (bytes \<Rightarrow> bytes option) \<Rightarrow> bytes \<Rightarrow> int \<Rightarrow> helper_option list \<Rightarrow> (out_file, unit) gom"
where
  "FindHotKeys env fs rdbFilename topN options f =
     (if rdbFilename = [] then (Inl (Msg ''src file path is required''), f)
      else if topN \<le> 0 then (Inl (Msg ''n must greater than 0''), f)
      else case decodeFile env fs rdbFilename options hotCallback (newHotKeyList topN) of
          Inl err \<Rightarrow> (Inl err, f)
        | Inr hl \<Rightarrow>
            bnd (outWrite ''write header failed'' (RawLine (strlit ''database,key,type,size,size_readable,freq'')))
              (\<lambda>_. withCsv (forEach (\<lambda>entry. wrapErr ''csv write failed'' (csvWrite (hotKeyRow entry))) (hotItems hl))) f)"

text \<open>
  The memory profile writes a row per object while it parses; a row that cannot be written
  ends the parse, but the error returned is that of the parse.  \<open>formatTime\<close> is
  \<^verbatim>\<open>Time.Format(RFC3339)\<close>.
\<close>

definition memoryRow :: "(int \<Rightarrow> bytes) \<Rightarrow> robj \<Rightarrow> out_line" where
  "memoryRow formatTime obj = CsvRow [itoa (GetDBIndex obj), GetKey obj, GetType obj, itoa (GetSize obj),
     FormatSize (of_int (GetSize obj)), itoa (int (GetElemCount obj)), GetEncoding obj,
     (case GetExpiration obj of None \<Rightarrow> [] | Some t \<Rightarrow> formatTime t)]"

definition memoryCallback :: "(int \<Rightarrow> bytes) \<Rightarrow> robj \<Rightarrow> (csv_writer, bool) gom" where
  "memoryCallback formatTime obj w = (case csvWrite (memoryRow formatTime obj) w of
     (Inl err, w') \<Rightarrow> (Inr False, w')
   | (Inr _, w') \<Rightarrow> (Inr True, w'))"

definition MemoryProfile ::
  "helper_env \<Rightarrow> (bytes \<Rightarrow> bytes option) \<Rightarrow> (int \<Rightarrow> bytes) \<Rightarrow> bytes \<Rightarrow> bytes \<Rightarrow> (bytes \<Rightarrow> out_file option) \<Rightarrow>
     helper_option list \<Rightarrow> (out_file, unit) gom"
where
  "MemoryProfile env fs formatTime rdbFilename csvFilename createFile options f0 =
     (if rdbFilename = [] then (Inl (Msg ''src file path is required''), f0)
      else if csvFilename = [] then (Inl (Msg ''output file path is required''), f0)
      else case fs rdbFilename of
        None \<Rightarrow> (Inl (Msg ''open rdb failed''), f0)
      | Some inp \<Rightarrow> (case createFile csvFilename of
          None \<Rightarrow> (Inl (Msg ''create csv failed''), f0)
        | Some f \<Rightarrow> (case wrapDecoder env (coreDecoder (envParseFloat env)) options of
            Inl err \<Rightarrow> (Inl err, f)
          | Inr dec \<Rightarrow> bnd (outWrite ''write csv failed'' (RawLine (strlit
                ''database,key,type,size,size_readable,element_count,encoding,expiration'')))
              (\<lambda>_. withCsv (\<lambda>w. case dec (memoryCallback formatTime) (newDecoder inp, w) of
                 (r, s) \<Rightarrow> (r, snd s))) f)))"

subsection \<open>What a report says\<close>

definition added :: "('a \<Rightarrow> 's \<Rightarrow> 's res) \<Rightarrow> 's \<Rightarrow> 'a list \<Rightarrow> 's" where
  "added add s xs = (case addAll add xs s of Inl err \<Rightarrow> s | Inr s' \<Rightarrow> s')"

context top_contract
begin

lemma added_items: "0 \<le> n \<Longrightarrow> items (added add (new n) xs) = take (nat n) (descending key (rev xs))"
  using all_added [of n xs] by (auto simp: added_def)

lemma added_step: "0 \<le> n \<Longrightarrow> addCallback add x (added add (new n) xs) = (Inr True, added add (new n) (xs @ [x]))"
  using all_added [of n xs] all_added [of n "xs @ [x]"]
  by (auto simp: added_def addCallback_def addAll_snoc)

end

lemma added_Nil [simp]: "added add s [] = s"
  by (simp add: added_def)

text \<open>On a file that takes everything all rows arrive, whenever the buffer spills.\<close>

lemma handOver_all:
  "(\<And>ls l. \<not> outRefuses f ls l) \<Longrightarrow> handOver lines f = (Inr (), f\<lparr>outLines := outLines f @ lines\<rparr>)"
  by (induction lines arbitrary: f) simp_all

definition csvHolds :: "out_file \<Rightarrow> out_line list \<Rightarrow> csv_writer \<Rightarrow> bool" where
  "csvHolds f rows w \<longleftrightarrow> \<not> csvFailed w \<and> (\<exists>done. csvOut w = f\<lparr>outLines := outLines f @ done\<rparr> \<and> rows = done @ csvPending w)"

lemma csvWrite_holds:
  assumes "\<And>ls l. \<not> outRefuses f ls l" and "csvHolds f rows w"
  shows "\<exists>w'. csvWrite row w = (Inr (), w') \<and> csvHolds f (rows @ [row]) w'"
proof -
  from assms(2) obtain sent where w: "\<not> csvFailed w" "csvOut w = f\<lparr>outLines := outLines f @ sent\<rparr>" "rows = sent @ csvPending w"
    by (auto simp: csvHolds_def)
  let ?rows = "csvPending w @ [row]" and ?n = "outSpills (csvOut w) (outLines (csvOut w)) (csvPending w @ [row])"
  have "handOver (take ?n ?rows) (csvOut w) = (Inr (), (csvOut w)\<lparr>outLines := outLines (csvOut w) @ take ?n ?rows\<rparr>)"
    using assms(1) w(2) by (intro handOver_all) simp
  then have "csvWrite row w = (Inr (), w\<lparr>csvOut := f\<lparr>outLines := outLines f @ sent @ take ?n ?rows\<rparr>, csvPending := drop ?n ?rows\<rparr>)"
    using w(1,2) by (simp add: csvWrite_def Let_def)
  moreover have "rows @ [row] = (sent @ take ?n ?rows) @ drop ?n ?rows" by (simp only: w(3) append_assoc append_take_drop_id)
  ultimately show ?thesis using w(1) unfolding csvHolds_def
    by (intro exI [of _ "sent @ take ?n ?rows"] exI conjI) (assumption, simp_all del: take_append drop_append)
qed

lemma csvFlush_holds:
  assumes "\<And>ls l. \<not> outRefuses f ls l" and "csvHolds f rows w"
  shows "csvFlush w = f\<lparr>outLines := outLines f @ rows\<rparr>"
  using assms handOver_all [of "csvOut w" "csvPending w"] by (auto simp: csvHolds_def csvFlush_def)

lemma csv_rows:
  assumes "\<And>ls l. \<not> outRefuses f ls l" and "csvHolds f rows w"
    and "\<And>x w. x \<in> set xs \<Longrightarrow> fst (csvWrite (g x) w) = Inr () \<Longrightarrow> m x w = csvWrite (g x) w"
  shows "\<exists>w'. forEach m xs w = (Inr (), w') \<and> csvHolds f (rows @ map g xs) w'"
  using assms(2,3)
proof (induction xs arbitrary: rows w)
  case (Cons x xs)
  from csvWrite_holds [OF assms(1) Cons.prems(1)] obtain w1 where w1: "csvWrite (g x) w = (Inr (), w1)" "csvHolds f (rows @ [g x]) w1" by blast
  with Cons.prems(2) [of x w] have "m x w = (Inr (), w1)" by simp
  with Cons.IH [OF w1(2) Cons.prems(2)] show ?case by (auto simp: bnd_def)
qed (simp add: ret_def)

lemma csv_report:
  assumes "\<And>ls l. \<not> outRefuses f ls l"
    and "\<And>x w. x \<in> set xs \<Longrightarrow> fst (csvWrite (g x) w) = Inr () \<Longrightarrow> m x w = csvWrite (g x) w"
  shows "withCsv (forEach m xs) f = (Inr (), f\<lparr>outLines := outLines f @ map g xs\<rparr>)"
proof -
  have "csvHolds f [] \<lparr>csvOut = f, csvPending = [], csvFailed = False\<rparr>" by (simp add: csvHolds_def)
  from csv_rows [where xs = xs and g = g and m = m, OF assms(1) this assms(2)] csvFlush_holds [OF assms(1)]
  show ?thesis by (auto simp: withCsv_def)
qed

lemma wrapErr_write: "fst (m w) = Inr () \<Longrightarrow> wrapErr msg m w = m w" for m :: "('s, unit) gom"
  by (auto simp: wrapErr_def split: prod.split)

lemma csv_all:
  assumes "\<And>ls l. \<not> outRefuses f ls l"
  shows "withCsv (forEach (\<lambda>x. wrapErr msg (csvWrite (g x))) xs) f = (Inr (), f\<lparr>outLines := outLines f @ map g xs\<rparr>)"
  using assms wrapErr_write [where m = "csvWrite _"] by (rule csv_report)

text \<open>
  A report that fits into the buffer, on a file that takes no row: no row arrives and no error
  is returned.
\<close>

lemma csv_rows_lost:
  assumes "\<And>ls rows. outSpills f ls rows = 0" and "\<And>ls l. outRefuses f ls l"
  shows "withCsv (forEach (\<lambda>x. wrapErr msg (csvWrite (g x))) xs) f = (Inr (), f)"
proof -
  have "\<exists>w'. forEach (\<lambda>x. wrapErr msg (csvWrite (g x))) xs w = (Inr (), w') \<and> \<not> csvFailed w' \<and> csvOut w' = f"
    if "\<not> csvFailed w" "csvOut w = f" for w
    using that
  proof (induction xs arbitrary: w)
    case (Cons x xs)
    have "csvWrite (g x) w = (Inr (), w\<lparr>csvOut := f, csvPending := csvPending w @ [g x]\<rparr>)"
      using Cons.prems assms(1) by (simp add: csvWrite_def)
    with Cons.IH [of "w\<lparr>csvOut := f, csvPending := csvPending w @ [g x]\<rparr>"] Cons.prems show ?case
      by (simp add: bnd_def wrapErr_def)
  qed (simp add: ret_def)
  from this [of "\<lparr>csvOut = f, csvPending = [], csvFailed = False\<rparr>"] obtain w' where
    w': "forEach (\<lambda>x. wrapErr msg (csvWrite (g x))) xs \<lparr>csvOut = f, csvPending = [], csvFailed = False\<rparr> = (Inr (), w')"
    "\<not> csvFailed w'" "csvOut w' = f" by auto
  have "snd (handOver rows f) = f" for rows using assms(2) by (cases rows) simp_all
  with w' show ?thesis by (simp add: withCsv_def csvFlush_def)
qed

text \<open>A callback that folds the objects it is given, as long as they are good.\<close>

lemma decode_fold:
  fixes cb :: "robj \<Rightarrow> ('c, bool) gom"
  assumes "acceptsOptions env (settingsOf options)"
    and run: "coreDecoder (envParseFloat env) (globalMetaOpt (settingsOf options)) collect (newDecoder inp, []) = (Inr (), (d, objs))"
    and good: "\<forall>obj \<in> set objs. passes env (settingsOf options) obj \<longrightarrow> Good obj"
    and step: "\<And>objs obj. Good obj \<Longrightarrow> cb obj (h objs) = (Inr True, h (objs @ [obj]))"
  shows "\<exists>dec. wrapDecoder env (coreDecoder (envParseFloat env)) options = Inr dec \<and>
    dec cb (newDecoder inp, h []) = (Inr (), (d, h (filter (passes env (settingsOf options)) objs)))"
proof -
  let ?cfg = "\<lambda>special. \<lparr>withSpecialOpCode = special, withSpecialTypes = \<lambda>_. None :: (int \<Rightarrow> unit handler) option\<rparr>"
  have core: "coreDecoder (envParseFloat env) = (\<lambda>special. Parse (envParseFloat env) (?cfg special))"
    by (rule ext) (simp add: coreDecoder_def)
  obtain dec :: "(robj, 'c) parser" where
    dec: "wrapDecoder env (coreDecoder (envParseFloat env)) options = Inr dec"
    using wrapDecoder_accepts [OF assms(1)] by blast
  have "dec cb (newDecoder inp, h []) = (Inr (), (d, h (filter (passes env (settingsOf options)) objs)))"
    using dec run good step unfolding core coreDecoder_def by (rule wrapDecoder_fold_on)
  with dec show ?thesis by blast
qed

lemma decodeFile_fold:
  fixes cb :: "robj \<Rightarrow> ('c, bool) gom"
  assumes "fs rdbFilename = Some inp" "acceptsOptions env (settingsOf options)"
    and "coreDecoder (envParseFloat env) (globalMetaOpt (settingsOf options)) collect (newDecoder inp, []) = (Inr (), (d, objs))"
    and step: "\<And>objs obj. cb obj (h objs) = (Inr True, h (objs @ [obj]))"
  shows "decodeFile env fs rdbFilename options cb (h []) = Inr (h (filter (passes env (settingsOf options)) objs))"
proof -
  obtain dec where "wrapDecoder env (coreDecoder (envParseFloat env)) options = Inr dec"
    "dec cb (newDecoder inp, h []) = (Inr (), (d, h (filter (passes env (settingsOf options)) objs)))"
    using decode_fold [of env options inp d objs "\<lambda>_. True" cb h] assms by auto
  with assms(1) show ?thesis by (simp add: decodeFile_def)
qed

definition bigKeyHeader :: out_line where
  "bigKeyHeader = RawLine (strlit ''database,key,type,size,size_readable,element_count'')"

lemma FindBiggestKeys_report:
  assumes name: "rdbFilename \<noteq> []" and n: "0 < topN" and "fs rdbFilename = Some inp"
    and "acceptsOptions env (settingsOf options)"
    and "coreDecoder (envParseFloat env) (globalMetaOpt (settingsOf options)) collect (newDecoder inp, []) = (Inr (), (d, objs))"
    and f: "\<And>ls l. \<not> outRefuses f ls l"
  shows "FindBiggestKeys env fs rdbFilename topN options f = (Inr (), f\<lparr>outLines := outLines f @ bigKeyHeader #
    map bigKeyRow (take (nat topN) (descending GetSize (rev (filter (passes env (settingsOf options)) objs))))\<rparr>)"
proof -
  let ?h = "added (topAdd GetSize) (newToplist topN)"
  let ?objs = "filter (passes env (settingsOf options)) objs"
  have n0: "0 \<le> topN" using n by simp
  have "decodeFile env fs rdbFilename options (addCallback (topAdd GetSize)) (?h []) = Inr (?h ?objs)"
    using assms(3-5) top.added_step [OF n0] by (rule decodeFile_fold)
  then have "decodeFile env fs rdbFilename options (addCallback (topAdd GetSize)) (newToplist topN) = Inr (?h ?objs)"
    by simp
  with name n f show ?thesis
    by (simp add: FindBiggestKeys_def bnd_def outWrite_def csv_all top.added_items [OF n0] bigKeyHeader_def)
qed

definition hotEntry :: "robj \<Rightarrow> robj hotKeyEntry" where
  "hotEntry obj = \<lparr>hotObject = obj, hotFreq = GetFreq obj\<rparr>"

definition hotKeyHeader :: out_line where
  "hotKeyHeader = RawLine (strlit ''database,key,type,size,size_readable,freq'')"

lemma FindHotKeys_report:
  assumes name: "rdbFilename \<noteq> []" and n: "0 < topN" and "fs rdbFilename = Some inp"
    and "acceptsOptions env (settingsOf options)"
    and "coreDecoder (envParseFloat env) (globalMetaOpt (settingsOf options)) collect (newDecoder inp, []) = (Inr (), (d, objs))"
    and f: "\<And>ls l. \<not> outRefuses f ls l"
  shows "FindHotKeys env fs rdbFilename topN options f = (Inr (), f\<lparr>outLines := outLines f @ hotKeyHeader #
    map hotKeyRow (take (nat topN) (descending hotFreq (rev (map hotEntry
      (filter (\<lambda>obj. 0 \<le> GetFreq obj) (filter (passes env (settingsOf options)) objs))))))\<rparr>)"
proof -
  let ?h = "\<lambda>objs. added hotAdd (newHotKeyList topN) (map hotEntry (filter (\<lambda>obj. 0 \<le> GetFreq obj) objs))"
  let ?objs = "filter (passes env (settingsOf options)) objs"
  have n0: "0 \<le> topN" using n by simp
  have "hotCallback obj (?h objs) = (Inr True, ?h (objs @ [obj]))" for objs obj
    by (simp add: hotCallback_def ret_def hotEntry_def [symmetric] hot.added_step [OF n0])
  with assms(3-5) have "decodeFile env fs rdbFilename options hotCallback (?h []) = Inr (?h ?objs)"
    by (rule decodeFile_fold)
  then have "decodeFile env fs rdbFilename options hotCallback (newHotKeyList topN) = Inr (?h ?objs)" by simp
  with name n f show ?thesis
    by (simp add: FindHotKeys_def bnd_def outWrite_def csv_all hot.added_items [OF n0] hotKeyHeader_def)
qed

text \<open>A file with two keys, for the examples.\<close>

lemma two_key_file:
  "\<exists>inp d objs. coreDecoder (\<lambda>_. None) False collect (newDecoder inp, []) = (Inr (), (d, objs)) \<and>
    map viewOf objs = [(0, strlit ''a'', None, DataContent (StringVal (strlit ''1''))),
      (0, strlit ''b'', None, DataContent (StringVal (strlit ''2'')))]"
proof -
  let ?e = "newEncoder (\<lambda>_ _. None)"
  let ?blocks = "[((0, 2, 0), [(strlit ''a'', StringVal (strlit ''1''), []), (strlit ''b'', StringVal (strlit ''2''), [])])] :: db_block list"
  have f: "fresh ?e" by (simp add: fresh_def ready_newEncoder) (simp add: newEncoder_def)
  have ok: "file_ok (\<lambda>_. None) (\<lambda>_. []) ?e [] ?blocks"
    by (simp add: file_ok_def block_ok_def blockOps_def string_ok_def maxAlloc_def optionTTLs_def newEncoder_def strlit_def)
  obtain e' where run: "runOps (\<lambda>_. []) (OpHeader # fileOps [] ?blocks @ [OpEnd]) ?e = (Inr (), e')"
    using accepts_file [OF f ok] by (auto simp: callSeq_file)
  have "optionExpiration [] = None" by code_simp
  with file_roundtrip [OF _ _ _ file_ok_ops [OF ok] run, of "\<lparr>withSpecialOpCode = False,
      withSpecialTypes = \<lambda>_. None :: (int \<Rightarrow> unit handler) option\<rparr>"] f
  show ?thesis
    by (intro exI [of _ "out e'"]) (auto simp: fresh_def coreDecoder_def fileOps_def blockOps_def)
qed

subsection \<open>Properties\<close>

text \<open>
  C17: the bounded list implements its specification: after any sequence of additions it
  holds the first elements of everything added, sorted by size with the largest first and,
  among equal sizes, the latest first; the bisection, the shifting copy and the truncation
  after every addition lose nothing that belongs to the result.
\<close>

theorem top_list_refines:
  assumes "0 \<le> n"
  shows "\<exists>tl'. addAll (topAdd size_of) xs (newToplist n) = Inr tl' \<and> topCapacity tl' = n \<and>
    topItems tl' = take (nat n) (descending size_of (rev xs))"
  using assms by (rule top.all_added)

theorem top_list_refines_witness:
  "\<exists>tl'. addAll (topAdd fst) [(3 :: int, CHR ''a''), (1, CHR ''b''), (3, CHR ''c'')] (newToplist 2) = Inr tl' \<and>
    topCapacity tl' = 2 \<and> topItems tl' = [(3, CHR ''c''), (3, CHR ''a'')]"
  using top_list_refines [of 2 fst "[(3 :: int, CHR ''a''), (1, CHR ''b''), (3, CHR ''c'')]"]
  by (simp add: descending_def)

text \<open>
  The report of the biggest keys of a file that parses is the header and, in
  descending order of size, the rows of the largest objects that pass the filters, at
  most as many as asked for.
\<close>

theorem biggest_keys_report:
  assumes "rdbFilename \<noteq> []" and "0 < topN" and "fs rdbFilename = Some inp"
    and "acceptsOptions env (settingsOf options)"
    and "coreDecoder (envParseFloat env) (globalMetaOpt (settingsOf options)) collect (newDecoder inp, []) = (Inr (), (d, objs))"
    and "\<And>ls l. \<not> outRefuses f ls l"
  shows "FindBiggestKeys env fs rdbFilename topN options f = (Inr (), f\<lparr>outLines := outLines f @ bigKeyHeader #
    map bigKeyRow (take (nat topN) (descending GetSize (rev (filter (passes env (settingsOf options)) objs))))\<rparr>)"
  using assms by (rule FindBiggestKeys_report)

theorem biggest_keys_report_witness:
  "\<exists>inp d objs. coreDecoder (\<lambda>_. None) False collect (newDecoder inp, []) = (Inr (), (d, objs)) \<and> length objs = 2 \<and>
     FindBiggestKeys \<lparr>compileRegex = \<lambda>_. None, nowNanos = 0, nowSeconds = 0, envParseFloat = \<lambda>_. None, envOutside = 0\<rparr> (\<lambda>_. Some inp) (strlit ''dump.rdb'') 1 []
       \<lparr>outLines = [], outRefuses = \<lambda>_ _. False, outSpills = \<lambda>_ _. 0\<rparr> = (Inr (),
       \<lparr>outLines = bigKeyHeader # map bigKeyRow (take 1 (descending GetSize (rev objs))), outRefuses = \<lambda>_ _. False, outSpills = \<lambda>_ _. 0\<rparr>)"
proof -
  let ?env = "\<lparr>compileRegex = \<lambda>_. None, nowNanos = 0, nowSeconds = 0, envParseFloat = \<lambda>_. None, envOutside = 0\<rparr>"
  have st: "settingsOf [] = \<lparr>regexOpt = None, noExpiredOpt = False, expirationOpt = [], sizeOpt = [], globalMetaOpt = False\<rparr>"
    by (simp add: settingsOf_def)
  have pass: "passes ?env (settingsOf []) obj" for obj :: robj
    by (simp add: passes_def passesRegex_def passesExpired_def passesExpiration_def passesSize_def st)
  obtain inp d objs where run: "coreDecoder (\<lambda>_. None) False collect (newDecoder inp, []) = (Inr (), (d, objs))"
    and v: "map viewOf objs = [(0, strlit ''a'', None, DataContent (StringVal (strlit ''1''))),
      (0, strlit ''b'', None, DataContent (StringVal (strlit ''2'')))]"
    by (rule exE [OF two_key_file], elim exE conjE) (rule that)
  have "length objs = 2" using arg_cong [OF v, of length] by simp
  moreover have "acceptsOptions ?env (settingsOf [])" by (simp add: acceptsOptions_def st)
  ultimately show ?thesis
    using biggest_keys_report [of "strlit ''dump.rdb''" 1 "\<lambda>_. Some inp" inp ?env "[]" d objs
      "\<lparr>outLines = [], outRefuses = \<lambda>_ _. False, outSpills = \<lambda>_ _. 0\<rparr>"] run
    by (intro exI [of _ inp] exI [of _ d] exI [of _ objs]) (simp add: pass [unfolded st] st strlit_def)
qed

text \<open>
  The report of the hottest keys lists the objects that carry a frequency and pass the
  filters, in descending order of frequency.
\<close>

theorem hot_keys_report:
  assumes "rdbFilename \<noteq> []" and "0 < topN" and "fs rdbFilename = Some inp"
    and "acceptsOptions env (settingsOf options)"
    and "coreDecoder (envParseFloat env) (globalMetaOpt (settingsOf options)) collect (newDecoder inp, []) = (Inr (), (d, objs))"
    and "\<And>ls l. \<not> outRefuses f ls l"
  shows "FindHotKeys env fs rdbFilename topN options f = (Inr (), f\<lparr>outLines := outLines f @ hotKeyHeader #
    map hotKeyRow (take (nat topN) (descending hotFreq (rev (map hotEntry
      (filter (\<lambda>obj. 0 \<le> GetFreq obj) (filter (passes env (settingsOf options)) objs))))))\<rparr>)"
  using assms by (rule FindHotKeys_report)

theorem hot_keys_report_witness:
  "\<exists>inp d objs. coreDecoder (\<lambda>_. None) False collect (newDecoder inp, []) = (Inr (), (d, objs)) \<and> length objs = 2 \<and>
     FindHotKeys \<lparr>compileRegex = \<lambda>_. None, nowNanos = 0, nowSeconds = 0, envParseFloat = \<lambda>_. None, envOutside = 0\<rparr> (\<lambda>_. Some inp) (strlit ''dump.rdb'') 1 []
       \<lparr>outLines = [], outRefuses = \<lambda>_ _. False, outSpills = \<lambda>_ _. 0\<rparr> = (Inr (),
       \<lparr>outLines = hotKeyHeader # map hotKeyRow (take 1 (descending hotFreq (rev (map hotEntry (filter (\<lambda>obj. 0 \<le> GetFreq obj) objs))))), outRefuses = \<lambda>_ _. False, outSpills = \<lambda>_ _. 0\<rparr>)"
proof -
  let ?env = "\<lparr>compileRegex = \<lambda>_. None, nowNanos = 0, nowSeconds = 0, envParseFloat = \<lambda>_. None, envOutside = 0\<rparr>"
  have st: "settingsOf [] = \<lparr>regexOpt = None, noExpiredOpt = False, expirationOpt = [], sizeOpt = [], globalMetaOpt = False\<rparr>"
    by (simp add: settingsOf_def)
  have pass: "passes ?env (settingsOf []) obj" for obj :: robj
    by (simp add: passes_def passesRegex_def passesExpired_def passesExpiration_def passesSize_def st)
  obtain inp d objs where run: "coreDecoder (\<lambda>_. None) False collect (newDecoder inp, []) = (Inr (), (d, objs))"
    and v: "map viewOf objs = [(0, strlit ''a'', None, DataContent (StringVal (strlit ''1''))),
      (0, strlit ''b'', None, DataContent (StringVal (strlit ''2'')))]"
    by (rule exE [OF two_key_file], elim exE conjE) (rule that)
  have "length objs = 2" using arg_cong [OF v, of length] by simp
  moreover have "acceptsOptions ?env (settingsOf [])" by (simp add: acceptsOptions_def st)
  ultimately show ?thesis
    using hot_keys_report [of "strlit ''dump.rdb''" 1 "\<lambda>_. Some inp" inp ?env "[]" d objs
      "\<lparr>outLines = [], outRefuses = \<lambda>_ _. False, outSpills = \<lambda>_ _. 0\<rparr>"] run
    by (intro exI [of _ inp] exI [of _ d] exI [of _ objs]) (simp add: pass [unfolded st] st strlit_def)
qed

end
