(* ===== verification/Radix.thy ===== *)
theory Radix
  imports TopList
begin

section \<open>The radix tree of the keys (helper/radix.go)\<close>

text \<open>
  The tree the prefix analysis is made on: a node has the bytes of its edge, the full word it
  stands for, whether a word ends there, and the number and the total size of the words below
  it.  \<open>holds\<close> is the specification: a node holds a list of words with their sizes.
\<close>

subsection \<open>The tree\<close>

datatype radixNode = RadixNode (nodePath: bytes) (nodeEnd: bool) (nodeChildren: "radixNode list")
  (nodeSize: int) (nodeCount: int) (nodeFull: bytes)

definition newRadixTree :: radixNode where
  "newRadixTree = RadixNode [] False [] 0 0 []"

fun commonPrefixLen :: "bytes \<Rightarrow> bytes \<Rightarrow> nat" where
  "commonPrefixLen (a # as) (b # bs) = (if a = b then Suc (commonPrefixLen as bs) else 0)"
| "commonPrefixLen _ _ = 0"

text \<open>The node is split in front of byte \<open>i\<close> of its path, if the path is longer.\<close>

definition splitNode :: "nat \<Rightarrow> radixNode \<Rightarrow> radixNode res" where
  "splitNode i node =
     (if i < length (nodePath node) then
        let newChild = RadixNode (drop i (nodePath node)) (nodeEnd node) (nodeChildren node)
              (nodeSize node) (nodeCount node) (nodeFull node);
            keep = int (length (nodeFull node)) - (int (length (nodePath node)) - int i)
        in if keep < 0 then Inl (GoPanic ''slice bounds out of range'')
           else Inr (RadixNode (take i (nodePath node)) False [newChild] (nodeSize node) (nodeCount node)
             (take (nat keep) (nodeFull node)))
      else Inr node)"

definition countIn :: "int \<Rightarrow> radixNode \<Rightarrow> radixNode" where
  "countIn sz node = RadixNode (nodePath node) (nodeEnd node) (nodeChildren node)
     (nodeSize node + sz) (nodeCount node + 1) (nodeFull node)"

definition setEnd :: "radixNode \<Rightarrow> radixNode" where
  "setEnd node = RadixNode (nodePath node) True (nodeChildren node) (nodeSize node) (nodeCount node) (nodeFull node)"

definition setChildren :: "radixNode list \<Rightarrow> radixNode \<Rightarrow> radixNode" where
  "setChildren cs node = RadixNode (nodePath node) (nodeEnd node) cs (nodeSize node) (nodeCount node) (nodeFull node)"

text \<open>The loop over the children; \<^verbatim>\<open>child.path[0]\<close> panics on an empty path.\<close>

fun findChild :: "byte \<Rightarrow> radixNode list \<Rightarrow> nat option res" where
  "findChild c [] = Inr None"
| "findChild c (child # cs) = (case nodePath child of
     [] \<Rightarrow> Inl (GoPanic ''index out of range'')
   | b # _ \<Rightarrow> if b = c then Inr (Some 0)
       else (case findChild c cs of Inl err \<Rightarrow> Inl err | Inr r \<Rightarrow> Inr (map_option Suc r)))"

lemma commonPrefixLen_le: "commonPrefixLen a b \<le> length a" "commonPrefixLen a b \<le> length b"
  by (induction a b rule: commonPrefixLen.induct) auto

lemma take_commonPrefixLen: "take (commonPrefixLen a b) a = take (commonPrefixLen a b) b"
  by (induction a b rule: commonPrefixLen.induct) auto

lemma commonPrefixLen_max:
  "commonPrefixLen a b < length a \<Longrightarrow> commonPrefixLen a b < length b \<Longrightarrow>
     a ! commonPrefixLen a b \<noteq> b ! commonPrefixLen a b"
  by (induction a b rule: commonPrefixLen.induct) auto

lemma countIn_sel [simp]:
  "nodePath (countIn sz n) = nodePath n" "nodeEnd (countIn sz n) = nodeEnd n"
  "nodeChildren (countIn sz n) = nodeChildren n" "nodeFull (countIn sz n) = nodeFull n"
  "nodeSize (countIn sz n) = nodeSize n + sz" "nodeCount (countIn sz n) = nodeCount n + 1"
  by (simp_all add: countIn_def)

lemma findChild_Some:
  "findChild c cs = Inr (Some k) \<Longrightarrow> k < length cs \<and> nodePath (cs ! k) \<noteq> [] \<and> hd (nodePath (cs ! k)) = c"
  by (induction cs arbitrary: k) (auto split: list.splits if_splits sum.splits)

lemma findChild_total:
  assumes "\<forall>c' \<in> set cs. nodePath c' \<noteq> []"
  obtains k where "findChild c cs = Inr (Some k)"
  | "findChild c cs = Inr None" and "c \<notin> (hd \<circ> nodePath) ` set cs"
proof -
  have "(\<exists>k. findChild c cs = Inr (Some k)) \<or> findChild c cs = Inr None \<and> c \<notin> (hd \<circ> nodePath) ` set cs"
    using assms by (induction cs) (auto split: list.splits sum.splits)
  with that show ?thesis by blast
qed

lemma splitNode_cases:
  assumes "splitNode i node = Inr n1"
  obtains "length (nodePath node) \<le> i" and "n1 = node"
  | "i < length (nodePath node)" and "nodePath n1 = take i (nodePath node)" and
      "nodeChildren n1 = [RadixNode (drop i (nodePath node)) (nodeEnd node) (nodeChildren node)
         (nodeSize node) (nodeCount node) (nodeFull node)]"
  using assms by (auto simp: splitNode_def Let_def split: if_splits)

lemma child_size:
  assumes "c \<in> set (nodeChildren node)"
  shows "size c < size node"
  using assms by (cases node) (auto dest: size_list_estimation' [where f = size, OF _ order_refl])

lemma insert_decreases:
  assumes "splitNode (commonPrefixLen word (nodePath node)) node = Inr n1"
    and "drop (commonPrefixLen word (nodePath node)) word \<noteq> []"
    and "findChild (hd (drop (commonPrefixLen word (nodePath node)) word)) (nodeChildren n1) = Inr (Some k)"
  shows "size (nodeChildren n1 ! k) < size node"
  using assms(1)
proof (cases rule: splitNode_cases)
  case 1
  with findChild_Some [OF assms(3)] child_size show ?thesis by (metis nth_mem)
next
  case 2
  with findChild_Some [OF assms(3)] have "hd (drop (commonPrefixLen word (nodePath node)) (nodePath node)) =
      hd (drop (commonPrefixLen word (nodePath node)) word)" by auto
  with 2(1) assms(2) commonPrefixLen_max [of word "nodePath node"] have False
    by (simp add: hd_drop_conv_nth)
  then show ?thesis ..
qed

text \<open>\<open>atRoot\<close> is the test \<^verbatim>\<open>node == root\<close>.\<close>

function insertNode :: "bool \<Rightarrow> bytes \<Rightarrow> int \<Rightarrow> bytes \<Rightarrow> radixNode \<Rightarrow> radixNode res" where
  "insertNode atRoot fullword sz word node =
     (let i = commonPrefixLen word (nodePath node) in
      case splitNode i node of
        Inl err \<Rightarrow> Inl err
      | Inr n1 \<Rightarrow>
          (let n2 = (if 0 < i \<or> atRoot then countIn sz n1 else n1);
               rest = drop i word
           in if rest = [] then Inr (setEnd n2)
              else case findChild (hd rest) (nodeChildren n2) of
                  Inl err \<Rightarrow> Inl err
                | Inr None \<Rightarrow> Inr (setChildren (nodeChildren n2 @ [RadixNode rest True [] sz 1 fullword]) n2)
                | Inr (Some k) \<Rightarrow>
                    (case insertNode False fullword sz rest (nodeChildren n2 ! k) of
                       Inl err \<Rightarrow> Inl err
                     | Inr child \<Rightarrow> Inr (setChildren ((nodeChildren n2)[k := child]) n2))))"
  by pat_completeness auto

termination
proof (relation "measure (\<lambda>(_, _, _, _, node). size node)", goal_cases)
  case 1
  then show ?case by simp
next
  case (2 atRoot fullword sz word node i n1 n2 rest r k)
  then have "nodeChildren n2 = nodeChildren n1" by simp
  with 2 insert_decreases [of word node n1 k] show ?case by simp
qed

declare insertNode.simps [simp del]

definition radixInsert :: "radixNode \<Rightarrow> bytes \<Rightarrow> int \<Rightarrow> radixNode res" where
  "radixInsert root word sz = insertNode True word sz word root"

lemma children_size: "sum_list (map size (nodeChildren node)) < size node"
proof (cases node)
  case (RadixNode p e cs s n full)
  have "sum_list (map size cs) \<le> size_list size cs" by (induction cs) auto
  with RadixNode show ?thesis by simp
qed

text \<open>The breadth-first walk, with a callback that may end it.\<close>

function traverseLoop ::
  "(radixNode \<Rightarrow> int \<Rightarrow> ('c, bool) gom) \<Rightarrow> (radixNode \<times> int) list \<Rightarrow> ('c, unit) gom"
where
  "traverseLoop cb [] s = ret () s"
| "traverseLoop cb ((node, depth) # queue) s = bnd (cb node depth)
     (\<lambda>go s'. if go then traverseLoop cb (queue @ map (\<lambda>child. (child, depth + 1)) (nodeChildren node)) s'
       else ret () s') s"
  by pat_completeness auto

termination
proof (relation "measure (\<lambda>(_, queue, _). sum_list (map (size \<circ> fst) queue))", goal_cases)
  case (2 cb node depth queue s go s')
  have "map (size \<circ> fst) (map (\<lambda>child. (child, depth + 1)) (nodeChildren node)) = map size (nodeChildren node)"
    by simp
  with children_size [of node] show ?case by (simp del: map_map)
qed simp

definition traverse :: "(radixNode \<Rightarrow> int \<Rightarrow> ('c, bool) gom) \<Rightarrow> radixNode \<Rightarrow> ('c, unit) gom" where
  "traverse cb root = traverseLoop cb [(root, 1)]"

subsection \<open>What a node holds\<close>

text \<open>
  The words are seen from the node: the bytes its ancestors stand for have been taken off.
  \<open>startsWith\<close> are the words a child is responsible for.
\<close>

definition startsWith :: "byte \<Rightarrow> (bytes \<times> int) list \<Rightarrow> (bytes \<times> int) list" where
  "startsWith c ws = filter (\<lambda>w. fst w \<noteq> [] \<and> hd (fst w) = c) ws"

definition below :: "nat \<Rightarrow> (bytes \<times> int) list \<Rightarrow> (bytes \<times> int) list" where
  "below n ws = map (apfst (drop n)) ws"

definition compact :: "radixNode \<Rightarrow> bool" where
  "compact node \<longleftrightarrow> nodePath node \<noteq> [] \<and> (nodeEnd node \<or> 2 \<le> length (nodeChildren node))"

fun holds :: "bytes \<Rightarrow> (bytes \<times> int) list \<Rightarrow> radixNode \<Rightarrow> bool" where
  "holds pre ws (RadixNode p e cs sz n full) \<longleftrightarrow>
     full = pre @ p \<and> (\<forall>w \<in> set ws. take (length p) (fst w) = p) \<and>
     sz = sum_list (map snd ws) \<and> n = int (length ws) \<and>
     (e \<longleftrightarrow> [] \<in> fst ` set (below (length p) ws)) \<and>
     distinct (map (hd \<circ> nodePath) cs) \<and>
     (\<forall>w \<in> set (below (length p) ws). fst w \<noteq> [] \<longrightarrow> hd (fst w) \<in> (hd \<circ> nodePath) ` set cs) \<and>
     (\<forall>c \<in> set cs. compact c \<and> startsWith (hd (nodePath c)) (below (length p) ws) \<noteq> [] \<and>
        holds full (startsWith (hd (nodePath c)) (below (length p) ws)) c)"

definition holdsChildren :: "bytes \<Rightarrow> (bytes \<times> int) list \<Rightarrow> radixNode list \<Rightarrow> bool" where
  "holdsChildren full bs cs \<longleftrightarrow> distinct (map (hd \<circ> nodePath) cs) \<and>
     (\<forall>w \<in> set bs. fst w \<noteq> [] \<longrightarrow> hd (fst w) \<in> (hd \<circ> nodePath) ` set cs) \<and>
     (\<forall>c \<in> set cs. compact c \<and> startsWith (hd (nodePath c)) bs \<noteq> [] \<and>
        holds full (startsWith (hd (nodePath c)) bs) c)"

lemma holds_iff:
  "holds pre ws node \<longleftrightarrow> nodeFull node = pre @ nodePath node \<and>
     (\<forall>w \<in> set ws. take (length (nodePath node)) (fst w) = nodePath node) \<and>
     nodeSize node = sum_list (map snd ws) \<and> nodeCount node = int (length ws) \<and>
     (nodeEnd node \<longleftrightarrow> [] \<in> fst ` set (below (length (nodePath node)) ws)) \<and>
     holdsChildren (nodeFull node) (below (length (nodePath node)) ws) (nodeChildren node)"
  by (cases node) (auto simp: holdsChildren_def)

declare holds.simps [simp del]

lemma holdsI:
  assumes "full = pre @ p" and "\<And>w. w \<in> set ws \<Longrightarrow> take (length p) (fst w) = p"
    and "sz = sum_list (map snd ws)" and "n = int (length ws)"
    and "e \<longleftrightarrow> [] \<in> fst ` set (below (length p) ws)" and "holdsChildren full (below (length p) ws) cs"
  shows "holds pre ws (RadixNode p e cs sz n full)"
  using assms by (subst holds_iff) simp

lemma startsWith_append [simp]: "startsWith c (ws @ vs) = startsWith c ws @ startsWith c vs"
  by (simp add: startsWith_def)

lemma startsWith_single [simp]: "startsWith c [w] = (if fst w \<noteq> [] \<and> hd (fst w) = c then [w] else [])"
  by (simp add: startsWith_def)

lemma below_append [simp]: "below n (ws @ vs) = below n ws @ below n vs"
  by (simp add: below_def)

lemma below_single [simp]: "below n [w] = [(drop n (fst w), snd w)]"
  by (simp add: below_def apfst_def map_prod_def split: prod.split)

lemma sum_below [simp]: "sum_list (map snd (below n ws)) = sum_list (map snd ws)"
  by (induction ws) (auto simp: below_def)

lemma length_below [simp]: "length (below n ws) = length ws"
  by (simp add: below_def)

lemma below_below [simp]: "below m (below n ws) = below (n + m) ws"
  by (induction ws) (auto simp: below_def add.commute)

lemma holdsChildren_end: "holdsChildren full bs cs \<Longrightarrow> holdsChildren full (bs @ [([], sz)]) cs"
  by (simp add: holdsChildren_def)

lemma startsWith_none: "holdsChildren full bs cs \<Longrightarrow> c \<notin> (hd \<circ> nodePath) ` set cs \<Longrightarrow> startsWith c bs = []"
  by (auto simp: holdsChildren_def startsWith_def filter_empty_conv)

lemma holds_leaf: "holds full [(w, sz)] (RadixNode w True [] sz 1 (full @ w))"
  by (subst holds_iff) (simp add: holdsChildren_def)

lemma holdsChildren_new:
  assumes h: "holdsChildren full bs cs" and new: "hd w \<notin> (hd \<circ> nodePath) ` set cs" and "w \<noteq> []"
  shows "holdsChildren full (bs @ [(w, sz)]) (cs @ [RadixNode w True [] sz 1 (full @ w)])"
proof -
  have "hd w \<noteq> hd (nodePath c)" if "c \<in> set cs" for c using new that by force
  with h startsWith_none [OF h new] assms(3) new holds_leaf [of full w sz] show ?thesis
    by (auto simp: holdsChildren_def compact_def)
qed

lemma holdsChildren_set:
  assumes h: "holdsChildren full bs cs" and k: "k < length cs" and w: "w \<noteq> []" "hd w = hd (nodePath (cs ! k))"
    and child: "holds full (startsWith (hd w) bs @ [(w, sz)]) child" "compact child" "hd (nodePath child) = hd w"
  shows "holdsChildren full (bs @ [(w, sz)]) (cs[k := child])"
proof -
  have heads: "map (hd \<circ> nodePath) (cs[k := child]) = map (hd \<circ> nodePath) cs"
    using k w child(3) by (simp add: map_update list_update_same_conv)
  then have image: "(hd \<circ> nodePath) ` set (cs[k := child]) = (hd \<circ> nodePath) ` set cs"
    by (metis list.set_map)
  have "hd w \<in> (hd \<circ> nodePath) ` set cs" using k w(2) by force
  then have covered: "\<forall>v \<in> set (bs @ [(w, sz)]). fst v \<noteq> [] \<longrightarrow> hd (fst v) \<in> (hd \<circ> nodePath) ` set cs"
    using h by (simp add: holdsChildren_def)
  have "compact c \<and> startsWith (hd (nodePath c)) (bs @ [(w, sz)]) \<noteq> [] \<and>
      holds full (startsWith (hd (nodePath c)) (bs @ [(w, sz)])) c" if "c \<in> set (cs[k := child])" for c
  proof -
    from that obtain j where j: "j < length cs" "c = cs[k := child] ! j" by (metis in_set_conv_nth length_list_update)
    show ?thesis
    proof (cases "j = k")
      case True
      with j child w k show ?thesis by simp
    next
      case False
      then have c: "c = cs ! j" using j by simp
      have "map (hd \<circ> nodePath) cs ! j \<noteq> map (hd \<circ> nodePath) cs ! k"
        using h False j(1) k unfolding holdsChildren_def by (metis length_map nth_eq_iff_index_eq)
      then have "hd (nodePath c) \<noteq> hd w" using c w(2) j(1) k by simp
      moreover have "c \<in> set cs" using c j(1) by simp
      ultimately show ?thesis using h by (auto simp: holdsChildren_def)
    qed
  qed
  with h covered show ?thesis unfolding holdsChildren_def heads image by blast
qed

lemma below_prefixed:
  assumes "\<forall>w \<in> set ws. take (length p) (fst w) = p" and "v \<in> set (below i ws)" and "i < length p"
  shows "fst v \<noteq> [] \<and> hd (fst v) = hd (drop i p) \<and> take (length p - i) (fst v) = drop i p"
proof -
  from assms(2) obtain w where w: "w \<in> set ws" "fst v = drop i (fst w)"
    by (auto simp: below_def apfst_def map_prod_def split: prod.splits)
  with assms(1) have p: "take (length p) (fst w) = p" by blast
  then have "take (length p - i) (fst v) = drop i p" using w(2) by (metis drop_take)
  moreover have "drop i p \<noteq> []" using assms(3) by simp
  ultimately show ?thesis by (metis hd_take take_eq_Nil gr0I)
qed

lemma holdsChildren_split:
  assumes h: "holds pre ws node" and i: "i < length (nodePath node)" and "ws \<noteq> []" and "compact node"
  shows "holdsChildren (pre @ take i (nodePath node)) (below i ws)
    [RadixNode (drop i (nodePath node)) (nodeEnd node) (nodeChildren node) (nodeSize node) (nodeCount node) (nodeFull node)]"
    (is "holdsChildren ?full ?bs [?child]")
proof -
  let ?p = "nodePath node"
  note parts = h [unfolded holds_iff]
  have bs: "fst v \<noteq> [] \<and> hd (fst v) = hd (drop i ?p) \<and> take (length ?p - i) (fst v) = drop i ?p" if "v \<in> set ?bs" for v
    using below_prefixed [OF _ that i] parts by blast
  then have "startsWith (hd (drop i ?p)) ?bs = ?bs" by (simp add: startsWith_def)
  moreover have "?bs \<noteq> []" using assms(3) by (simp add: below_def)
  moreover have "holds ?full ?bs ?child"
  proof (subst holds_iff, simp only: radixNode.sel, intro conjI)
    show "nodeFull node = ?full @ drop i ?p" using parts by simp
    show "\<forall>w \<in> set ?bs. take (length (drop i ?p)) (fst w) = drop i ?p" using bs by simp
  qed (use parts i in auto)
  ultimately show ?thesis using bs i assms(4) by (simp add: holdsChildren_def compact_def)
qed

lemma insertNode_holds:
  assumes "holds pre ws node" and "0 < commonPrefixLen word (nodePath node) \<or> atRoot"
    and "if atRoot then nodePath node = [] else compact node \<and> ws \<noteq> []"
  shows "\<exists>node'. insertNode atRoot (pre @ word) sz word node = Inr node' \<and> holds pre (ws @ [(word, sz)]) node' \<and>
    (if atRoot then nodePath node' = [] else compact node' \<and> hd (nodePath node') = hd (nodePath node))"
  using assms
proof (induction node arbitrary: atRoot pre ws word)
  case (RadixNode p e cs s n full)
  let ?node = "RadixNode p e cs s n full" and ?i = "commonPrefixLen word p"
  note parts = RadixNode.prems(1) [unfolded holds_iff, simplified]
  have pre: "take ?i word = take ?i p" by (rule take_commonPrefixLen)
  have il: "?i \<le> length word" "?i \<le> length p" by (rule commonPrefixLen_le)+
  show ?case
  proof (cases "?i < length p")
    case True
    then have root: "\<not> atRoot" using RadixNode.prems(3) by (auto split: if_splits)
    then have i: "0 < ?i" and c: "compact ?node" "ws \<noteq> []" using RadixNode.prems by auto
    note split = holdsChildren_split [OF RadixNode.prems(1) _ c(2) c(1), of ?i, simplified, OF True]
    let ?child = "RadixNode (drop ?i p) e cs s n full"
    have "\<not> int (length full) - (int (length p) - int ?i) < 0" using parts il by simp
    moreover have "take (nat (int (length full) - (int (length p) - int ?i))) full = pre @ take ?i p"
    proof -
      have "nat (int (length full) - (int (length p) - int ?i)) = length pre + ?i" using parts il by simp
      then show ?thesis using parts by simp
    qed
    ultimately have sp: "splitNode ?i ?node = Inr (RadixNode (take ?i p) False [?child] s n (pre @ take ?i p))"
      using True by (simp add: splitNode_def)
    have words: "take ?i (fst w) = take ?i p" if "w \<in> set (ws @ [(word, sz)])" for w
    proof (cases "w = (word, sz)")
      case False
      with that parts have "take (length p) (fst w) = p" by auto
      then have "take ?i (take (length p) (fst w)) = take ?i p" by simp
      then show ?thesis using il by (simp add: min_def split: if_splits)
    qed (simp add: pre)
    have not_end: "[] \<notin> fst ` set (below ?i ws)"
      using below_prefixed [OF _ _ True, of ws] parts by fastforce
    have hd1: "hd (take ?i p) = hd p" using i by simp
    have p1: "take ?i p \<noteq> []" using i il by auto
    have len: "length (take ?i p) = ?i" using il by simp
    have sums: "s + sz = sum_list (map snd (ws @ [(word, sz)]))" "n + 1 = int (length (ws @ [(word, sz)]))"
      using parts by simp_all
    show ?thesis
    proof (cases "drop ?i word = []")
      case True
      let ?new = "RadixNode (take ?i p) True [?child] (s + sz) (n + 1) (pre @ take ?i p)"
      have run: "insertNode atRoot (pre @ word) sz word ?node = Inr ?new"
        using sp i True by (simp add: insertNode.simps [of _ _ _ _ ?node] Let_def countIn_def setEnd_def)
      have "holds pre (ws @ [(word, sz)]) ?new"
        using words sums True holdsChildren_end [OF split, of sz] by (intro holdsI) (simp_all add: len del: length_take)
      then show ?thesis using run root hd1 p1 by (auto simp: compact_def)
    next
      case False
      let ?rest = "drop ?i word"
      let ?leaf = "RadixNode ?rest True [] sz 1 (pre @ word)"
      let ?new = "RadixNode (take ?i p) False [?child, ?leaf] (s + sz) (n + 1) (pre @ take ?i p)"
      have hd: "hd (drop ?i p) \<noteq> hd ?rest"
        using commonPrefixLen_max [of word p] False True by (simp add: hd_drop_conv_nth)
      have ne: "drop ?i p \<noteq> []" using True by simp
      have find: "findChild (hd ?rest) [?child] = Inr None"
        using hd ne by (cases "drop ?i p") auto
      have run: "insertNode atRoot (pre @ word) sz word ?node = Inr ?new"
        using sp i False find
        by (simp add: insertNode.simps [of _ _ _ _ ?node] Let_def countIn_def setChildren_def del: findChild.simps)
      have "pre @ take ?i p @ ?rest = pre @ word" using pre by (metis append_take_drop_id)
      then have "holdsChildren (pre @ take ?i p) (below ?i ws @ [(?rest, sz)]) [?child, ?leaf]"
        using holdsChildren_new [OF split, of ?rest sz] hd False by simp
      then have "holds pre (ws @ [(word, sz)]) ?new"
        using words sums not_end False by (intro holdsI) (simp_all add: len del: length_take)
      then show ?thesis using run root hd1 p1 by (auto simp: compact_def)
    qed
  next
    case False
    then have i: "?i = length p" using il by simp
    then have word: "word = p @ drop ?i word" using pre by (metis append_take_drop_id take_all order_refl)
    have sp: "splitNode ?i ?node = Inr ?node" using i by (simp add: splitNode_def)
    have cond: "0 < ?i \<or> atRoot" using RadixNode.prems(2) by simp
    have sums: "s + sz = sum_list (map snd (ws @ [(word, sz)]))" "n + 1 = int (length (ws @ [(word, sz)]))"
      using parts by simp_all
    have words: "take (length p) (fst w) = p" if "w \<in> set (ws @ [(word, sz)])" for w
      using that parts word by (metis Un_iff append_eq_conv_conj empty_iff fst_conv insert_iff list.set(1,2) set_append)
    have full0: "full = pre @ p" using parts by simp
    have hc: "holdsChildren full (below (length p) ws) cs" using parts by blast
    show ?thesis
    proof (cases "drop ?i word = []")
      case True
      let ?new = "RadixNode p True cs (s + sz) (n + 1) full"
      have run: "insertNode atRoot (pre @ word) sz word ?node = Inr ?new"
        using sp cond True by (simp add: insertNode.simps [of _ _ _ _ ?node] Let_def countIn_def setEnd_def)
      have "holds pre (ws @ [(word, sz)]) ?new"
        using words sums True full0 parts holdsChildren_end [OF hc, of sz]
        by (intro holdsI) (simp_all add: i [symmetric])
      then show ?thesis using run RadixNode.prems(3) by (auto simp: compact_def)
    next
      case rest: False
      let ?rest = "drop ?i word"
      have full: "pre @ word = full @ ?rest" using parts word by (metis append.assoc)
      have "\<forall>c' \<in> set cs. nodePath c' \<noteq> []" using hc by (simp add: holdsChildren_def compact_def)
      then consider k where "findChild (hd ?rest) cs = Inr (Some k)"
        | "findChild (hd ?rest) cs = Inr None" "hd ?rest \<notin> (hd \<circ> nodePath) ` set cs"
        by (rule findChild_total)
      then show ?thesis
      proof cases
        case 1
        note k = findChild_Some [OF this]
        then have mem: "cs ! k \<in> set cs" by simp
        let ?ws = "startsWith (hd ?rest) (below (length p) ws)"
        have child: "holds full ?ws (cs ! k)" "compact (cs ! k)" "?ws \<noteq> []"
          using hc mem k unfolding holdsChildren_def by metis+
        have "0 < commonPrefixLen ?rest (nodePath (cs ! k))"
          using rest k by (cases ?rest; cases "nodePath (cs ! k)") auto
        with RadixNode.IH [OF mem child(1), of ?rest False] child obtain c' where
          c': "insertNode False (full @ ?rest) sz ?rest (cs ! k) = Inr c'"
            "holds full (?ws @ [(?rest, sz)]) c'" "compact c'" "hd (nodePath c') = hd (nodePath (cs ! k))" by auto
        let ?new = "RadixNode p e (cs[k := c']) (s + sz) (n + 1) full"
        have run: "insertNode atRoot (pre @ word) sz word ?node = Inr ?new"
          using sp cond rest 1 c'(1) full
          by (simp add: insertNode.simps [of _ _ _ _ ?node] Let_def countIn_def setChildren_def)
        have "holdsChildren full (below (length p) ws @ [(?rest, sz)]) (cs[k := c'])"
          using hc k rest c' by (intro holdsChildren_set) auto
        then have "holds pre (ws @ [(word, sz)]) ?new"
          using words sums rest full0 parts by (intro holdsI) (simp_all add: i [symmetric])
        then show ?thesis using run RadixNode.prems(3) by (auto simp: compact_def)
      next
        case 2
        let ?new = "RadixNode p e (cs @ [RadixNode ?rest True [] sz 1 (full @ ?rest)]) (s + sz) (n + 1) full"
        have run: "insertNode atRoot (pre @ word) sz word ?node = Inr ?new"
          using sp cond rest 2 full
          by (simp add: insertNode.simps [of _ _ _ _ ?node] Let_def countIn_def setChildren_def)
        have "holds pre (ws @ [(word, sz)]) ?new"
          using words sums rest full0 parts holdsChildren_new [OF hc 2(2) rest, of sz]
          by (intro holdsI) (simp_all add: i [symmetric])
        then show ?thesis using run RadixNode.prems(3) by (auto simp: compact_def)
      qed
    qed
  qed
qed

subsection \<open>What the nodes of a tree say about its words\<close>

fun nodesOf :: "radixNode \<Rightarrow> radixNode list" where
  "nodesOf (RadixNode p e cs sz n full) = RadixNode p e cs sz n full # concat (map nodesOf cs)"

definition withPrefix :: "bytes \<Rightarrow> (bytes \<times> int) list \<Rightarrow> (bytes \<times> int) list" where
  "withPrefix q ws = filter (\<lambda>w. take (length q) (fst w) = q) ws"

definition describes :: "(bytes \<times> int) list \<Rightarrow> radixNode \<Rightarrow> bool" where
  "describes ws n \<longleftrightarrow> nodeSize n = sum_list (map snd (withPrefix (nodeFull n) ws)) \<and>
     nodeCount n = int (length (withPrefix (nodeFull n) ws)) \<and> (nodeEnd n \<longleftrightarrow> nodeFull n \<in> fst ` set ws)"

lemma nodesOf_iff: "n \<in> set (nodesOf node) \<longleftrightarrow> n = node \<or> (\<exists>c \<in> set (nodeChildren node). n \<in> set (nodesOf c))"
  by (cases node) auto

text \<open>\<open>responsible\<close>: the words a node holds are those of the whole list with the prefix \<open>q\<close>,
  which lies between the words of its parent and its own.\<close>

definition responsible :: "(bytes \<times> int) list \<Rightarrow> bytes \<Rightarrow> bytes \<Rightarrow> radixNode \<Rightarrow> bool" where
  "responsible ws q pre node \<longleftrightarrow> holds pre (below (length pre) (withPrefix q ws)) node \<and>
     take (length pre) q = pre \<and> take (length q) (pre @ nodePath node) = q"

lemma take_prefix: "take (length q) r = q \<Longrightarrow> take (length r) w = r \<Longrightarrow> take (length q) w = q"
  by (metis take_take min.absorb1 nat_le_linear take_all)

lemma responsible_words:
  assumes "responsible ws q pre node"
  shows "withPrefix q ws = withPrefix (nodeFull node) ws" "nodeFull node = pre @ nodePath node"
proof -
  let ?p = "nodePath node"
  from assms have h: "holds pre (below (length pre) (withPrefix q ws)) node" "take (length pre) q = pre"
    "take (length q) (pre @ ?p) = q" by (auto simp: responsible_def)
  note parts = h(1) [unfolded holds_iff]
  show full: "nodeFull node = pre @ ?p" using parts by blast
  have "take (length (pre @ ?p)) (fst w) = pre @ ?p" if "w \<in> set ws" "take (length q) (fst w) = q" for w
  proof -
    from that have "(drop (length pre) (fst w), snd w) \<in> set (below (length pre) (withPrefix q ws))"
      by (force simp: below_def withPrefix_def apfst_def map_prod_def split: prod.splits)
    with parts have "take (length ?p) (drop (length pre) (fst w)) = ?p" by fastforce
    moreover have "take (length pre) (fst w) = pre" using take_prefix [OF h(2) that(2)] .
    ultimately show ?thesis by (simp add: take_add)
  qed
  moreover have "take (length q) (fst w) = q" if "take (length (pre @ ?p)) (fst w) = pre @ ?p" for w :: "bytes \<times> int"
    using take_prefix [OF h(3) that] .
  ultimately show "withPrefix q ws = withPrefix (nodeFull node) ws"
    unfolding withPrefix_def full by (intro filter_cong) auto
qed

lemma responsible_describes:
  assumes "responsible ws q pre node"
  shows "describes ws node"
proof -
  note words = responsible_words [OF assms]
  from assms have "holds pre (below (length pre) (withPrefix q ws)) node" by (simp add: responsible_def)
  note parts = this [unfolded holds_iff]
  have "nodeEnd node \<longleftrightarrow> [] \<in> fst ` set (below (length (nodeFull node)) (withPrefix (nodeFull node) ws))"
    using parts words by auto
  also have "\<dots> \<longleftrightarrow> nodeFull node \<in> fst ` set ws"
    by (force simp: below_def withPrefix_def apfst_def map_prod_def split: prod.splits)
  finally show ?thesis using parts words(1) by (simp add: describes_def)
qed

lemma prefix_snoc:
  "take (length f) w = f \<and> drop (length f) w \<noteq> [] \<and> hd (drop (length f) w) = b \<longleftrightarrow>
     take (length (f @ [b])) w = f @ [b]"
proof -
  have split: "take (length (f @ [b])) w = take (length f) w @ take 1 (drop (length f) w)"
    using take_add [of "length f" 1 w] by simp
  show ?thesis
  proof (cases "drop (length f) w")
    case Nil
    then have "length w \<le> length f" by simp
    then have "length (take (length (f @ [b])) w) \<noteq> length (f @ [b])" by simp
    with Nil show ?thesis by metis
  next
    case (Cons a v)
    then have "length (take (length f) w) = length f" by (metis drop_eq_Nil length_take list.simps(3) min_def nle_le)
    with Cons split show ?thesis by auto
  qed
qed

lemma responsible_child:
  assumes r: "responsible ws q pre node" and c: "c \<in> set (nodeChildren node)"
  shows "responsible ws (nodeFull node @ [hd (nodePath c)]) (nodeFull node) c \<and> compact c"
proof -
  let ?f = "nodeFull node" and ?b = "hd (nodePath c)"
  note words = responsible_words [OF r]
  from r have "holds pre (below (length pre) (withPrefix ?f ws)) node" by (simp add: responsible_def words(1))
  then have "holdsChildren ?f (below (length ?f) (withPrefix ?f ws)) (nodeChildren node)"
    using words(2) by (subst (asm) holds_iff) simp
  with c have h: "holds ?f (startsWith ?b (below (length ?f) (withPrefix ?f ws))) c" "compact c"
    by (auto simp: holdsChildren_def)
  have "startsWith ?b (below (length ?f) (withPrefix ?f ws)) = below (length ?f) (withPrefix (?f @ [?b]) ws)"
  proof -
    note eq = prefix_snoc [of ?f "fst w" ?b for w]
    show ?thesis unfolding withPrefix_def eq [symmetric]
      by (simp add: startsWith_def below_def filter_map o_def conj_commute conj_left_commute del: drop_eq_Nil)
  qed
  moreover have "take (Suc 0) (nodePath c) = [?b]" using h(2) by (cases "nodePath c") (auto simp: compact_def)
  ultimately show ?thesis using h by (simp add: responsible_def)
qed

lemma responsible_nodes:
  assumes "responsible ws q pre node" and "n \<in> set (nodesOf node)"
  shows "describes ws n \<and> take (length (nodeFull node)) (nodeFull n) = nodeFull node \<and> (n = node \<or> compact n)"
  using assms
proof (induction node arbitrary: q pre)
  case (RadixNode p e cs sz k full)
  show ?case
  proof (cases "n = RadixNode p e cs sz k full")
    case True
    with responsible_describes [OF RadixNode.prems(1)] show ?thesis by simp
  next
    case False
    with RadixNode.prems(2) obtain c where c: "c \<in> set cs" "n \<in> set (nodesOf c)" by auto
    with responsible_child [OF RadixNode.prems(1), of c]
    have r: "responsible ws (full @ [hd (nodePath c)]) full c" "compact c" by simp_all
    from RadixNode.IH [OF c(1) r(1) c(2)] have ih: "describes ws n" "n = c \<or> compact n"
      "take (length (nodeFull c)) (nodeFull n) = nodeFull c" by auto
    have "take (length full) (nodeFull c) = full" using responsible_words(2) [OF r(1)] by simp
    from take_prefix [OF this ih(3)] ih(1,2) r(2) show ?thesis by auto
  qed
qed

lemma responsible_complete:
  assumes "responsible ws q pre node" and "w \<in> set (withPrefix q ws)"
  shows "\<exists>n \<in> set (nodesOf node). nodeEnd n \<and> nodeFull n = fst w"
  using assms
proof (induction node arbitrary: q pre)
  case (RadixNode p e cs sz k full)
  note words = responsible_words [OF RadixNode.prems(1), simplified]
  have w: "w \<in> set ws" "take (length full) (fst w) = full"
    using RadixNode.prems(2) unfolding words(1) by (simp_all add: withPrefix_def)
  show ?case
  proof (cases "fst w = full")
    case True
    with responsible_describes [OF RadixNode.prems(1)] w(1) show ?thesis by (auto simp: describes_def)
  next
    case False
    let ?v = "drop (length full) (fst w)"
    from False w(2) have v: "?v \<noteq> []" by (metis append.right_neutral append_take_drop_id)
    from RadixNode.prems(1) have "holds pre (below (length pre) (withPrefix full ws)) (RadixNode p e cs sz k full)"
      by (simp add: responsible_def words(1))
    then have "holdsChildren full (below (length full) (withPrefix full ws)) cs"
      using words(2) by (subst (asm) holds_iff) simp
    moreover have "(?v, snd w) \<in> set (below (length full) (withPrefix full ws))"
      using w by (force simp: below_def withPrefix_def apfst_def map_prod_def split: prod.splits)
    ultimately have "hd ?v \<in> (hd \<circ> nodePath) ` set cs" using v unfolding holdsChildren_def by (metis fst_conv)
    then obtain c where c: "c \<in> set cs" "hd ?v = hd (nodePath c)" by auto
    have "w \<in> set (withPrefix (full @ [hd (nodePath c)]) ws)"
      using prefix_snoc [of full "fst w" "hd ?v"] w v c(2) by (simp add: withPrefix_def)
    with RadixNode.IH [OF c(1)] responsible_child [OF RadixNode.prems(1), of c] c(1)
    obtain n where "n \<in> set (nodesOf c)" "nodeEnd n" "nodeFull n = fst w" by (metis radixNode.sel(3,6))
    with c(1) show ?thesis by auto
  qed
qed

lemma responsible_distinct:
  assumes "responsible ws q pre node"
  shows "distinct (map nodeFull (nodesOf node))"
  using assms
proof (induction node arbitrary: q pre)
  case (RadixNode p e cs sz k full)
  have child: "responsible ws (full @ [hd (nodePath c)]) full c" if "c \<in> set cs" for c
    using responsible_child [OF RadixNode.prems, of c] that by simp
  have starts: "take (length (full @ [hd (nodePath c)])) (nodeFull n) = full @ [hd (nodePath c)]"
    if "c \<in> set cs" "n \<in> set (nodesOf c)" for c n
  proof -
    from child [OF that(1)] have "take (length (full @ [hd (nodePath c)])) (nodeFull c) = full @ [hd (nodePath c)]"
      by (simp add: responsible_def responsible_words(2) [OF child [OF that(1)]])
    moreover have "take (length (nodeFull c)) (nodeFull n) = nodeFull c"
      using responsible_nodes [OF child [OF that(1)] that(2)] by blast
    ultimately show ?thesis by (rule take_prefix)
  qed
  have heads: "distinct (map (hd \<circ> nodePath) cs)"
    using RadixNode.prems unfolding responsible_def by (auto simp: holds.simps)
  have "distinct (concat (map (\<lambda>c. map nodeFull (nodesOf c)) ds))" if "set ds \<subseteq> set cs" "distinct (map (hd \<circ> nodePath) ds)" for ds
    using that
  proof (induction ds)
    case (Cons d ds)
    have "distinct (map nodeFull (nodesOf d))" using RadixNode.IH [OF _ child] Cons.prems(1) by auto
    moreover have "nodeFull n \<noteq> nodeFull m" if n: "n \<in> set (nodesOf d)" and c: "c \<in> set ds" "m \<in> set (nodesOf c)" for n c m
    proof
      assume "nodeFull n = nodeFull m"
      with starts [of d n] starts [of c m] n c Cons.prems(1) have "hd (nodePath d) = hd (nodePath c)" by auto
      with Cons.prems(2) c(1) show False by auto
    qed
    ultimately show ?case using Cons by auto
  qed simp
  from this [OF subset_refl heads] have "distinct (map nodeFull (concat (map nodesOf cs)))"
    by (simp add: map_concat o_def)
  moreover have "nodeFull n \<noteq> full" if "c \<in> set cs" "n \<in> set (nodesOf c)" for c n
    using starts [OF that] by auto
  ultimately show ?case by auto
qed

text \<open>A tree that words were inserted into, one after the other.\<close>

definition insertWord :: "bytes \<times> int \<Rightarrow> radixNode \<Rightarrow> radixNode res" where
  "insertWord w root = radixInsert root (fst w) (snd w)"

lemma inserted_holds:
  "\<exists>root. addAll insertWord ws newRadixTree = Inr root \<and> holds [] ws root \<and> nodePath root = []"
proof (induction ws rule: rev_induct)
  case Nil
  have "holds [] [] newRadixTree" unfolding newRadixTree_def by (rule holdsI) (simp_all add: holdsChildren_def below_def)
  then show ?case by (simp add: newRadixTree_def)
next
  case (snoc w ws)
  then obtain root where "addAll insertWord ws newRadixTree = Inr root" "holds [] ws root" "nodePath root = []" by blast
  with insertNode_holds [of "[]" ws root "fst w" True "snd w"] obtain root' where
    "insertWord w root = Inr root'" "holds [] (ws @ [w]) root'" "nodePath root' = []"
    by (auto simp: insertWord_def radixInsert_def)
  with \<open>addAll insertWord ws newRadixTree = Inr root\<close> show ?case by (simp add: addAll_snoc)
qed

lemma inserted_responsible:
  assumes "holds [] ws root" and "nodePath root = []"
  shows "responsible ws [] [] root" "nodeFull root = []"
proof -
  have "below 0 (withPrefix [] ws) = ws"
    by (induction ws) (auto simp: below_def withPrefix_def apfst_def map_prod_def)
  with assms show r: "responsible ws [] [] root" by (simp add: responsible_def)
  show "nodeFull root = []" using responsible_words(2) [OF r] assms(2) by simp
qed

subsection \<open>The order of the walk\<close>

definition childrenOf :: "radixNode list \<Rightarrow> radixNode list" where
  "childrenOf ns = concat (map nodeChildren ns)"

definition level :: "nat \<Rightarrow> radixNode \<Rightarrow> radixNode list" where
  "level d root = (childrenOf ^^ d) [root]"

lemma childrenOf_append [simp]: "childrenOf (a @ b) = childrenOf a @ childrenOf b"
  by (simp add: childrenOf_def)

lemma childrenOf_Nil [simp]: "childrenOf [] = []"
  by (simp add: childrenOf_def)

lemma nodesOf_self: "n \<in> set (nodesOf n)"
  by (cases n) simp

lemma nodesOf_child:
  "m \<in> set (nodesOf k) \<Longrightarrow> n \<in> set (nodeChildren m) \<Longrightarrow> n \<in> set (nodesOf k)"
proof (induction k)
  case (RadixNode p e cs s k f)
  then show ?case using nodesOf_self [of n] by auto
qed

lemma level_nodes: "n \<in> set (level d root) \<Longrightarrow> n \<in> set (nodesOf root)"
proof (induction d arbitrary: n)
  case 0
  then show ?case by (simp add: level_def nodesOf_self)
next
  case (Suc d)
  then obtain m where "m \<in> set (level d root)" "n \<in> set (nodeChildren m)"
    by (auto simp: level_def childrenOf_def)
  with Suc.IH nodesOf_child show ?case by blast
qed

lemma level_size: "n \<in> set (level d root) \<Longrightarrow> size n + d \<le> size root"
proof (induction d arbitrary: n)
  case (Suc d)
  then obtain m where "m \<in> set (level d root)" "n \<in> set (nodeChildren m)"
    by (auto simp: level_def childrenOf_def)
  with Suc.IH [of m] child_size [of n m] show ?case by simp
qed (simp add: level_def)

lemma level_ends: "level (size root) root = []"
proof -
  have "n \<notin> set (level (size root) root)" for n
    using level_size [of n "size root" root] by (cases n) auto
  then show ?thesis by (metis last_in_set)
qed

text \<open>A callback that goes on for a whole level of the queue.\<close>

lemma traverse_level:
  assumes "\<And>n xs. cb n dep (h xs) = (Inr True, h (xs @ sel n))"
  shows "traverseLoop cb (map (\<lambda>n. (n, dep)) as @ map (\<lambda>n. (n, dep + 1)) bs) (h xs) =
    traverseLoop cb (map (\<lambda>n. (n, dep + 1)) (bs @ childrenOf as)) (h (xs @ concat (map sel as)))"
proof (induction as arbitrary: bs xs)
  case (Cons a as)
  have "traverseLoop cb (map (\<lambda>n. (n, dep)) (a # as) @ map (\<lambda>n. (n, dep + 1)) bs) (h xs) =
      traverseLoop cb (map (\<lambda>n. (n, dep)) as @ map (\<lambda>n. (n, dep + 1)) (bs @ nodeChildren a)) (h (xs @ sel a))"
    by (simp add: assms bnd_def)
  also note Cons.IH
  finally show ?case by (simp add: childrenOf_def)
qed simp

text \<open>
  The nodes a walk reports: level by level, without the first two levels, up to the
  greatest depth.
\<close>

definition reported :: "int \<Rightarrow> radixNode \<Rightarrow> radixNode list" where
  "reported maxDepth root = concat (map (\<lambda>d. level d root) [2..<min (nat maxDepth) (size root)])"

lemma traverse_reports:
  assumes cb: "\<And>n dep xs. cb n dep (h xs) =
    (if maxDepth < dep then (Inr False, h xs) else (Inr True, h (if dep \<le> 2 then xs else xs @ [n])))"
  shows "traverse cb root (h []) = (Inr (), h (reported maxDepth root))"
proof -
  let ?m = "min (nat maxDepth) (size root)"
  have stop: "traverseLoop cb (map (\<lambda>n. (n, int ?m + 1)) (level ?m root)) (h xs) = (Inr (), h xs)" for xs
  proof (cases "level ?m root")
    case Nil
    then show ?thesis by (simp add: ret_def)
  next
    case (Cons n ns)
    then have "?m = nat maxDepth" using level_ends [of root] by (metis list.simps(3) min_def)
    then have "maxDepth < int ?m + 1" by linarith
    with Cons show ?thesis by (simp add: cb bnd_def ret_def)
  qed
  have "traverseLoop cb (map (\<lambda>n. (n, int d + 1)) (level d root)) (h xs) =
      (Inr (), h (xs @ concat (map (\<lambda>d. level d root) (filter (\<lambda>d. 2 \<le> d) [d..<?m]))))" if "d \<le> ?m" for d xs
    using that
  proof (induction "?m - d" arbitrary: d xs)
    case 0
    then have "d = ?m" by simp
    with stop show ?case by (simp del: min.bounded_iff)
  next
    case (Suc k)
    then have d: "d < ?m" by linarith
    then have "\<not> maxDepth < int d + 1" by auto
    then have "cb n (int d + 1) (h xs) = (Inr True, h (xs @ (if d < 2 then [] else [n])))" for n xs
      by (auto simp: cb)
    from traverse_level [of cb "int d + 1" h "\<lambda>n. if d < 2 then [] else [n]" "level d root" "[]" xs, OF this]
    have "traverseLoop cb (map (\<lambda>n. (n, int d + 1)) (level d root)) (h xs) =
      traverseLoop cb (map (\<lambda>n. (n, int d + 1 + 1)) (childrenOf (level d root)))
        (h (xs @ concat (map (\<lambda>n. if d < 2 then [] else [n]) (level d root))))" by simp
    moreover have "childrenOf (level d root) = level (Suc d) root" by (simp add: level_def)
    moreover have "concat (map (\<lambda>n. if d < 2 then [] else [n]) ns) = (if d < 2 then [] else ns)" for ns :: "radixNode list"
      by (induction ns) auto
    moreover have "k = ?m - Suc d" "Suc d \<le> ?m" using Suc.hyps(2) d by simp_all
    ultimately show ?case using Suc.hyps(1) [of "Suc d"] d by (simp add: upt_rec [of d] add.commute)
  qed
  from this [of 0 "[]"] have "traverse cb root (h []) =
      (Inr (), h (concat (map (\<lambda>d. level d root) (filter (\<lambda>d. 2 \<le> d) [0..<?m]))))"
    by (simp add: traverse_def level_def)
  moreover have "filter (\<lambda>d. 2 \<le> d) [0..<k] = [2..<k]" for k by (induction k) auto
  ultimately show ?thesis by (simp add: reported_def)
qed

end
