(* ===== verification/PrefixReport.thy ===== *)
theory PrefixReport
  imports Radix
begin

section \<open>The report of key prefixes (helper/prefix.go)\<close>

text \<open>
  Every key is put into the radix tree behind its database index and a blank; the report
  lists the largest nodes below the second level of the tree.  The tree is only as good as
  the assumption that the first two levels are the root and the databases: the last two
  properties say when the report is what it should be, and give databases for which it panics.
\<close>

subsection \<open>The keys of the tree\<close>

definition genKey :: "int \<Rightarrow> bytes \<Rightarrow> bytes" where
  "genKey db key = itoa db @ strlit '' '' @ key"

text \<open>\<^verbatim>\<open>strconv.Atoi\<close> with its error ignored: zero, or the nearest integer.\<close>

definition atoiValue :: "bytes \<Rightarrow> int" where
  "atoiValue s = (case parseInt 64 s of
     Some v \<Rightarrow> v
   | None \<Rightarrow>
       (let ds = (if take 1 s = strlit ''-'' \<or> take 1 s = strlit ''+'' then drop 1 s else s)
        in if ds = [] \<or> \<not> list_all isDigit ds then 0
           else if take 1 s = strlit ''-'' then - (2 ^ 63) else maxInt64))"

definition parseNodeKey :: "bytes \<Rightarrow> (int \<times> bytes) res" where
  "parseNodeKey key =
     (if key = [] then Inr (- 1, [])
      else case indexOf (strlit '' '') key of
          None \<Rightarrow> Inl (GoPanic ''slice bounds out of range'')
        | Some index \<Rightarrow>
            Inr (atoiValue (take index key), if index + 1 < length key then drop (index + 1) key else []))"

subsection \<open>The report\<close>

definition prefixCallback :: "robj \<Rightarrow> (radixNode, bool) gom" where
  "prefixCallback = addCallback (\<lambda>obj tree. radixInsert tree (genKey (GetDBIndex obj) (GetKey obj)) (GetSize obj))"

definition prefixVisit :: "int \<Rightarrow> radixNode \<Rightarrow> int \<Rightarrow> (radixNode topList, bool) gom" where
  "prefixVisit maxDepth node depth =
     (if maxDepth < depth then ret False
      else if depth \<le> 2 then ret True
      else addCallback (topAdd nodeSize) node)"

definition printNode :: "radixNode \<Rightarrow> (csv_writer, unit) gom" where
  "printNode node w = (case parseNodeKey (nodeFull node) of
     Inl err \<Rightarrow> (Inl err, w)
   | Inr (db, key) \<Rightarrow>
       csvWrite (CsvRow [itoa db, key, itoa (nodeSize node), FormatSize (of_int (nodeSize node)), itoa (nodeCount node)]) w)"

definition topLimit :: "int \<Rightarrow> int" where
  "topLimit topN = (if topN = 0 then maxInt64 else topN)"

definition depthLimit :: "int \<Rightarrow> int" where
  "depthLimit maxDepth = (if maxDepth = 0 then maxInt64 else sint (of_int (maxDepth + 2) :: u64))"

definition PrefixAnalyse ::
  "helper_env \<Rightarrow> (bytes \<Rightarrow> bytes option) \<Rightarrow> bytes \<Rightarrow> int \<Rightarrow> int \<Rightarrow> helper_option list \<Rightarrow> (out_file, unit) gom"
where
  "PrefixAnalyse env fs rdbFilename topN maxDepth options f =
     (if rdbFilename = [] then (Inl (Msg ''src file path is required''), f)
      else if topN < 0 then (Inl (Msg ''n must greater than 0''), f)
      else case decodeFile env fs rdbFilename options prefixCallback newRadixTree of
          Inl err \<Rightarrow> (Inl err, f)
        | Inr tree \<Rightarrow> (case traverse (prefixVisit (depthLimit maxDepth)) tree (newToplist (topLimit topN)) of
            (Inl err, _) \<Rightarrow> (Inl err, f)
          | (Inr _, tp) \<Rightarrow>
              bnd (outWrite ''write header failed'' (RawLine (strlit ''database,prefix,size,size_readable,key_count'')))
                (\<lambda>_. withCsv (forEach printNode (topItems tp))) f))"

subsection \<open>What the report says\<close>

definition objWord :: "robj \<Rightarrow> bytes \<times> int" where
  "objWord obj = (genKey (GetDBIndex obj) (GetKey obj), GetSize obj)"

definition smallDb :: "robj \<Rightarrow> bool" where
  "smallDb obj \<longleftrightarrow> 0 \<le> GetDBIndex obj \<and> GetDBIndex obj < 100"

definition prefixRow :: "(bytes \<times> int) list \<Rightarrow> bytes \<Rightarrow> out_line" where
  "prefixRow ws q = (let total = sum_list (map snd (withPrefix q ws)) in
     CsvRow [takeWhile (\<lambda>c. c \<noteq> 32) q, drop 1 (dropWhile (\<lambda>c. c \<noteq> 32) q),
       itoa total, FormatSize (of_int total), itoa (int (length (withPrefix q ws)))])"

definition prefixHeader :: out_line where
  "prefixHeader = RawLine (strlit ''database,prefix,size,size_readable,key_count'')"

lemma level_responsible:
  assumes "responsible ws [] [] root" and "n \<in> set (level d root)"
  shows "(\<exists>q pre. responsible ws q pre n) \<and> d \<le> length (nodeFull n) \<and> (d \<noteq> 0 \<longrightarrow> compact n)"
  using assms(2)
proof (induction d arbitrary: n)
  case 0
  with assms(1) show ?case by (auto simp: level_def)
next
  case (Suc d)
  then obtain m where m: "m \<in> set (level d root)" "n \<in> set (nodeChildren m)"
    by (auto simp: level_def childrenOf_def)
  from Suc.IH [OF m(1)] obtain q pre where r: "responsible ws q pre m" and d: "d \<le> length (nodeFull m)" by blast
  note c = responsible_child [OF r m(2)]
  have "nodeFull n = nodeFull m @ nodePath n" "nodePath n \<noteq> []"
    using responsible_words(2) c by (auto simp: compact_def)
  then have "Suc d \<le> length (nodeFull n)" using d by (cases "nodePath n") auto
  with c show ?case by blast
qed

lemma itoa_small: "0 \<le> db \<Longrightarrow> db < 100 \<Longrightarrow> length (itoa db) \<le> 2"
proof -
  assume "0 \<le> db" "db < 100"
  then have "nat db div 10 < 10" by simp
  with \<open>0 \<le> db\<close> show ?thesis
    by (cases "nat db < 10") (simp_all add: itoa_def digits_small digits_large del: of_nat_add)
qed

lemma blank_not_in_itoa: "32 \<notin> set (itoa db)"
proof -
  have "32 \<notin> set (digits n)" for n using list_all_digits [of n] by (auto simp: list_all_iff isDigit_def)
  then show ?thesis by (simp add: itoa_def)
qed

lemma indexOf_blank:
  "indexOf [32] s = (if 32 \<in> set s then Some (length (takeWhile (\<lambda>c. c \<noteq> 32) s)) else None)"
  by (induction s) (simp_all add: indexOf.simps)

text \<open>With databases of at most two digits every reported node lies within one database.\<close>

lemma genKey_prefix:
  assumes "0 \<le> db" "db < 100" and "take (length (q @ [b])) (genKey db key) = q @ [b]"
    and "32 \<notin> set q" and "2 \<le> length q"
  shows "b = 32"
proof -
  let ?i = "itoa db"
  have w: "genKey db key = ?i @ 32 # key" by (simp add: genKey_def strlit_def)
  have len: "length ?i \<le> 2" using assms(1,2) by (rule itoa_small)
  have nth: "(q @ [b]) ! k = (?i @ 32 # key) ! k" if "k \<le> length q" for k
    using that assms(3) w by (metis length_append_singleton less_Suc_eq_le nth_take)
  have "length q \<le> length ?i"
  proof (rule ccontr)
    assume long: "\<not> length q \<le> length ?i"
    then have "q ! length ?i = 32" using nth [of "length ?i"] by (simp add: nth_append)
    with long assms(4) show False by (metis not_le nth_mem)
  qed
  with len assms(5) have "length q = length ?i" by simp
  with nth [of "length q"] show ?thesis by (simp add: nth_append)
qed

lemma reported_blank:
  assumes r: "responsible ws [] [] root" and n: "n \<in> set (reported maxDepth root)"
    and ws: "\<And>w. w \<in> set ws \<Longrightarrow> \<exists>db key. fst w = genKey db key \<and> 0 \<le> db \<and> db < 100"
  shows "32 \<in> set (nodeFull n)"
proof (rule ccontr)
  assume blank: "32 \<notin> set (nodeFull n)"
  from n obtain d where d: "2 \<le> d" "n \<in> set (level d root)" by (auto simp: reported_def)
  from level_responsible [OF r d(2)] d(1) obtain q pre where
    rn: "responsible ws q pre n" and len: "2 \<le> length (nodeFull n)" and c: "compact n" by fastforce
  have "\<not> nodeEnd n"
  proof
    assume "nodeEnd n"
    with responsible_describes [OF rn] obtain w where "w \<in> set ws" "fst w = nodeFull n" by (auto simp: describes_def)
    with ws [of w] blank show False by (auto simp: genKey_def strlit_def)
  qed
  with c have "2 \<le> length (nodeChildren n)" by (simp add: compact_def)
  then obtain c1 c2 cs where cs: "nodeChildren n = c1 # c2 # cs"
    by (metis One_nat_def Suc_1 Suc_le_length_iff)
  from rn have h: "holds pre (below (length pre) (withPrefix q ws)) n" by (simp add: responsible_def)
  have heads: "hd (nodePath c1) \<noteq> hd (nodePath c2)" using h by (subst (asm) holds_iff) (simp add: holdsChildren_def cs)
  have "hd (nodePath c') = 32" if c': "c' \<in> set (nodeChildren n)" for c'
  proof -
    let ?p = "nodeFull n @ [hd (nodePath c')]"
    have rc: "responsible ws ?p (nodeFull n) c'" using responsible_child [OF rn c'] by blast
    have "withPrefix ?p ws \<noteq> []"
    proof -
      have eq: "withPrefix ?p ws = withPrefix (nodeFull c') ws" by (rule responsible_words(1) [OF rc])
      have "nodeCount c' = int (length (withPrefix (nodeFull c') ws))"
        using responsible_describes [OF rc] by (simp add: describes_def)
      moreover have "nodeCount c' \<noteq> 0"
      proof -
        obtain vs where "holds (nodeFull n) vs c'" "vs \<noteq> []"
          using h c' by (subst (asm) holds_iff) (auto simp: holdsChildren_def)
        then show ?thesis by (simp add: holds_iff)
      qed
      ultimately show ?thesis using eq by auto
    qed
    then obtain w where "w \<in> set ws" "take (length ?p) (fst w) = ?p"
      by (metis (mono_tags, lifting) filter_False withPrefix_def)
    with ws [of w] genKey_prefix [OF _ _ _ blank len] show ?thesis by metis
  qed
  then show False using heads cs by simp
qed

lemma printNode_row:
  assumes r: "responsible ws q pre n" and blank: "32 \<in> set (nodeFull n)" and ne: "withPrefix (nodeFull n) ws \<noteq> []"
    and ws: "\<And>w. w \<in> set ws \<Longrightarrow> \<exists>db key. fst w = genKey db key \<and> 0 \<le> db \<and> db < 100"
  shows "printNode n w = csvWrite (prefixRow ws (nodeFull n)) w"
proof -
  let ?q = "nodeFull n" and ?P = "\<lambda>c :: byte. c \<noteq> 32"
  from ne obtain w where w: "w \<in> set ws" "take (length ?q) (fst w) = ?q"
    by (metis (mono_tags, lifting) filter_False withPrefix_def)
  from ws [OF w(1)] obtain db key where k: "fst w = itoa db @ 32 # key" "0 \<le> db" "db < 100"
    by (auto simp: genKey_def strlit_def)
  have "takeWhile ?P (fst w) = itoa db" using k(1) blank_not_in_itoa [of db]
    by (auto simp: takeWhile_append)
  moreover have "takeWhile ?P ?q = takeWhile ?P (fst w)"
  proof -
    obtain x where "x \<in> set ?q" "\<not> ?P x" using blank by blast
    then have "takeWhile ?P (?q @ drop (length ?q) (fst w)) = takeWhile ?P ?q" by (rule takeWhile_append1)
    then show ?thesis using w(2) by (metis append_take_drop_id)
  qed
  ultimately have db: "takeWhile ?P ?q = itoa db" by simp
  have "parseInt 64 (itoa db) = Some db" using k by (intro parseInt_itoa) simp_all
  then have key: "atoiValue (itoa db) = db" by (simp add: atoiValue_def)
  have idx: "indexOf [32] ?q = Some (length (itoa db))" using blank db by (simp add: indexOf_blank)
  have "take (length (itoa db)) ?q = itoa db" using db by (metis takeWhile_eq_take)
  moreover have "dropWhile ?P ?q = drop (length (itoa db)) ?q" using db by (metis dropWhile_eq_drop)
  moreover have "drop (length (itoa db) + 1) ?q = []" if "\<not> length (itoa db) + 1 < length ?q" using that by simp
  ultimately have "parseNodeKey ?q = Inr (db, drop 1 (dropWhile ?P ?q))"
    using blank key idx by (auto simp: parseNodeKey_def strlit_def)
  with responsible_describes [OF r] db show ?thesis
    by (simp add: printNode_def prefixRow_def describes_def Let_def)
qed

lemma describes_end: "describes ws n \<Longrightarrow> nodeEnd n \<Longrightarrow> \<exists>w \<in> set ws. fst w = nodeFull n"
  by (force simp: describes_def)

lemma prefix_tree:
  assumes "fs rdbFilename = Some inp" and "acceptsOptions env (settingsOf options)"
    and "coreDecoder (envParseFloat env) (globalMetaOpt (settingsOf options)) collect (newDecoder inp, []) = (Inr (), (d, objs))"
  shows "\<exists>root. addAll insertWord (map objWord (filter (passes env (settingsOf options)) objs)) newRadixTree = Inr root \<and>
    decodeFile env fs rdbFilename options prefixCallback newRadixTree = Inr root"
proof -
  let ?h = "\<lambda>objs. added insertWord newRadixTree (map objWord objs)"
  have h: "addAll insertWord (map objWord objs) newRadixTree = Inr (?h objs)" for objs
    using inserted_holds [of "map objWord objs"] by (auto simp: added_def)
  have "prefixCallback obj (?h objs) = (Inr True, ?h (objs @ [obj]))" for objs obj
  proof -
    have "insertWord (objWord obj) (?h objs) = Inr (?h (objs @ [obj]))"
      using h [of objs] h [of "objs @ [obj]"] by (simp add: addAll_snoc)
    then show ?thesis by (simp add: prefixCallback_def addCallback_def insertWord_def objWord_def)
  qed
  from decodeFile_fold [of fs rdbFilename inp env options d objs prefixCallback ?h, OF assms this] h show ?thesis by simp
qed

lemma prefix_walk:
  assumes "0 \<le> topN"
  shows "traverse (prefixVisit maxDepth) root (newToplist (topLimit topN)) =
    (Inr (), added (topAdd nodeSize) (newToplist (topLimit topN)) (reported maxDepth root))"
proof -
  have lim: "0 \<le> topLimit topN" using assms by (simp add: topLimit_def maxInt64_def)
  have "prefixVisit maxDepth n dep (added (topAdd nodeSize) (newToplist (topLimit topN)) xs) =
    (if maxDepth < dep then (Inr False, added (topAdd nodeSize) (newToplist (topLimit topN)) xs)
     else (Inr True, added (topAdd nodeSize) (newToplist (topLimit topN)) (if dep \<le> 2 then xs else xs @ [n])))" for n dep xs
    using top.added_step [OF lim, of nodeSize] by (simp add: prefixVisit_def ret_def)
  from traverse_reports [of "prefixVisit maxDepth" "added (topAdd nodeSize) (newToplist (topLimit topN))", OF this]
  show ?thesis by simp
qed

lemma PrefixAnalyse_report:
  assumes name: "rdbFilename \<noteq> []" and n: "0 \<le> topN" and "fs rdbFilename = Some inp"
    and "acceptsOptions env (settingsOf options)"
    and "coreDecoder (envParseFloat env) (globalMetaOpt (settingsOf options)) collect (newDecoder inp, []) = (Inr (), (d, objs))"
    and f: "\<And>ls l. \<not> outRefuses f ls l"
    and db: "\<And>obj. obj \<in> set objs \<Longrightarrow> smallDb obj"
  shows "\<exists>root. addAll insertWord (map objWord (filter (passes env (settingsOf options)) objs)) newRadixTree = Inr root \<and>
    PrefixAnalyse env fs rdbFilename topN maxDepth options f = (Inr (), f\<lparr>outLines := outLines f @ prefixHeader #
      map (\<lambda>n. prefixRow (map objWord (filter (passes env (settingsOf options)) objs)) (nodeFull n))
        (take (nat (topLimit topN)) (descending nodeSize (rev (reported (depthLimit maxDepth) root))))\<rparr>)"
proof -
  let ?objs = "filter (passes env (settingsOf options)) objs" and ?ws = "map objWord (filter (passes env (settingsOf options)) objs)"
  from prefix_tree [of fs rdbFilename inp env options d objs, OF assms(3-5)] obtain root where
    root: "addAll insertWord ?ws newRadixTree = Inr root" and
    dec: "decodeFile env fs rdbFilename options prefixCallback newRadixTree = Inr root" by blast
  from inserted_holds [of ?ws] root have "holds [] ?ws root" "nodePath root = []" by auto
  note r = inserted_responsible [OF this]
  let ?ns = "take (nat (topLimit topN)) (descending nodeSize (rev (reported (depthLimit maxDepth) root)))"
  have lim: "0 \<le> topLimit topN" using n by (simp add: topLimit_def maxInt64_def)
  have ws: "\<exists>db key. fst w = genKey db key \<and> 0 \<le> db \<and> db < 100" if "w \<in> set ?ws" for w
  proof -
    from that obtain obj where "obj \<in> set objs" "w = objWord obj" by auto
    with db [of obj] show ?thesis by (intro exI [of _ "GetDBIndex obj"] exI [of _ "GetKey obj"]) (simp add: objWord_def smallDb_def)
  qed
  have row: "printNode n w = csvWrite (prefixRow ?ws (nodeFull n)) w" if n: "n \<in> set ?ns" for n w
  proof -
    from n have rep: "n \<in> set (reported (depthLimit maxDepth) root)"
      by (auto simp: descending_def dest: in_set_takeD)
    then obtain k where k: "2 \<le> k" "n \<in> set (level k root)" by (auto simp: reported_def)
    from level_responsible [OF r(1) k(2)] k(1) obtain q pre where rn: "responsible ?ws q pre n" and c: "compact n" by auto
    have "withPrefix (nodeFull n) ?ws \<noteq> []"
    proof (cases "nodeEnd n")
      case True
      with describes_end [OF responsible_describes [OF rn]] obtain w where "w \<in> set ?ws" "fst w = nodeFull n" by blast
      then have "w \<in> set (withPrefix (nodeFull n) ?ws)" by (simp add: withPrefix_def)
      then show ?thesis by auto
    next
      case False
      with c obtain m where m: "m \<in> set (nodeChildren n)" by (cases "nodeChildren n") (auto simp: compact_def)
      from rn have "holds pre (below (length pre) (withPrefix q ?ws)) n" by (simp add: responsible_def)
      with m have "below (length pre) (withPrefix q ?ws) \<noteq> []"
        by (subst (asm) holds_iff) (auto simp: holdsChildren_def below_def startsWith_def)
      then show ?thesis using responsible_words(1) [OF rn] by (auto simp: below_def)
    qed
    from printNode_row [OF rn reported_blank [OF r(1) rep ws] this ws] show ?thesis .
  qed
  have "withCsv (forEach printNode ?ns) g = (Inr (), g\<lparr>outLines := outLines g @ map (\<lambda>n. prefixRow ?ws (nodeFull n)) ?ns\<rparr>)"
    if "\<And>ls l. \<not> outRefuses g ls l" for g
    using that row by (rule csv_report)
  with f n name root dec show ?thesis
    by (simp add: PrefixAnalyse_def bnd_def outWrite_def prefixHeader_def prefix_walk top.added_items [OF lim])
qed

text \<open>Three keys in the databases 1, 10 and 100.\<close>

definition threeWords :: "int \<Rightarrow> int \<Rightarrow> int \<Rightarrow> (bytes \<times> int) list" where
  "threeWords x y z = [(genKey 1 (strlit ''a''), x), (genKey 10 (strlit ''b''), y), (genKey 100 (strlit ''c''), z)]"

lemma threeWords_tree:
  "addAll insertWord (threeWords x y z) newRadixTree = Inr
     (RadixNode [] False
       [RadixNode (strlit ''1'') False
         [RadixNode (strlit '' a'') True [] x 1 (strlit ''1 a''),
          RadixNode (strlit ''0'') False
            [RadixNode (strlit '' b'') True [] y 1 (strlit ''10 b''),
             RadixNode (strlit ''0 c'') True [] z 1 (strlit ''100 c'')]
            (y + z) 2 (strlit ''10'')]
         (x + y + z) 3 (strlit ''1'')]
       (x + y + z) 3 [])"
  by (simp add: threeWords_def genKey_def itoa_def digits_small digits_large strlit_def newRadixTree_def
      insertWord_def radixInsert_def insertNode.simps splitNode_def countIn_def setEnd_def setChildren_def Let_def)

lemma printNodes_panic:
  assumes "n \<in> set ns" and "nodeFull n \<noteq> []" and "32 \<notin> set (nodeFull n)"
    and f: "\<And>ls l. \<not> outRefuses f ls l" and "csvHolds f rows w"
  shows "\<exists>w'. forEach printNode ns w = (Inl (GoPanic ''slice bounds out of range''), w')"
  using assms(1-3,5)
proof (induction ns arbitrary: rows w)
  case (Cons m ns)
  have step: "(\<exists>w'. printNode m w = (Inl (GoPanic ''slice bounds out of range''), w')) \<or>
      (\<exists>rows' w'. printNode m w = (Inr (), w') \<and> csvHolds f rows' w')"
    using csvWrite_holds [OF f Cons.prems(4)] by (fastforce simp: printNode_def parseNodeKey_def Let_def split: option.split)
  have n: "\<exists>w'. printNode n w = (Inl (GoPanic ''slice bounds out of range''), w')"
    using Cons.prems(2,3) by (simp add: printNode_def parseNodeKey_def strlit_def indexOf_blank)
  show ?case
  proof (cases "n = m")
    case True
    with n show ?thesis by (auto simp: bnd_def)
  next
    case False
    with step Cons show ?thesis by (auto simp: bnd_def)
  qed
qed simp

lemma childrenOf_funpow_Nil: "(childrenOf ^^ d) [] = []"
  by (induction d) simp_all

lemma reported_length:
  assumes "level k root = []" and "\<And>d. d < k \<Longrightarrow> length (level d root) \<le> m"
  shows "length (reported maxDepth root) \<le> size root * m"
proof -
  have "length (level d root) \<le> m" for d
  proof (cases "d < k")
    case False
    then have "level d root = (childrenOf ^^ (d - k)) (level k root)"
      by (metis add_diff_cancel_right' funpow_add o_apply level_def le_add_diff_inverse2 not_less)
    then show ?thesis by (simp add: assms(1) childrenOf_funpow_Nil)
  qed (simp add: assms(2))
  then have "length (concat (map (\<lambda>d. level d root) ds)) \<le> length ds * m" for ds
    by (induction ds) (simp_all add: add_mono)
  note this [of "[2..<min (nat maxDepth) (size root)]"]
  also have "length [2..<min (nat maxDepth) (size root)] * m \<le> size root * m" by (intro mult_right_mono) simp_all
  finally show ?thesis by (simp add: reported_def)
qed

lemma PrefixAnalyse_panics:
  assumes name: "rdbFilename \<noteq> []" and "fs rdbFilename = Some inp"
    and "acceptsOptions env (settingsOf options)"
    and "coreDecoder (envParseFloat env) (globalMetaOpt (settingsOf options)) collect (newDecoder inp, []) = (Inr (), (d, objs))"
    and f: "\<And>ls l. \<not> outRefuses f ls l"
    and three: "map (\<lambda>obj. (GetDBIndex obj, GetKey obj)) (filter (passes env (settingsOf options)) objs) =
      [(1, strlit ''a''), (10, strlit ''b''), (100, strlit ''c'')]"
  shows "\<exists>f'. PrefixAnalyse env fs rdbFilename 0 0 options f = (Inl (GoPanic ''slice bounds out of range''), f')"
proof -
  let ?objs = "filter (passes env (settingsOf options)) objs"
  from prefix_tree [of fs rdbFilename inp env options d objs, OF assms(2-4)] obtain root where
    root: "addAll insertWord (map objWord ?objs) newRadixTree = Inr root" and
    dec: "decodeFile env fs rdbFilename options prefixCallback newRadixTree = Inr root" by blast
  from three obtain a b c where abc: "?objs = [a, b, c]" "GetDBIndex a = 1" "GetKey a = strlit ''a''"
    "GetDBIndex b = 10" "GetKey b = strlit ''b''" "GetDBIndex c = 100" "GetKey c = strlit ''c''"
    by (auto simp: map_eq_Cons_conv)
  then have "map objWord ?objs = threeWords (GetSize a) (GetSize b) (GetSize c)"
    by (simp add: objWord_def threeWords_def)
  with root threeWords_tree have tree: "root = (case addAll insertWord (threeWords (GetSize a) (GetSize b) (GetSize c))
      newRadixTree of Inr t \<Rightarrow> t)" by simp
  let ?n = "RadixNode (strlit ''0'') False
    [RadixNode (strlit '' b'') True [] (GetSize b) 1 (strlit ''10 b''),
     RadixNode (strlit ''0 c'') True [] (GetSize c) 1 (strlit ''100 c'')] (GetSize b + GetSize c) 2 (strlit ''10'')"
  have "?n \<in> set (level 2 root)"
    by (simp add: tree threeWords_tree level_def childrenOf_def numeral_2_eq_2)
  moreover have "2 < min (nat maxInt64) (size root)"
    by (simp add: tree threeWords_tree maxInt64_def)
  ultimately have n: "?n \<in> set (reported (depthLimit 0) root)"
    unfolding reported_def depthLimit_def by auto
  have lim: "0 \<le> topLimit 0" by (simp add: topLimit_def maxInt64_def)
  have "level 4 root = []" by (simp add: tree threeWords_tree level_def childrenOf_def eval_nat_numeral)
  moreover have "length (level d root) \<le> 2" if "d < 4" for d
  proof -
    from that consider "d = 0" | "d = 1" | "d = 2" | "d = 3" by linarith
    then show ?thesis by cases (simp_all add: tree threeWords_tree level_def childrenOf_def eval_nat_numeral)
  qed
  ultimately have "length (reported (depthLimit 0) root) \<le> size root * 2" by (rule reported_length)
  also have "\<dots> \<le> nat (topLimit 0)" by (simp add: tree threeWords_tree topLimit_def maxInt64_def strlit_def)
  finally have "length (reported (depthLimit 0) root) \<le> nat (topLimit 0)" .
  then have "?n \<in> set (take (nat (topLimit 0)) (descending nodeSize (rev (reported (depthLimit 0) root))))"
    using n by (simp add: descending_def)
  from printNodes_panic [OF this, of "f\<lparr>outLines := outLines f @ [prefixHeader]\<rparr>" "[]"
      "\<lparr>csvOut = f\<lparr>outLines := outLines f @ [prefixHeader]\<rparr>, csvPending = [], csvFailed = False\<rparr>"] f obtain f' where
    "withCsv (forEach printNode (take (nat (topLimit 0)) (descending nodeSize (rev (reported (depthLimit 0) root)))))
      (f\<lparr>outLines := outLines f @ [prefixHeader]\<rparr>) = (Inl (GoPanic ''slice bounds out of range''), f')"
    by (auto simp: strlit_def withCsv_def csvHolds_def)
  with prefix_walk [of 0 "depthLimit 0" root] name dec f show ?thesis
    by (simp add: PrefixAnalyse_def bnd_def outWrite_def prefixHeader_def top.added_items [OF lim])
qed

text \<open>Files with one key in each of three databases.\<close>

lemma three_db_file:
  fixes x y z :: u64
  assumes "x \<noteq> y" "x \<noteq> z" "y \<noteq> z"
  shows "\<exists>inp d objs. coreDecoder (\<lambda>_. None) False collect (newDecoder inp, []) = (Inr (), (d, objs)) \<and>
    map (\<lambda>obj :: robj. (GetDBIndex obj, GetKey obj)) objs = [(sint x, strlit ''a''), (sint y, strlit ''b''), (sint z, strlit ''c'')]"
proof -
  let ?e = "newEncoder (\<lambda>_ _. None)"
  let ?blocks = "[((x, 1, 0), [(strlit ''a'', StringVal (strlit ''1''), [])]), ((y, 1, 0), [(strlit ''b'', StringVal (strlit ''2''), [])]),
    ((z, 1, 0), [(strlit ''c'', StringVal (strlit ''3''), [])])] :: db_block list"
  have f: "fresh ?e" by (simp add: fresh_def ready_newEncoder) (simp add: newEncoder_def)
  have ok: "file_ok (\<lambda>_. None) (\<lambda>_. []) ?e [] ?blocks"
    using assms by (simp add: file_ok_def block_ok_def blockOps_def blockIndex_def string_ok_def maxAlloc_def optionTTLs_def newEncoder_def strlit_def)
  obtain e' where run: "runOps (\<lambda>_. []) (OpHeader # fileOps [] ?blocks @ [OpEnd]) ?e = (Inr (), e')"
    using accepts_file [OF f ok] by (auto simp: callSeq_file)
  have "optionExpiration [] = None" by code_simp
  with file_roundtrip [OF _ _ _ file_ok_ops [OF ok] run, of "\<lparr>withSpecialOpCode = False,
      withSpecialTypes = \<lambda>_. None :: (int \<Rightarrow> unit handler) option\<rparr>"] f
  show ?thesis
    by (intro exI [of _ "out e'"]) (auto simp: fresh_def coreDecoder_def fileOps_def blockOps_def viewOf_def)
qed

subsection \<open>Properties\<close>

text \<open>
  C20: the radix tree implements its specification: inserting words never panics, every node
  counts the words with its prefix and adds up their sizes, it is marked exactly if its own
  word was inserted, no prefix has two nodes, every word has its node, and no node but the
  root is superfluous (it is a word or a branching point).
\<close>

theorem radix_tree_refines:
  "\<exists>root. addAll insertWord ws newRadixTree = Inr root \<and> distinct (map nodeFull (nodesOf root)) \<and>
     (\<forall>n \<in> set (nodesOf root).
        nodeSize n = sum_list (map snd (withPrefix (nodeFull n) ws)) \<and>
        nodeCount n = int (length (withPrefix (nodeFull n) ws)) \<and>
        (nodeEnd n \<longleftrightarrow> nodeFull n \<in> fst ` set ws) \<and>
        (n = root \<or> nodePath n \<noteq> [] \<and> (nodeEnd n \<or> 2 \<le> length (nodeChildren n)))) \<and>
     (\<forall>w \<in> set ws. \<exists>n \<in> set (nodesOf root). nodeEnd n \<and> nodeFull n = fst w)"
proof -
  from inserted_holds [of ws] obtain root where
    root: "addAll insertWord ws newRadixTree = Inr root" "holds [] ws root" "nodePath root = []" by blast
  note r = inserted_responsible(1) [OF root(2,3)]
  have all: "withPrefix [] ws = ws" by (simp add: withPrefix_def)
  have "\<forall>n \<in> set (nodesOf root). describes ws n \<and> (n = root \<or> compact n)"
    using responsible_nodes [OF r] by blast
  moreover have "\<forall>w \<in> set ws. \<exists>n \<in> set (nodesOf root). nodeEnd n \<and> nodeFull n = fst w"
    using responsible_complete [OF r] unfolding all by blast
  ultimately show ?thesis
    using root(1) responsible_distinct [OF r] unfolding describes_def compact_def by blast
qed

theorem radix_tree_refines_witness:
  "\<exists>root. addAll insertWord (threeWords 5 6 7) newRadixTree = Inr root \<and> distinct (map nodeFull (nodesOf root)) \<and>
     (strlit ''10'', 13, 2) \<in> (\<lambda>n. (nodeFull n, nodeSize n, nodeCount n)) ` set (nodesOf root) \<and>
     (\<exists>n \<in> set (nodesOf root). nodeEnd n \<and> nodeFull n = strlit ''10 b'')"
  using radix_tree_refines [of "threeWords 5 6 7"]
  by (simp add: threeWords_tree)

text \<open>
  C21: when every database index has at most two digits, the prefix report of a file that
  parses is the header and the rows of the largest nodes of the radix tree below its second
  level and down to the greatest depth, in descending order of size; each row names the
  database, the prefix, and the size and number of the keys of that database with that
  prefix among the objects that pass the filters.
\<close>

theorem prefix_report:
  assumes "rdbFilename \<noteq> []" and "0 \<le> topN" and "fs rdbFilename = Some inp"
    and "acceptsOptions env (settingsOf options)"
    and "coreDecoder (envParseFloat env) (globalMetaOpt (settingsOf options)) collect (newDecoder inp, []) = (Inr (), (d, objs))"
    and "\<And>ls l. \<not> outRefuses f ls l"
    and "\<And>obj. obj \<in> set objs \<Longrightarrow> smallDb obj"
  shows "\<exists>root. addAll insertWord (map objWord (filter (passes env (settingsOf options)) objs)) newRadixTree = Inr root \<and>
    PrefixAnalyse env fs rdbFilename topN maxDepth options f = (Inr (), f\<lparr>outLines := outLines f @ prefixHeader #
      map (\<lambda>n. prefixRow (map objWord (filter (passes env (settingsOf options)) objs)) (nodeFull n))
        (take (nat (topLimit topN)) (descending nodeSize (rev (reported (depthLimit maxDepth) root))))\<rparr>)"
  using assms by (rule PrefixAnalyse_report)

theorem prefix_report_witness:
  "\<exists>inp f'. PrefixAnalyse \<lparr>compileRegex = \<lambda>_. None, nowNanos = 0, nowSeconds = 0, envParseFloat = \<lambda>_. None, envOutside = 0\<rparr>
     (\<lambda>_. Some inp) (strlit ''dump.rdb'') 3 0 [] \<lparr>outLines = [], outRefuses = \<lambda>_ _. False, outSpills = \<lambda>_ _. 0\<rparr> = (Inr (), f') \<and>
     hd (outLines f') = prefixHeader"
proof -
  let ?env = "\<lparr>compileRegex = \<lambda>_. None, nowNanos = 0, nowSeconds = 0, envParseFloat = \<lambda>_. None, envOutside = 0\<rparr>"
  have st: "settingsOf [] = \<lparr>regexOpt = None, noExpiredOpt = False, expirationOpt = [], sizeOpt = [], globalMetaOpt = False\<rparr>"
    by (simp add: settingsOf_def)
  obtain inp d objs where run: "coreDecoder (\<lambda>_. None) False collect (newDecoder inp, []) = (Inr (), (d, objs))"
    and v: "map (\<lambda>obj :: robj. (GetDBIndex obj, GetKey obj)) objs = [(0, strlit ''a''), (1, strlit ''b''), (12, strlit ''c'')]"
    by (rule exE [OF three_db_file [of 0 1 12]], simp, simp, simp, elim exE conjE) (simp add: that)
  have small: "smallDb obj" if "obj \<in> set objs" for obj
  proof -
    from that have "(GetDBIndex obj, GetKey obj) \<in> set (map (\<lambda>obj. (GetDBIndex obj, GetKey obj)) objs)" by simp
    then show ?thesis unfolding v by (auto simp: smallDb_def)
  qed
  have "acceptsOptions ?env (settingsOf [])" by (simp add: acceptsOptions_def st)
  with run small show ?thesis
    using prefix_report [of "strlit ''dump.rdb''" 3 "\<lambda>_. Some inp" inp ?env "[]" d objs
      "\<lparr>outLines = [], outRefuses = \<lambda>_ _. False, outSpills = \<lambda>_ _. 0\<rparr>" 0]
    by (intro exI [of _ inp]) (auto simp: st strlit_def)
qed

text \<open>
  C22: with keys in the databases 1, 10 and 100 the report panics: the branching point
  \<^verbatim>\<open>10\<close> lies on the third level of the tree and has no blank.
\<close>

theorem prefix_report_panics:
  assumes "rdbFilename \<noteq> []" and "fs rdbFilename = Some inp"
    and "acceptsOptions env (settingsOf options)"
    and "coreDecoder (envParseFloat env) (globalMetaOpt (settingsOf options)) collect (newDecoder inp, []) = (Inr (), (d, objs))"
    and "\<And>ls l. \<not> outRefuses f ls l"
    and "map (\<lambda>obj. (GetDBIndex obj, GetKey obj)) (filter (passes env (settingsOf options)) objs) =
      [(1, strlit ''a''), (10, strlit ''b''), (100, strlit ''c'')]"
  shows "\<exists>f'. PrefixAnalyse env fs rdbFilename 0 0 options f = (Inl (GoPanic ''slice bounds out of range''), f')"
  using assms by (rule PrefixAnalyse_panics)

theorem prefix_report_panics_witness:
  "\<exists>inp f'. PrefixAnalyse \<lparr>compileRegex = \<lambda>_. None, nowNanos = 0, nowSeconds = 0, envParseFloat = \<lambda>_. None, envOutside = 0\<rparr>
     (\<lambda>_. Some inp) (strlit ''dump.rdb'') 0 0 [] \<lparr>outLines = [], outRefuses = \<lambda>_ _. False, outSpills = \<lambda>_ _. 0\<rparr> =
       (Inl (GoPanic ''slice bounds out of range''), f')"
proof -
  let ?env = "\<lparr>compileRegex = \<lambda>_. None, nowNanos = 0, nowSeconds = 0, envParseFloat = \<lambda>_. None, envOutside = 0\<rparr>"
  have st: "settingsOf [] = \<lparr>regexOpt = None, noExpiredOpt = False, expirationOpt = [], sizeOpt = [], globalMetaOpt = False\<rparr>"
    by (simp add: settingsOf_def)
  have pass: "passes ?env (settingsOf []) obj" for obj :: robj
    by (simp add: passes_def passesRegex_def passesExpired_def passesExpiration_def passesSize_def st)
  obtain inp d objs where run: "coreDecoder (\<lambda>_. None) False collect (newDecoder inp, []) = (Inr (), (d, objs))"
    and v: "map (\<lambda>obj :: robj. (GetDBIndex obj, GetKey obj)) objs = [(1, strlit ''a''), (10, strlit ''b''), (100, strlit ''c'')]"
    by (rule exE [OF three_db_file [of 1 10 100]], simp, simp, simp, elim exE conjE) (simp add: that)
  have "acceptsOptions ?env (settingsOf [])" by (simp add: acceptsOptions_def st)
  with run v show ?thesis
    using prefix_report_panics [of "strlit ''dump.rdb''" "\<lambda>_. Some inp" inp ?env "[]" d objs
      "\<lparr>outLines = [], outRefuses = \<lambda>_ _. False, outSpills = \<lambda>_ _. 0\<rparr>"]
    by (intro exI [of _ inp]) (auto simp: pass [unfolded st] st strlit_def)
qed

end
