(* ===== verification/Resp.thy ===== *)
theory Resp
  imports TopList "HOL-Library.List_Lexorder"
begin

section \<open>Redis commands for objects (helper/resp.go, converter.go)\<close>

text \<open>
  An object becomes the commands that create it, the commands become bytes of the Redis
  protocol, and a whole file becomes an append-only file.  An argument is \<open>None\<close> where the
  code has a nil slice, which the protocol writes as \<^verbatim>\<open>$-1\<close>.  Keys, fields and members of sorted
  sets are Go strings; a string value, an element of a list, a member of a set and a value of a
  hash are slices, and an empty one may be nil: \<^verbatim>\<open>lzf.Decompress\<close> returns nil for an empty input,
  and \<^verbatim>\<open>readZipMapEntry\<close> at an end marker.  The objects of the model do not tell an empty slice
  from a nil one, so \<open>nl\<close>, which says of the i-th value of an object whether it is nil if it is
  empty, is a parameter.  \<open>ff\<close> is \<^verbatim>\<open>strconv.FormatFloat(f, 'f', -1, 64)\<close>.
\<close>

type_synonym cmdLine = "bytes option list"

subsection \<open>The protocol\<close>

definition crlf :: bytes where
  "crlf = [13, 10]"

definition argResp :: "bytes option \<Rightarrow> bytes" where
  "argResp arg = (case arg of
     None \<Rightarrow> strlit ''$-1'' @ crlf
   | Some a \<Rightarrow> strlit ''$'' @ itoa (int (length a)) @ crlf @ a @ crlf)"

definition makeMultiBulkResp :: "cmdLine \<Rightarrow> bytes" where
  "makeMultiBulkResp args = strlit ''*'' @ itoa (int (length args)) @ crlf @ concat (map argResp args)"

definition CmdLinesToResp :: "cmdLine list \<Rightarrow> bytes" where
  "CmdLinesToResp cmds = concat (map makeMultiBulkResp cmds)"

subsection \<open>The commands of an object\<close>

definition setCmd :: bytes where "setCmd = strlit ''SET''"
definition rPushAllCmd :: bytes where "rPushAllCmd = strlit ''RPUSH''"
definition sAddCmd :: bytes where "sAddCmd = strlit ''SADD''"
definition hMSetCmd :: bytes where "hMSetCmd = strlit ''HMSET''"
definition hPExpireAtCmd :: bytes where "hPExpireAtCmd = strlit ''HPEXPIREAT''"
definition hPersistCmd :: bytes where "hPersistCmd = strlit ''HPERSIST''"
definition zAddCmd :: bytes where "zAddCmd = strlit ''ZADD''"
definition pExpireAtBytes :: bytes where "pExpireAtBytes = strlit ''PEXPIREAT''"
definition xaddCmd :: bytes where "xaddCmd = strlit ''XADD''"

lemmas cmd_names =
  setCmd_def rPushAllCmd_def sAddCmd_def hMSetCmd_def hPExpireAtCmd_def hPersistCmd_def
  zAddCmd_def pExpireAtBytes_def xaddCmd_def

definition valueArg :: "bool \<Rightarrow> bytes \<Rightarrow> bytes option" where
  "valueArg isNil v = (if isNil \<and> v = [] then None else Some v)"

definition valueArgs :: "(nat \<Rightarrow> bool) \<Rightarrow> bytes list \<Rightarrow> cmdLine" where
  "valueArgs isNil vals = map2 (\<lambda>i. valueArg (isNil i)) [0..<length vals] vals"

definition stringToCmd :: "bytes \<Rightarrow> bytes option \<Rightarrow> cmdLine" where
  "stringToCmd key v = [Some setCmd, Some key, v]"

definition listToCmd :: "bytes \<Rightarrow> cmdLine \<Rightarrow> cmdLine" where
  "listToCmd key vals = Some rPushAllCmd # Some key # vals"

definition setToCmd :: "bytes \<Rightarrow> cmdLine \<Rightarrow> cmdLine" where
  "setToCmd key members = Some sAddCmd # Some key # members"

definition fieldExpireCmd :: "bytes \<Rightarrow> bytes \<times> int \<Rightarrow> cmdLine" where
  "fieldExpireCmd key = (\<lambda>(field, expire).
     if expire = 0
     then map Some [hPersistCmd, key, strlit ''FIELDS'', strlit ''1'', field]
     else map Some [hPExpireAtCmd, key, itoa expire, strlit ''FIELDS'', strlit ''1'', field])"

definition hashToCmd :: "bytes \<Rightarrow> (bytes \<times> bytes option) list \<Rightarrow> expirations \<Rightarrow> bool \<Rightarrow> cmdLine list" where
  "hashToCmd key h exps useLexOrder =
     (let entries = (if useLexOrder then sort_key fst h else h);
          cmdLine = Some hMSetCmd # Some key # concat (map (\<lambda>(field, v). [Some field, v]) entries)
      in cmdLine # (if length exps = length h then map (fieldExpireCmd key) exps else []))"

definition zSetToCmd :: "(float64 \<Rightarrow> bytes) \<Rightarrow> bytes \<Rightarrow> zset_entry list \<Rightarrow> cmdLine" where
  "zSetToCmd ff key entries =
     Some zAddCmd # Some key # concat (map (\<lambda>e. [Some (ff (zScore e)), Some (zMember e)]) entries)"

text \<open>\<^verbatim>\<open>UnixNano() / 1e6\<close> truncates toward zero.\<close>

definition unixMilli :: "int \<Rightarrow> int" where
  "unixMilli t = (if t < 0 then - (- t div 10 ^ 6) else t div 10 ^ 6)"

definition makeExpireCmd :: "'v redis_object \<Rightarrow> cmdLine" where
  "makeExpireCmd obj = (case GetExpiration obj of
     None \<Rightarrow> []
   | Some expireAt \<Rightarrow> map Some [pExpireAtBytes, GetKey obj, itoa (unixMilli expireAt)])"

definition formatStreamID :: "stream_id \<Rightarrow> bytes" where
  "formatStreamID i = itoa (uint (idMs i)) @ strlit ''-'' @ itoa (uint (idSequence i))"

definition messageToCmd :: "bytes \<Rightarrow> stream_message \<Rightarrow> cmdLine" where
  "messageToCmd key message = Some xaddCmd # Some key # Some (formatStreamID (msgId message)) #
     concat (map (\<lambda>(k, v). [Some k, Some v]) (msgFields message))"

definition streamToCmd :: "bytes \<Rightarrow> stream_object \<Rightarrow> cmdLine list" where
  "streamToCmd key s = concat (map (\<lambda>entry. map (messageToCmd key) (entryMsgs entry)) (streamEntries s))"

text \<open>
  The switch is on \<^verbatim>\<open>GetType()\<close>, a module value's own type name included; the assertion
  of the object's Go type after it panics when they do not fit.
\<close>

definition dataCmds ::
  "(float64 \<Rightarrow> bytes) \<Rightarrow> ('v redis_object \<Rightarrow> nat \<Rightarrow> bool) \<Rightarrow> bool \<Rightarrow> 'v redis_object \<Rightarrow> cmdLine list res"
where
  "dataCmds ff nl useLexOrder obj = (case obj of
     StringObject b v \<Rightarrow> Inr [stringToCmd (baseKey b) (valueArg (nl obj 0) v)]
   | ListObject b vals \<Rightarrow> Inr [listToCmd (baseKey b) (valueArgs (nl obj) vals)]
   | HashObject b h exps \<Rightarrow> Inr (hashToCmd (baseKey b) (zip (map fst h) (valueArgs (nl obj) (map snd h))) exps useLexOrder)
   | SetObject b members \<Rightarrow> Inr [setToCmd (baseKey b) (valueArgs (nl obj) members)]
   | ZSetObject b entries \<Rightarrow> Inr [zSetToCmd ff (baseKey b) entries]
   | StreamObject b s \<Rightarrow> Inr (streamToCmd (baseKey b) s)
   | AuxObject _ _ \<Rightarrow> Inr []
   | FunctionsObject _ _ \<Rightarrow> Inr []
   | DBSizeObject _ _ _ \<Rightarrow> Inr []
   | ModuleTypeObject _ t _ \<Rightarrow>
       (if t \<in> {StringType, ListType, HashType, SetType, ZSetType, StreamType}
        then Inl (GoPanic ''interface conversion'') else Inr []))"

definition ObjectToCmd ::
  "(float64 \<Rightarrow> bytes) \<Rightarrow> ('v redis_object \<Rightarrow> nat \<Rightarrow> bool) \<Rightarrow> helper_option list \<Rightarrow> 'v redis_object \<Rightarrow> cmdLine list res"
where
  "ObjectToCmd ff nl opts obj = (case dataCmds ff nl (LexOrder \<in> set opts) obj of
     Inl err \<Rightarrow> Inl err
   | Inr cmdLines \<Rightarrow> Inr (cmdLines @ (if GetExpiration obj = None then [] else [makeExpireCmd obj])))"

subsection \<open>Writing them\<close>

text \<open>
  A writer: what it has taken, and the environment that may refuse a write after some of
  its bytes.
\<close>

record byte_file =
  fileBytes :: bytes
  fileRefuses :: "bytes \<Rightarrow> bytes \<Rightarrow> nat option"

definition fileWrite :: "bytes \<Rightarrow> (byte_file, unit) gom" where
  "fileWrite p f = (case fileRefuses f (fileBytes f) p of
     Some n \<Rightarrow> (Inl (Msg ''write error''), f\<lparr>fileBytes := fileBytes f @ take n p\<rparr>)
   | None \<Rightarrow> (Inr (), f\<lparr>fileBytes := fileBytes f @ p\<rparr>))"

definition argChunks :: "bytes option \<Rightarrow> bytes list" where
  "argChunks arg = (case arg of
     None \<Rightarrow> [strlit ''$-1'' @ crlf]
   | Some a \<Rightarrow> [strlit ''$'' @ itoa (int (length a)) @ crlf, a, crlf])"

definition cmdChunks :: "cmdLine \<Rightarrow> bytes list" where
  "cmdChunks cmdLine = (strlit ''*'' @ itoa (int (length cmdLine)) @ crlf) # concat (map argChunks cmdLine)"

definition WriteObjectToResp :: "(float64 \<Rightarrow> bytes) \<Rightarrow> ('v redis_object \<Rightarrow> nat \<Rightarrow> bool) \<Rightarrow> 'v redis_object \<Rightarrow> (byte_file, unit) gom" where
  "WriteObjectToResp ff nl obj f = (case ObjectToCmd ff nl [] obj of
     Inl err \<Rightarrow> (Inl err, f)
   | Inr cmdLines \<Rightarrow> forEach (\<lambda>cmdLine. forEach fileWrite (cmdChunks cmdLine)) cmdLines f)"

text \<open>A write that fails is printed and forgotten.\<close>

definition aofCallback :: "(float64 \<Rightarrow> bytes) \<Rightarrow> ('v redis_object \<Rightarrow> nat \<Rightarrow> bool) \<Rightarrow> helper_option list \<Rightarrow> 'v redis_object \<Rightarrow> (byte_file, bool) gom" where
  "aofCallback ff nl options obj f = (case ObjectToCmd ff nl options obj of
     Inl err \<Rightarrow> (Inl err, f)
   | Inr cmdLines \<Rightarrow> (Inr True, snd (fileWrite (CmdLinesToResp cmdLines) f)))"

definition ToAOF ::
  "helper_env \<Rightarrow> (bytes \<Rightarrow> bytes option) \<Rightarrow> (float64 \<Rightarrow> bytes) \<Rightarrow> (robj \<Rightarrow> nat \<Rightarrow> bool) \<Rightarrow>
     bytes \<Rightarrow> bytes \<Rightarrow> (bytes \<Rightarrow> byte_file option) \<Rightarrow>
     helper_option list \<Rightarrow> byte_file \<Rightarrow> unit res \<times> byte_file"
where
  "ToAOF env fs ff nl rdbFilename aofFilename createFile options f0 =
     (if rdbFilename = [] then (Inl (Msg ''src file path is required''), f0)
      else if aofFilename = [] then (Inl (Msg ''output file path is required''), f0)
      else case fs rdbFilename of
        None \<Rightarrow> (Inl (Msg ''open rdb failed''), f0)
      | Some inp \<Rightarrow> (case createFile aofFilename of
          None \<Rightarrow> (Inl (Msg ''create json failed''), f0)
        | Some f \<Rightarrow> (case wrapDecoder env (coreDecoder (envParseFloat env)) options of
            Inl err \<Rightarrow> (Inl err, f)
          | Inr dec \<Rightarrow> (case dec (aofCallback ff nl options) (newDecoder inp, f) of
              (r, s) \<Rightarrow> (r, snd s)))))"

subsection \<open>Reading the protocol\<close>

text \<open>
  The receiving side, as the protocol describes it: a command is an array of bulk strings.
  It is the reference the writers are compared with.
\<close>

definition netLine :: "(bytes, bytes) gom" where
  "netLine s = (case dropWhile (\<lambda>c. c \<noteq> 13) s of
     _ # c # t \<Rightarrow> if c = 10 then (Inr (takeWhile (\<lambda>c. c \<noteq> 13) s), t) else (Inl (Msg ''protocol error''), s)
   | _ \<Rightarrow> (Inl UnexpectedEOF, s))"

definition netTake :: "nat \<Rightarrow> (bytes, bytes) gom" where
  "netTake n s = (if length s < n then (Inl UnexpectedEOF, s) else (Inr (take n s), drop n s))"

definition netNumber :: "byte \<Rightarrow> bytes \<Rightarrow> (bytes, int) gom" where
  "netNumber mark l = (case l of
     [] \<Rightarrow> fail (Msg ''protocol error'')
   | c # ds \<Rightarrow> if c \<noteq> mark then fail (Msg ''protocol error'')
       else (case parseInt 64 ds of None \<Rightarrow> fail (Msg ''protocol error'') | Some n \<Rightarrow> ret n))"

definition netInt :: "byte \<Rightarrow> (bytes, int) gom" where
  "netInt mark = bnd netLine (netNumber mark)"

definition netEnd :: "bytes \<Rightarrow> bytes \<Rightarrow> (bytes, bytes option) gom" where
  "netEnd a e = (if e = crlf then ret (Some a) else fail (Msg ''protocol error''))"

definition netBulk :: "int \<Rightarrow> (bytes, bytes option) gom" where
  "netBulk n = (if n < 0 then ret None else bnd (netTake (nat n)) (\<lambda>a. bnd (netTake 2) (netEnd a)))"

definition netArg :: "(bytes, bytes option) gom" where
  "netArg = bnd (netInt 36) netBulk"

definition netCommand :: "(bytes, cmdLine) gom" where
  "netCommand = bnd (netInt 42) (\<lambda>n. readN (nat n) netArg)"

definition arg_ok :: "bytes option \<Rightarrow> bool" where
  "arg_ok arg \<longleftrightarrow> (case arg of None \<Rightarrow> True | Some a \<Rightarrow> int (length a) < 2 ^ 63)"

definition cmd_ok :: "cmdLine \<Rightarrow> bool" where
  "cmd_ok cmd \<longleftrightarrow> int (length cmd) < 2 ^ 63 \<and> list_all arg_ok cmd"

interpretation net: byte_source "(=)" drop
  by unfold_locales (simp_all add: add.commute)

lemma return_not_in_itoa: "13 \<notin> set (itoa i)"
proof -
  have "13 \<notin> set (digits n)" for n using list_all_digits [of n] by (auto simp: list_all_iff isDigit_def)
  then show ?thesis by (simp add: itoa_def)
qed

lemma until_return:
  "13 \<notin> set l \<Longrightarrow> dropWhile (\<lambda>c. c \<noteq> 13) (l @ 13 # r) = 13 # r \<and> takeWhile (\<lambda>c. c \<noteq> 13) (l @ 13 # r) = l"
  for l :: bytes
  by (induction l) auto

lemma netLine_parses: "13 \<notin> set l \<Longrightarrow> parses (=) drop netLine (l @ crlf) l"
  by (simp add: parses_def netLine_def crlf_def until_return)

lemma netTake_parses: "parses (=) drop (netTake (length a)) a a"
  by (simp add: parses_def netTake_def)

lemma netInt_parses:
  assumes "- (2 ^ 63) \<le> n" and "n < 2 ^ 63" and "mark \<noteq> 13"
  shows "parses (=) drop (netInt mark) ((mark # itoa n) @ crlf) n"
proof -
  have "parseInt 64 (itoa n) = Some n" using assms(1,2) by (intro parseInt_itoa) simp_all
  then have k: "parses (=) drop (netNumber mark (mark # itoa n)) [] n"
    by (simp add: netNumber_def net.parses_ret)
  have "parses (=) drop netLine ((mark # itoa n) @ crlf) (mark # itoa n)"
    using assms(3) return_not_in_itoa by (intro netLine_parses) auto
  from net.parses_bnd [of netLine _ _ "netNumber mark", OF this k] show ?thesis by (simp add: netInt_def)
qed

lemma netBulk_parses:
  assumes "int (length a) < 2 ^ 63"
  shows "parses (=) drop (netBulk (int (length a))) (a @ crlf) (Some a)"
proof -
  have "parses (=) drop (netTake 2) crlf crlf"
    using netTake_parses [of crlf] by (simp add: crlf_def numeral_2_eq_2)
  moreover have "parses (=) drop (netEnd a crlf) [] (Some a)" by (simp add: netEnd_def net.parses_ret)
  ultimately have e: "parses (=) drop (bnd (netTake 2) (netEnd a)) (crlf @ []) (Some a)" by (rule net.parses_bnd)
  have "parses (=) drop (bnd (netTake (length a)) (\<lambda>a. bnd (netTake 2) (netEnd a))) (a @ (crlf @ [])) (Some a)"
    using netTake_parses e by (rule net.parses_bnd [where f = "\<lambda>a. bnd (netTake 2) (netEnd a)"])
  then show ?thesis by (simp add: netBulk_def)
qed

lemma netArg_parses:
  assumes "arg_ok arg"
  shows "parses (=) drop netArg (argResp arg) arg"
proof (cases arg)
  case None
  have "parses (=) drop (netBulk (- 1)) [] None" by (simp add: netBulk_def net.parses_ret)
  with netInt_parses [of "- 1" 36] have "parses (=) drop netArg (((36 # itoa (- 1)) @ crlf) @ []) None"
    unfolding netArg_def by (intro net.parses_bnd) simp_all
  moreover have "(36 # itoa (- 1)) @ crlf = argResp None"
    by (simp add: argResp_def strlit_def itoa_def digits_small)
  ultimately show ?thesis using None by simp
next
  case (Some a)
  with assms have len: "int (length a) < 2 ^ 63" by (simp add: arg_ok_def)
  with netInt_parses [of "int (length a)" 36] netBulk_parses [OF len]
  have "parses (=) drop netArg (((36 # itoa (int (length a))) @ crlf) @ (a @ crlf)) (Some a)"
    unfolding netArg_def by (intro net.parses_bnd) simp_all
  with Some show ?thesis by (simp add: argResp_def strlit_def)
qed

interpretation arg: item_codec "(=)" drop argResp netArg arg_ok
  by unfold_locales (rule netArg_parses)

lemma netCommand_parses: "cmd_ok cmd \<Longrightarrow> parses (=) drop netCommand (makeMultiBulkResp cmd) cmd"
proof -
  assume "cmd_ok cmd"
  then have len: "int (length cmd) < 2 ^ 63" and args: "list_all arg_ok cmd" by (simp_all add: cmd_ok_def)
  have "parses (=) drop netCommand (((42 # itoa (int (length cmd))) @ crlf) @ concat (map argResp cmd)) cmd"
    unfolding netCommand_def
  proof (rule net.parses_bnd [where f = "\<lambda>n. readN (nat n) netArg"])
    show "parses (=) drop (netInt 42) ((42 # itoa (int (length cmd))) @ crlf) (int (length cmd))"
      using len by (intro netInt_parses) simp_all
    show "parses (=) drop (readN (nat (int (length cmd))) netArg) (concat (map argResp cmd)) cmd"
      using arg.items [OF args] by (simp only: nat_int)
  qed
  then show ?thesis by (simp add: makeMultiBulkResp_def strlit_def)
qed

interpretation cmd: item_codec "(=)" drop makeMultiBulkResp netCommand cmd_ok
  by unfold_locales (rule netCommand_parses)

lemma net_reads:
  "list_all cmd_ok cmds \<Longrightarrow> readN (length cmds) netCommand (CmdLinesToResp cmds) = (Inr cmds, [])"
  using net.parses_apply [OF cmd.items, of cmds "CmdLinesToResp cmds" "[]"] by (simp add: CmdLinesToResp_def)

subsection \<open>What is written\<close>

lemma concat_argChunks: "concat (argChunks arg) = argResp arg"
  by (simp add: argChunks_def argResp_def split: option.split)

lemma concat_cmdChunks: "concat (cmdChunks cmd) = makeMultiBulkResp cmd"
proof -
  have "concat (concat (map argChunks args)) = concat (map argResp args)" for args
    by (induction args) (simp_all add: concat_argChunks)
  then show ?thesis by (simp add: cmdChunks_def makeMultiBulkResp_def)
qed

text \<open>A method writes a beginning of \<open>p\<close>, and all of it if it succeeds.\<close>

definition fills :: "(byte_file, unit) gom \<Rightarrow> bytes \<Rightarrow> bool" where
  "fills m p \<longleftrightarrow> (\<forall>f. \<exists>n f'. snd (m f) = f' \<and> fileBytes f' = fileBytes f @ take n p \<and> fileRefuses f' = fileRefuses f \<and>
     (fst (m f) = Inr () \<longrightarrow> take n p = p) \<and> (fileRefuses f = (\<lambda>_ _. None) \<longrightarrow> fst (m f) = Inr ()))"

lemma fills_write: "fills (fileWrite p) p"
  unfolding fills_def
proof
  fix f
  show "\<exists>n f'. snd (fileWrite p f) = f' \<and> fileBytes f' = fileBytes f @ take n p \<and> fileRefuses f' = fileRefuses f \<and>
     (fst (fileWrite p f) = Inr () \<longrightarrow> take n p = p) \<and> (fileRefuses f = (\<lambda>_ _. None) \<longrightarrow> fst (fileWrite p f) = Inr ())"
  proof (cases "fileRefuses f (fileBytes f) p")
    case None
    then show ?thesis by (intro exI [of _ "length p"]) (simp add: fileWrite_def)
  next
    case (Some n)
    then have "fileRefuses f \<noteq> (\<lambda>_ _. None)" by auto
    with Some show ?thesis by (intro exI [of _ n]) (simp add: fileWrite_def)
  qed
qed

lemma fills_ret: "fills (ret ()) []"
  by (simp add: fills_def ret_def)

lemma fills_bnd:
  assumes m: "fills m p" and k: "fills k q"
  shows "fills (bnd m (\<lambda>_. k)) (p @ q)"
  unfolding fills_def
proof
  fix f
  obtain r f1 where run: "m f = (r, f1)" by (cases "m f")
  with m obtain n where 1: "fileBytes f1 = fileBytes f @ take n p" "fileRefuses f1 = fileRefuses f"
    "r = Inr () \<Longrightarrow> take n p = p" "fileRefuses f = (\<lambda>_ _. None) \<Longrightarrow> r = Inr ()"
    unfolding fills_def by (metis fst_conv snd_conv)
  show "\<exists>n f'. snd (bnd m (\<lambda>_. k) f) = f' \<and> fileBytes f' = fileBytes f @ take n (p @ q) \<and> fileRefuses f' = fileRefuses f \<and>
     (fst (bnd m (\<lambda>_. k) f) = Inr () \<longrightarrow> take n (p @ q) = p @ q) \<and>
     (fileRefuses f = (\<lambda>_ _. None) \<longrightarrow> fst (bnd m (\<lambda>_. k) f) = Inr ())"
  proof (cases r)
    case (Inl err)
    with run 1 show ?thesis
      by (intro exI [of _ "min n (length p)"]) (auto simp: bnd_def min_def)
  next
    case (Inr u)
    obtain r2 f2 where run2: "k f1 = (r2, f2)" by (cases "k f1")
    with k obtain n2 where 2: "fileBytes f2 = fileBytes f1 @ take n2 q" "fileRefuses f2 = fileRefuses f1"
      "r2 = Inr () \<Longrightarrow> take n2 q = q" "fileRefuses f1 = (\<lambda>_ _. None) \<Longrightarrow> r2 = Inr ()"
      unfolding fills_def by (metis fst_conv snd_conv)
    with run run2 1 Inr show ?thesis
      by (intro exI [of _ "length p + n2"]) (auto simp: bnd_def)
  qed
qed

lemma fills_forEach: "(\<And>x. fills (m x) (p x)) \<Longrightarrow> fills (forEach m xs) (concat (map p xs))"
  by (induction xs) (auto simp: fills_ret fills_bnd)

lemma WriteObjectToResp_fills:
  assumes "ObjectToCmd ff nl [] obj = Inr cmds"
  shows "fills (WriteObjectToResp ff nl obj) (CmdLinesToResp cmds)"
proof -
  have "fills (forEach fileWrite (cmdChunks cmd)) (makeMultiBulkResp cmd)" for cmd
    using fills_forEach [of fileWrite "\<lambda>p. p" "cmdChunks cmd", OF fills_write] by (simp add: concat_cmdChunks)
  from fills_forEach [of "\<lambda>cmd. forEach fileWrite (cmdChunks cmd)" makeMultiBulkResp cmds, OF this] assms show ?thesis
    by (simp add: WriteObjectToResp_def [abs_def] CmdLinesToResp_def)
qed

subsection \<open>The append-only file\<close>

definition cmdsOf :: "(float64 \<Rightarrow> bytes) \<Rightarrow> ('v redis_object \<Rightarrow> nat \<Rightarrow> bool) \<Rightarrow> helper_option list \<Rightarrow> 'v redis_object \<Rightarrow> cmdLine list" where
  "cmdsOf ff nl options obj = (case ObjectToCmd ff nl options obj of Inl err \<Rightarrow> [] | Inr cmds \<Rightarrow> cmds)"

definition hasCmds :: "(float64 \<Rightarrow> bytes) \<Rightarrow> ('v redis_object \<Rightarrow> nat \<Rightarrow> bool) \<Rightarrow> helper_option list \<Rightarrow> 'v redis_object \<Rightarrow> bool" where
  "hasCmds ff nl options obj \<longleftrightarrow> \<not> isl (ObjectToCmd ff nl options obj)"

definition writeAll :: "(float64 \<Rightarrow> bytes) \<Rightarrow> (robj \<Rightarrow> nat \<Rightarrow> bool) \<Rightarrow> helper_option list \<Rightarrow> robj list \<Rightarrow> byte_file \<Rightarrow> byte_file" where
  "writeAll ff nl options objs f = fold (\<lambda>obj f. snd (fileWrite (CmdLinesToResp (cmdsOf ff nl options obj)) f)) objs f"

lemma ToAOF_fold:
  assumes "rdbFilename \<noteq> []" and "aofFilename \<noteq> []" and "fs rdbFilename = Some inp" and "createFile aofFilename = Some f"
    and "acceptsOptions env (settingsOf options)"
    and "coreDecoder (envParseFloat env) (globalMetaOpt (settingsOf options)) collect (newDecoder inp, []) = (Inr (), (d, objs))"
    and good: "\<forall>obj \<in> set objs. hasCmds ff nl options obj"
  shows "ToAOF env fs ff nl rdbFilename aofFilename createFile options f0 =
    (Inr (), writeAll ff nl options (filter (passes env (settingsOf options)) objs) f)"
proof -
  have "aofCallback ff nl options obj (writeAll ff nl options xs f) = (Inr True, writeAll ff nl options (xs @ [obj]) f)"
    if "hasCmds ff nl options obj" for xs :: "robj list" and obj
    using that by (cases "ObjectToCmd ff nl options obj") (auto simp: aofCallback_def writeAll_def cmdsOf_def hasCmds_def)
  from decode_fold [OF assms(5,6), of "hasCmds ff nl options" "aofCallback ff nl options" "\<lambda>xs. writeAll ff nl options xs f", OF _ this]
    good obtain dec where "wrapDecoder env (coreDecoder (envParseFloat env)) options = Inr dec"
    "dec (aofCallback ff nl options) (newDecoder inp, f) = (Inr (), (d, writeAll ff nl options (filter (passes env (settingsOf options)) objs) f))"
    by (auto simp: writeAll_def)
  with assms(1-4) show ?thesis by (simp add: ToAOF_def)
qed

lemma writeAll_bytes:
  "fileRefuses f = (\<lambda>_ _. None) \<Longrightarrow> writeAll ff nl options objs f =
     f\<lparr>fileBytes := fileBytes f @ CmdLinesToResp (concat (map (cmdsOf ff nl options) objs))\<rparr>"
  by (induction objs arbitrary: f) (simp_all add: writeAll_def fileWrite_def CmdLinesToResp_def)

lemma writeAll_refused: "fileRefuses f = (\<lambda>_ _. Some 0) \<Longrightarrow> writeAll ff nl options objs f = f"
  by (induction objs) (simp_all add: writeAll_def fileWrite_def)

lemma valueArgs_given: "(\<And>i. \<not> isNil i) \<Longrightarrow> valueArgs isNil vals = map Some vals"
  by (rule nth_equalityI) (simp_all add: valueArgs_def valueArg_def)

lemma string_view_cmds:
  "viewOf obj = (db, key, None, DataContent (StringVal v)) \<Longrightarrow> ObjectToCmd ff (\<lambda>_ _. False) opts obj = Inr [map Some [setCmd, key, v]]"
  by (cases obj) (auto simp: viewOf_def ObjectToCmd_def dataCmds_def stringToCmd_def valueArg_def GetKey_def split: if_splits)

subsection \<open>Properties\<close>

text \<open>
  C32: what \<open>CmdLinesToResp\<close> writes for any commands, the receiving side of the protocol
  reads back as the same commands, nil arguments included, and nothing is left over.
\<close>

theorem resp_roundtrip:
  assumes "list_all cmd_ok cmds"
  shows "readN (length cmds) netCommand (CmdLinesToResp cmds) = (Inr cmds, [])"
  using assms by (rule net_reads)

theorem resp_roundtrip_witness:
  "CmdLinesToResp [[Some (strlit ''GET''), None]] = strlit ''*2'' @ crlf @ strlit ''$3'' @ crlf @ strlit ''GET'' @ crlf @ strlit ''$-1'' @ crlf \<and>
   readN 1 netCommand (CmdLinesToResp [[Some (strlit ''GET''), None]]) = (Inr [[Some (strlit ''GET''), None]], [])"
proof
  show "CmdLinesToResp [[Some (strlit ''GET''), None]] = strlit ''*2'' @ crlf @ strlit ''$3'' @ crlf @ strlit ''GET'' @ crlf @ strlit ''$-1'' @ crlf"
    by (simp add: CmdLinesToResp_def makeMultiBulkResp_def argResp_def itoa_def digits_small strlit_def)
  show "readN 1 netCommand (CmdLinesToResp [[Some (strlit ''GET''), None]]) = (Inr [[Some (strlit ''GET''), None]], [])"
    using resp_roundtrip [of "[[Some (strlit ''GET''), None]]"] by (simp add: cmd_ok_def arg_ok_def strlit_def)
qed

text \<open>
  The two ways of writing an object agree: \<open>WriteObjectToResp\<close>, which writes piece by
  piece, puts a beginning of what \<open>CmdLinesToResp\<close> makes of the object's commands into the
  writer, all of it if it returns no error, and it returns none if the writer never fails.
\<close>

theorem resp_writers_agree:
  assumes "ObjectToCmd ff nl [] obj = Inr cmds"
  shows "\<exists>n f'. snd (WriteObjectToResp ff nl obj f) = f' \<and> fileBytes f' = fileBytes f @ take n (CmdLinesToResp cmds) \<and>
    (fst (WriteObjectToResp ff nl obj f) = Inr () \<longrightarrow> take n (CmdLinesToResp cmds) = CmdLinesToResp cmds) \<and>
    (fileRefuses f = (\<lambda>_ _. None) \<longrightarrow> fst (WriteObjectToResp ff nl obj f) = Inr ())"
  using WriteObjectToResp_fills [OF assms] unfolding fills_def by blast

theorem resp_writers_agree_witness:
  "fst (WriteObjectToResp (\<lambda>_. []) (\<lambda>_ _. False) (StringObject emptyBase (strlit ''v'') :: robj) \<lparr>fileBytes = [], fileRefuses = \<lambda>_ _. None\<rparr>) = Inr () \<and>
   fileBytes (snd (WriteObjectToResp (\<lambda>_. []) (\<lambda>_ _. False) (StringObject emptyBase (strlit ''v'') :: robj) \<lparr>fileBytes = [], fileRefuses = \<lambda>_ _. None\<rparr>)) =
     CmdLinesToResp [[Some (strlit ''SET''), Some [], Some (strlit ''v'')]]"
  using resp_writers_agree [of "\<lambda>_. []" "\<lambda>_ _. False" "StringObject emptyBase (strlit ''v'') :: robj" "[[Some (strlit ''SET''), Some [], Some (strlit ''v'')]]"
      "\<lparr>fileBytes = [], fileRefuses = \<lambda>_ _. None\<rparr>"]
  by (auto simp: ObjectToCmd_def dataCmds_def stringToCmd_def valueArg_def setCmd_def emptyBase_def GetExpiration_def)

text \<open>
  C23: for a file that parses, the append-only file is the protocol form of the commands of
  the objects that pass the filters, in the order of the file, and the receiving side reads
  exactly these commands.
\<close>

theorem aof_replays:
  assumes "rdbFilename \<noteq> []" and "aofFilename \<noteq> []" and "fs rdbFilename = Some inp"
    and "createFile aofFilename = Some \<lparr>fileBytes = [], fileRefuses = \<lambda>_ _. None\<rparr>"
    and "acceptsOptions env (settingsOf options)"
    and "coreDecoder (envParseFloat env) (globalMetaOpt (settingsOf options)) collect (newDecoder inp, []) = (Inr (), (d, objs))"
    and "\<forall>obj \<in> set objs. hasCmds ff nl options obj"
    and "cmds = concat (map (cmdsOf ff nl options) (filter (passes env (settingsOf options)) objs))" and "list_all cmd_ok cmds"
  shows "\<exists>f. ToAOF env fs ff nl rdbFilename aofFilename createFile options f0 = (Inr (), f) \<and>
    readN (length cmds) netCommand (fileBytes f) = (Inr cmds, [])"
proof -
  from ToAOF_fold [of rdbFilename aofFilename fs inp createFile _ env options d objs ff nl f0, OF assms(1-7)] have "ToAOF env fs ff nl rdbFilename aofFilename createFile options f0 =
      (Inr (), writeAll ff nl options (filter (passes env (settingsOf options)) objs) \<lparr>fileBytes = [], fileRefuses = \<lambda>_ _. None\<rparr>)" .
  moreover have "fileBytes (writeAll ff nl options (filter (passes env (settingsOf options)) objs)
      \<lparr>fileBytes = [], fileRefuses = \<lambda>_ _. None\<rparr>) = CmdLinesToResp cmds"
    by (simp add: writeAll_bytes assms(8))
  ultimately show ?thesis using net_reads [OF assms(9)] by auto
qed

theorem aof_replays_witness:
  "\<exists>inp f. ToAOF \<lparr>compileRegex = \<lambda>_. None, nowNanos = 0, nowSeconds = 0, envParseFloat = \<lambda>_. None, envOutside = 0\<rparr>
     (\<lambda>_. Some inp) (\<lambda>_. []) (\<lambda>_ _. False) (strlit ''dump.rdb'') (strlit ''dump.aof'')
     (\<lambda>_. Some \<lparr>fileBytes = [], fileRefuses = \<lambda>_ _. None\<rparr>) [] \<lparr>fileBytes = [], fileRefuses = \<lambda>_ _. None\<rparr> = (Inr (), f) \<and>
     readN 2 netCommand (fileBytes f) =
       (Inr [map Some [setCmd, strlit ''a'', strlit ''1''], map Some [setCmd, strlit ''b'', strlit ''2'']], [])"
proof -
  let ?env = "\<lparr>compileRegex = \<lambda>_. None, nowNanos = 0, nowSeconds = 0, envParseFloat = \<lambda>_. None, envOutside = 0\<rparr>"
  have st: "settingsOf [] = \<lparr>regexOpt = None, noExpiredOpt = False, expirationOpt = [], sizeOpt = [], globalMetaOpt = False\<rparr>"
    by (simp add: settingsOf_def)
  obtain inp d objs where run: "coreDecoder (\<lambda>_. None) False collect (newDecoder inp, []) = (Inr (), (d, objs))"
    and v: "map viewOf objs = [(0, strlit ''a'', None, DataContent (StringVal (strlit ''1''))),
      (0, strlit ''b'', None, DataContent (StringVal (strlit ''2'')))]"
    by (rule exE [OF two_key_file], elim exE conjE) (rule that)
  from v obtain x y where objs: "objs = [x, y]" and
    cmds: "ObjectToCmd (\<lambda>_. []) (\<lambda>_ _. False) [] x = Inr [map Some [setCmd, strlit ''a'', strlit ''1'']]"
      "ObjectToCmd (\<lambda>_. []) (\<lambda>_ _. False) [] y = Inr [map Some [setCmd, strlit ''b'', strlit ''2'']]"
    by (auto simp: map_eq_Cons_conv dest!: string_view_cmds [where ff = "\<lambda>_. []" and opts = "[]"])
  have ok: "acceptsOptions ?env (settingsOf [])" by (simp add: acceptsOptions_def st)
  have pass: "passes ?env (settingsOf []) obj" for obj :: robj
    by (simp add: passes_def passesRegex_def passesExpired_def passesExpiration_def passesSize_def st)
  from aof_replays [of "strlit ''dump.rdb''" "strlit ''dump.aof''" "\<lambda>_. Some inp" inp
      "\<lambda>_. Some \<lparr>fileBytes = [], fileRefuses = \<lambda>_ _. None\<rparr>" ?env "[]" d objs "\<lambda>_. []" "\<lambda>_ _. False"
      "[map Some [setCmd, strlit ''a'', strlit ''1''], map Some [setCmd, strlit ''b'', strlit ''2'']]"
      "\<lparr>fileBytes = [], fileRefuses = \<lambda>_ _. None\<rparr>"] ok run cmds
  show ?thesis
    by (intro exI [of _ inp])
      (simp add: pass [unfolded st] st objs hasCmds_def cmdsOf_def cmd_ok_def arg_ok_def cmd_names strlit_def numeral_2_eq_2)
qed

text \<open>
  A write to the append-only file that fails is not reported: on a file that takes
  nothing the conversion ends without an error and the file is empty.
\<close>

theorem aof_errors_lost:
  assumes "rdbFilename \<noteq> []" and "aofFilename \<noteq> []" and "fs rdbFilename = Some inp"
    and "createFile aofFilename = Some \<lparr>fileBytes = [], fileRefuses = \<lambda>_ _. Some 0\<rparr>"
    and "acceptsOptions env (settingsOf options)"
    and "coreDecoder (envParseFloat env) (globalMetaOpt (settingsOf options)) collect (newDecoder inp, []) = (Inr (), (d, objs))"
    and "\<forall>obj \<in> set objs. hasCmds ff nl options obj"
  shows "\<exists>f. ToAOF env fs ff nl rdbFilename aofFilename createFile options f0 = (Inr (), f) \<and> fileBytes f = []"
  using ToAOF_fold [of rdbFilename aofFilename fs inp createFile _ env options d objs ff nl f0, OF assms]
  by (simp add: writeAll_refused)

theorem aof_errors_lost_witness:
  "\<exists>inp f. ToAOF \<lparr>compileRegex = \<lambda>_. None, nowNanos = 0, nowSeconds = 0, envParseFloat = \<lambda>_. None, envOutside = 0\<rparr>
     (\<lambda>_. Some inp) (\<lambda>_. []) (\<lambda>_ _. False) (strlit ''dump.rdb'') (strlit ''dump.aof'')
     (\<lambda>_. Some \<lparr>fileBytes = [], fileRefuses = \<lambda>_ _. Some 0\<rparr>) [] \<lparr>fileBytes = [], fileRefuses = \<lambda>_ _. None\<rparr> = (Inr (), f) \<and>
     fileBytes f = []"
proof -
  let ?env = "\<lparr>compileRegex = \<lambda>_. None, nowNanos = 0, nowSeconds = 0, envParseFloat = \<lambda>_. None, envOutside = 0\<rparr>"
  have st: "settingsOf [] = \<lparr>regexOpt = None, noExpiredOpt = False, expirationOpt = [], sizeOpt = [], globalMetaOpt = False\<rparr>"
    by (simp add: settingsOf_def)
  obtain inp d objs where run: "coreDecoder (\<lambda>_. None) False collect (newDecoder inp, []) = (Inr (), (d, objs))"
    and v: "map viewOf objs = [(0, strlit ''a'', None, DataContent (StringVal (strlit ''1''))),
      (0, strlit ''b'', None, DataContent (StringVal (strlit ''2'')))]"
    by (rule exE [OF two_key_file], elim exE conjE) (rule that)
  from v obtain x y where objs: "objs = [x, y]" and
    cmds: "ObjectToCmd (\<lambda>_. []) (\<lambda>_ _. False) [] x = Inr [map Some [setCmd, strlit ''a'', strlit ''1'']]"
      "ObjectToCmd (\<lambda>_. []) (\<lambda>_ _. False) [] y = Inr [map Some [setCmd, strlit ''b'', strlit ''2'']]"
    by (auto simp: map_eq_Cons_conv dest!: string_view_cmds [where ff = "\<lambda>_. []" and opts = "[]"])
  have ok: "acceptsOptions ?env (settingsOf [])" by (simp add: acceptsOptions_def st)
  from aof_errors_lost [of "strlit ''dump.rdb''" "strlit ''dump.aof''" "\<lambda>_. Some inp" inp
      "\<lambda>_. Some \<lparr>fileBytes = [], fileRefuses = \<lambda>_ _. Some 0\<rparr>" ?env "[]" d objs "\<lambda>_. []" "\<lambda>_ _. False"
      "\<lparr>fileBytes = [], fileRefuses = \<lambda>_ _. None\<rparr>"] ok run cmds
  show ?thesis
    by (intro exI [of _ inp]) (simp add: st objs hasCmds_def strlit_def)
qed

end
