(* ===== verification/Replay.thy ===== *)
theory Replay
  imports Resp
begin

section \<open>What the commands of an object do (helper/resp.go)\<close>

text \<open>
  The commands of the append-only file are meant for a Redis server, which is not part of the
  repository.  This theory states what its documentation says of the nine commands the code
  emits except \<^verbatim>\<open>XADD\<close>, on one database: \<open>runCmd\<close> gives the keyspace after a command, or
  \<open>None\<close> where the server answers with an error.  As when an append-only file is loaded, an
  expiration in the past is stored, not carried out at once.  The commands for fields are
  covered in the form with one field.  \<open>pf\<close> reads the text of a score.  Against this reference
  the commands of an object are correct if they leave its contents and its expiration under its
  key, and touch nothing else.
\<close>

subsection \<open>The reference\<close>

datatype redis_value =
    RString bytes
  | RList "bytes list"
  | RSet "bytes set"
  | RHash "bytes \<rightharpoonup> bytes \<times> int option"
  | RZSet "bytes \<rightharpoonup> float64"

type_synonym keyspace = "bytes \<rightharpoonup> redis_value \<times> int option"

fun pairs :: "'a list \<Rightarrow> ('a \<times> 'a) list option" where
  "pairs [] = Some []"
| "pairs [x] = None"
| "pairs (x # y # zs) = map_option ((#) (x, y)) (pairs zs)"

fun readScores :: "(bytes \<Rightarrow> float64 option) \<Rightarrow> (bytes \<times> bytes) list \<Rightarrow> (bytes \<times> float64) list option" where
  "readScores pf [] = Some []"
| "readScores pf ((s, m) # es) = (case pf s of None \<Rightarrow> None | Some x \<Rightarrow> map_option ((#) (m, x)) (readScores pf es))"

definition setFields :: "(bytes \<times> bytes) list \<Rightarrow> (bytes \<rightharpoonup> bytes \<times> int option) \<Rightarrow> bytes \<rightharpoonup> bytes \<times> int option" where
  "setFields fvs m = foldl (\<lambda>m (f, v). m(f \<mapsto> (v, None))) m fvs"

definition setScores :: "(bytes \<times> float64) list \<Rightarrow> (bytes \<rightharpoonup> float64) \<Rightarrow> bytes \<rightharpoonup> float64" where
  "setScores es m = foldl (\<lambda>m (e, x). m(e \<mapsto> x)) m es"

definition expireField :: "bytes \<Rightarrow> int option \<Rightarrow> (bytes \<rightharpoonup> bytes \<times> int option) \<Rightarrow> bytes \<rightharpoonup> bytes \<times> int option" where
  "expireField f t m = m(f := map_option (\<lambda>(v, _). (v, t)) (m f))"

definition execSet :: "bytes \<Rightarrow> bytes list \<Rightarrow> keyspace \<Rightarrow> keyspace option" where
  "execSet key args ks = (case args of [v] \<Rightarrow> Some (ks(key \<mapsto> (RString v, None))) | _ \<Rightarrow> None)"

definition execRPush :: "bytes \<Rightarrow> bytes list \<Rightarrow> keyspace \<Rightarrow> keyspace option" where
  "execRPush key args ks = (if args = [] then None else case ks key of
     None \<Rightarrow> Some (ks(key \<mapsto> (RList args, None)))
   | Some (RList vs, t) \<Rightarrow> Some (ks(key \<mapsto> (RList (vs @ args), t)))
   | _ \<Rightarrow> None)"

definition execSAdd :: "bytes \<Rightarrow> bytes list \<Rightarrow> keyspace \<Rightarrow> keyspace option" where
  "execSAdd key args ks = (if args = [] then None else case ks key of
     None \<Rightarrow> Some (ks(key \<mapsto> (RSet (set args), None)))
   | Some (RSet ms, t) \<Rightarrow> Some (ks(key \<mapsto> (RSet (ms \<union> set args), t)))
   | _ \<Rightarrow> None)"

definition execHMSet :: "bytes \<Rightarrow> bytes list \<Rightarrow> keyspace \<Rightarrow> keyspace option" where
  "execHMSet key args ks = (case pairs args of None \<Rightarrow> None | Some fvs \<Rightarrow> if fvs = [] then None else case ks key of
     None \<Rightarrow> Some (ks(key \<mapsto> (RHash (setFields fvs Map.empty), None)))
   | Some (RHash m, t) \<Rightarrow> Some (ks(key \<mapsto> (RHash (setFields fvs m), t)))
   | _ \<Rightarrow> None)"

definition execZAdd :: "(bytes \<Rightarrow> float64 option) \<Rightarrow> bytes \<Rightarrow> bytes list \<Rightarrow> keyspace \<Rightarrow> keyspace option" where
  "execZAdd pf key args ks = (case Option.bind (pairs args) (readScores pf) of None \<Rightarrow> None
   | Some es \<Rightarrow> if es = [] then None else case ks key of
       None \<Rightarrow> Some (ks(key \<mapsto> (RZSet (setScores es Map.empty), None)))
     | Some (RZSet m, t) \<Rightarrow> Some (ks(key \<mapsto> (RZSet (setScores es m), t)))
     | _ \<Rightarrow> None)"

definition execField :: "bytes \<Rightarrow> bytes list \<Rightarrow> int option \<Rightarrow> keyspace \<Rightarrow> keyspace option" where
  "execField key args t ks = (case args of
     [word, n, f] \<Rightarrow> if word \<noteq> strlit ''FIELDS'' \<or> n \<noteq> strlit ''1'' then None else (case ks key of
         None \<Rightarrow> Some ks
       | Some (RHash m, e) \<Rightarrow> Some (ks(key \<mapsto> (RHash (expireField f t m), e)))
       | _ \<Rightarrow> None)
   | _ \<Rightarrow> None)"

definition execHPExpireAt :: "bytes \<Rightarrow> bytes list \<Rightarrow> keyspace \<Rightarrow> keyspace option" where
  "execHPExpireAt key args ks = (case args of
     ms # rest \<Rightarrow> (case parseInt 64 ms of None \<Rightarrow> None
       | Some t \<Rightarrow> if t < 0 \<or> EB_EXPIRE_TIME_MAX < t then None else execField key rest (Some t) ks)
   | _ \<Rightarrow> None)"

definition execPExpireAt :: "bytes \<Rightarrow> bytes list \<Rightarrow> keyspace \<Rightarrow> keyspace option" where
  "execPExpireAt key args ks = (case args of
     [ms] \<Rightarrow> (case parseInt 64 ms of None \<Rightarrow> None
       | Some t \<Rightarrow> Some (case ks key of None \<Rightarrow> ks | Some (v, _) \<Rightarrow> ks(key \<mapsto> (v, Some t))))
   | _ \<Rightarrow> None)"

definition runCmd :: "(bytes \<Rightarrow> float64 option) \<Rightarrow> cmdLine \<Rightarrow> keyspace \<Rightarrow> keyspace option" where
  "runCmd pf cmd ks = (if None \<in> set cmd then None else case map the cmd of
     name # key # args \<Rightarrow>
       if name = strlit ''SET'' then execSet key args ks
       else if name = strlit ''RPUSH'' then execRPush key args ks
       else if name = strlit ''SADD'' then execSAdd key args ks
       else if name = strlit ''HMSET'' then execHMSet key args ks
       else if name = strlit ''ZADD'' then execZAdd pf key args ks
       else if name = strlit ''HPEXPIREAT'' then execHPExpireAt key args ks
       else if name = strlit ''HPERSIST'' then execField key args None ks
       else if name = strlit ''PEXPIREAT'' then execPExpireAt key args ks
       else None
   | _ \<Rightarrow> None)"

fun runCmds :: "(bytes \<Rightarrow> float64 option) \<Rightarrow> cmdLine list \<Rightarrow> keyspace \<Rightarrow> keyspace option" where
  "runCmds pf [] ks = Some ks"
| "runCmds pf (cmd # cmds) ks = Option.bind (runCmd pf cmd ks) (runCmds pf cmds)"

text \<open>What an object stands for, and the objects whose commands can say it.\<close>

fun storedValue :: "'v redis_object \<Rightarrow> redis_value option" where
  "storedValue (StringObject _ v) = Some (RString v)"
| "storedValue (ListObject _ vals) = Some (RList vals)"
| "storedValue (SetObject _ members) = Some (RSet (set members))"
| "storedValue (HashObject _ h x) = Some (RHash (\<lambda>f. map_option
     (\<lambda>v. (v, if expireOf x f = 0 then None else Some (expireOf x f))) (map_of h f)))"
| "storedValue (ZSetObject _ es) = Some (RZSet (map_of (map (\<lambda>e. (zMember e, zScore e)) es)))"
| "storedValue _ = None"

definition stored :: "'v redis_object \<Rightarrow> (redis_value \<times> int option) option" where
  "stored obj = map_option (\<lambda>v. (v, map_option unixMilli (GetExpiration obj))) (storedValue obj)"

fun contents_ok :: "(bytes \<Rightarrow> float64 option) \<Rightarrow> (float64 \<Rightarrow> bytes) \<Rightarrow> 'v redis_object \<Rightarrow> bool" where
  "contents_ok pf ff (StringObject _ v) \<longleftrightarrow> True"
| "contents_ok pf ff (ListObject _ vals) \<longleftrightarrow> vals \<noteq> []"
| "contents_ok pf ff (SetObject _ members) \<longleftrightarrow> members \<noteq> []"
| "contents_ok pf ff (HashObject _ h x) \<longleftrightarrow> h \<noteq> [] \<and> distinct (map fst h) \<and>
     (x = [] \<or> distinct (map fst x) \<and> fst ` set x = fst ` set h) \<and>
     (\<forall>e \<in> snd ` set x. 0 \<le> e \<and> e \<le> EB_EXPIRE_TIME_MAX)"
| "contents_ok pf ff (ZSetObject _ es) \<longleftrightarrow> es \<noteq> [] \<and> distinct (map zMember es) \<and>
     (\<forall>e \<in> set es. pf (ff (zScore e)) = Some (zScore e))"
| "contents_ok pf ff _ \<longleftrightarrow> False"

definition replayable :: "(bytes \<Rightarrow> float64 option) \<Rightarrow> (float64 \<Rightarrow> bytes) \<Rightarrow> ('v redis_object \<Rightarrow> nat \<Rightarrow> bool) \<Rightarrow> 'v redis_object \<Rightarrow> bool" where
  "replayable pf ff nl obj \<longleftrightarrow> contents_ok pf ff obj \<and> (\<forall>i. \<not> nl obj i) \<and>
     (\<forall>t. GetExpiration obj = Some t \<longrightarrow> - (2 ^ 63) \<le> t \<and> t < 2 ^ 63)"

subsection \<open>The pieces of the reference\<close>

lemma pairs_concat: "pairs (concat (map (\<lambda>(a, b). [a, b]) xs)) = Some xs"
  by (induction xs) auto

lemma runCmds_append: "runCmds pf (xs @ ys) ks = Option.bind (runCmds pf xs ks) (runCmds pf ys)"
  by (induction xs arbitrary: ks) (simp_all split: Option.bind_split)

lemma setFields_apply:
  "distinct (map fst fvs) \<Longrightarrow> setFields fvs m f = (case map_of fvs f of None \<Rightarrow> m f | Some v \<Rightarrow> Some (v, None))"
proof (induction fvs arbitrary: m)
  case (Cons p fvs)
  obtain g v where p: "p = (g, v)" by (cases p)
  have "setFields (p # fvs) m = setFields fvs (m(g \<mapsto> (v, None)))" by (simp add: setFields_def p)
  with Cons show ?case by (auto simp: p map_of_eq_None_iff [symmetric] split: option.splits dest: map_of_SomeD)
qed (simp add: setFields_def)

lemma setScores_apply:
  "distinct (map fst es) \<Longrightarrow> setScores es m e = (case map_of es e of None \<Rightarrow> m e | Some x \<Rightarrow> Some x)"
proof (induction es arbitrary: m)
  case (Cons p es)
  obtain g v where p: "p = (g, v)" by (cases p)
  have "setScores (p # es) m = setScores es (m(g \<mapsto> v))" by (simp add: setScores_def p)
  with Cons show ?case by (auto simp: p map_of_eq_None_iff [symmetric] split: option.splits dest: map_of_SomeD)
qed (simp add: setScores_def)

lemma map_of_same_mset:
  assumes "mset xs = mset ys" "distinct (map fst xs)"
  shows "map_of xs = map_of ys"
proof -
  have "mset (map fst xs) = mset (map fst ys)" using assms(1) by simp
  then have ys: "distinct (map fst ys)" using assms(2) mset_eq_imp_distinct_iff by blast
  have "set xs = set ys" using assms(1) by (rule mset_eq_setD)
  then have "map_of xs k = Some v \<longleftrightarrow> map_of ys k = Some v" for k v
    using assms(2) ys by (simp add: map_of_eq_Some_iff)
  then show ?thesis by (intro ext) (metis option.exhaust)
qed

lemma readScores_text:
  "\<forall>e \<in> set es. pf (ff (zScore e)) = Some (zScore e) \<Longrightarrow>
     readScores pf (map (\<lambda>e. (ff (zScore e), zMember e)) es) = Some (map (\<lambda>e. (zMember e, zScore e)) es)"
  by (induction es) auto

definition expireFields :: "expirations \<Rightarrow> (bytes \<rightharpoonup> bytes \<times> int option) \<Rightarrow> bytes \<rightharpoonup> bytes \<times> int option" where
  "expireFields xs m = foldl (\<lambda>m (f, e). expireField f (if e = 0 then None else Some e) m) m xs"

lemma expireFields_apply:
  "distinct (map fst xs) \<Longrightarrow> expireFields xs m f = (case map_of xs f of None \<Rightarrow> m f
     | Some e \<Rightarrow> map_option (\<lambda>(v, _). (v, if e = 0 then None else Some e)) (m f))"
proof (induction xs arbitrary: m)
  case (Cons p xs)
  obtain g e where p: "p = (g, e)" by (cases p)
  have "expireFields (p # xs) m = expireFields xs (expireField g (if e = 0 then None else Some e) m)"
    by (simp add: expireFields_def p)
  with Cons show ?case
    by (auto simp: p expireField_def map_of_eq_None_iff [symmetric] split: option.splits dest: map_of_SomeD)
qed (simp add: expireFields_def)

lemma run_fieldExpire:
  assumes "0 \<le> e" "e \<le> EB_EXPIRE_TIME_MAX" "ks key = Some (RHash m, t)"
  shows "runCmd pf (fieldExpireCmd key (f, e)) ks =
    Some (ks(key \<mapsto> (RHash (expireField f (if e = 0 then None else Some e) m), t)))"
proof (cases "e = 0")
  case True
  then show ?thesis using assms(3)
    by (simp add: runCmd_def fieldExpireCmd_def cmd_names execField_def strlit_def)
next
  case False
  have "parseInt 64 (itoa e) = Some e" using assms(1,2) by (intro parseInt_itoa) (simp_all add: EB_EXPIRE_TIME_MAX_def)
  with False assms show ?thesis
    by (simp add: runCmd_def fieldExpireCmd_def cmd_names execHPExpireAt_def execField_def strlit_def)
qed

lemma run_fieldExpires:
  "\<forall>e \<in> snd ` set xs. 0 \<le> e \<and> e \<le> EB_EXPIRE_TIME_MAX \<Longrightarrow> ks key = Some (RHash m, t) \<Longrightarrow>
     runCmds pf (map (fieldExpireCmd key) xs) ks = Some (ks(key \<mapsto> (RHash (expireFields xs m), t)))"
proof (induction xs arbitrary: ks m)
  case (Cons x xs)
  obtain f e where x: "x = (f, e)" by (cases x)
  from Cons.prems x have "0 \<le> e" "e \<le> EB_EXPIRE_TIME_MAX" by auto
  from run_fieldExpire [of e ks key m t pf f, OF this Cons.prems(2)]
  have "runCmds pf (map (fieldExpireCmd key) (x # xs)) ks = runCmds pf (map (fieldExpireCmd key) xs)
      (ks(key \<mapsto> (RHash (expireField f (if e = 0 then None else Some e) m), t)))" by (simp add: x)
  also have "\<dots> = Some (ks(key \<mapsto> (RHash (expireFields xs (expireField f (if e = 0 then None else Some e) m)), t)))"
    using Cons.prems(1) by (subst Cons.IH [where m = "expireField f (if e = 0 then None else Some e) m"]) auto
  finally show ?case by (simp add: expireFields_def x fun_eq_iff)
qed (simp add: expireFields_def fun_upd_idem)

subsection \<open>The commands of an object\<close>

lemma run_hmset:
  assumes es: "mset es = mset h" "distinct (map fst h)" "h \<noteq> []" and ks: "ks key = None"
  shows "runCmd pf (Some hMSetCmd # Some key # concat (map (\<lambda>(f, v). [Some f, Some v]) es)) ks =
    Some (ks(key \<mapsto> (RHash (\<lambda>f. map_option (\<lambda>v. (v, None)) (map_of h f)), None)))"
proof -
  have args: "map the (concat (map (\<lambda>(f, v). [Some f, Some v]) es)) = concat (map (\<lambda>(f, v). [f, v]) es)"
    by (induction es) auto
  have "mset (map fst es) = mset (map fst h)" using es(1) by simp
  then have d: "distinct (map fst es)" using es(2) mset_eq_imp_distinct_iff by blast
  have "es \<noteq> []" using es by auto
  moreover have "setFields es Map.empty = (\<lambda>f. map_option (\<lambda>v. (v, None)) (map_of h f))"
    using map_of_same_mset [OF es(1) d] by (auto simp: fun_eq_iff setFields_apply [OF d] split: option.split)
  moreover have "None \<notin> set (concat (map (\<lambda>(f, v). [Some f, Some v]) es))" by (induction es) auto
  ultimately show ?thesis
    by (simp add: runCmd_def args hMSetCmd_def execHMSet_def pairs_concat ks strlit_def)
qed

lemma sorted_entries:
  obtains es where "(if lexical then sort_key fst (map (\<lambda>(f, v). (f, Some v)) h) else map (\<lambda>(f, v). (f, Some v)) h) =
    map (\<lambda>(f, v). (f, Some v)) es" "mset es = mset h"
proof -
  let ?h = "map (\<lambda>(f, v). (f, Some v)) h" and ?g = "map (\<lambda>(f, v). (f, the v))"
  let ?s = "if lexical then sort_key fst ?h else ?h"
  have "mset ?s = mset ?h" by simp
  then have "mset (?g ?s) = mset (?g ?h)" by (simp only: mset_map)
  also have "?g ?h = h" by (simp add: comp_def split_def)
  finally have m: "mset (?g ?s) = mset h" .
  have "\<forall>x \<in> set ?s. \<exists>f v. x = (f, Some v)" by auto
  then have "map (\<lambda>(f, v). (f, Some v)) (?g ?s) = ?s"
    unfolding map_map by (intro map_idI) (auto simp: comp_def split_def)
  from that [OF this [symmetric] m] show thesis .
qed

lemma run_hash:
  assumes ok: "contents_ok pf ff (HashObject b h x)" and ks: "ks key = None"
  shows "runCmds pf (hashToCmd key (map (\<lambda>(f, v). (f, Some v)) h) x lexical) ks =
    Some (ks(key \<mapsto> (the (storedValue (HashObject b h x)), None)))"
proof -
  obtain es where es: "(if lexical then sort_key fst (map (\<lambda>(f, v). (f, Some v)) h) else map (\<lambda>(f, v). (f, Some v)) h) =
    map (\<lambda>(f, v). (f, Some v)) es" "mset es = mset h" by (rule sorted_entries)
  have h: "h \<noteq> []" "distinct (map fst h)" using ok by auto
  let ?m = "\<lambda>f. map_option (\<lambda>v. (v, None :: int option)) (map_of h f)"
  have pair: "(\<lambda>p. case case p of (f, v) \<Rightarrow> (f, Some v) of (field, v) \<Rightarrow> [Some field, v]) = (\<lambda>(f, v). [Some f, Some v])"
    by (auto simp: fun_eq_iff)
  note hmset = run_hmset [where ks = ks and key = key and pf = pf, OF es(2) h(2,1) ks]
  show ?thesis
  proof (cases "x = []")
    case True
    with h(1) hmset show ?thesis
      unfolding hashToCmd_def Let_def es(1) map_map comp_def pair by (simp add: expireOf_def)
  next
    case False
    with ok have x: "distinct (map fst x)" "fst ` set x = fst ` set h" "\<forall>e \<in> snd ` set x. 0 \<le> e \<and> e \<le> EB_EXPIRE_TIME_MAX"
      by auto
    have "length x = length h" using x(1,2) h(2) by (metis distinct_card length_map list.set_map)
    moreover have "expireFields x ?m = (\<lambda>f. map_option (\<lambda>v. (v, if expireOf x f = 0 then None else Some (expireOf x f))) (map_of h f))"
      by (auto simp: fun_eq_iff expireFields_apply [OF x(1)] expireOf_def option.map_comp comp_def split: option.split)
    ultimately show ?thesis using hmset run_fieldExpires [OF x(3), of "ks(key \<mapsto> (RHash ?m, None))" key ?m None pf]
      unfolding hashToCmd_def Let_def es(1) map_map comp_def pair by simp
  qed
qed

lemma run_zset:
  assumes ok: "contents_ok pf ff (ZSetObject b es)" and ks: "ks key = None"
  shows "runCmd pf (zSetToCmd ff key es) ks = Some (ks(key \<mapsto> (the (storedValue (ZSetObject b es)), None)))"
proof -
  have args: "map the (concat (map (\<lambda>e. [Some (ff (zScore e)), Some (zMember e)]) es)) =
      concat (map (\<lambda>(a, b). [a, b]) (map (\<lambda>e. (ff (zScore e), zMember e)) es))" by (induction es) auto
  have d: "distinct (map fst (map (\<lambda>e. (zMember e, zScore e)) es))" using ok by (simp add: comp_def)
  have scores: "readScores pf (map (\<lambda>e. (ff (zScore e), zMember e)) es) = Some (map (\<lambda>e. (zMember e, zScore e)) es)"
    using ok by (intro readScores_text) simp
  have "setScores (map (\<lambda>e. (zMember e, zScore e)) es) Map.empty = map_of (map (\<lambda>e. (zMember e, zScore e)) es)"
    by (auto simp: fun_eq_iff setScores_apply [OF d] split: option.split)
  moreover have "None \<notin> set (concat (map (\<lambda>e. [Some (ff (zScore e)), Some (zMember e)]) es))" by (induction es) auto
  moreover have "es \<noteq> []" using ok by simp
  ultimately show ?thesis
    unfolding zSetToCmd_def runCmd_def by (simp add: args zAddCmd_def execZAdd_def pairs_concat scores ks strlit_def del: map_map)
qed

lemma zip_given: "(\<And>i. \<not> isNil i) \<Longrightarrow> zip (map fst h) (valueArgs isNil (map snd h)) = map (\<lambda>(f, v). (f, Some v)) h"
  by (simp add: valueArgs_given zip_map_map zip_map_fst_snd split_def) (simp add: zip_same_conv_map zip_map1 zip_map2)

lemma run_data:
  assumes ok: "contents_ok pf ff obj" "\<And>i. \<not> nl obj i" and ks: "ks (GetKey obj) = None" and cs: "dataCmds ff nl lexical obj = Inr cs"
  shows "\<exists>v. storedValue obj = Some v \<and> runCmds pf cs ks = Some (ks(GetKey obj \<mapsto> (v, None)))"
proof (cases obj)
  case (StringObject b v)
  with cs ok(2) ks show ?thesis
    by (auto simp: dataCmds_def stringToCmd_def valueArg_def runCmd_def setCmd_def execSet_def strlit_def GetKey_def)
next
  case (ListObject b vals)
  with cs ok ks show ?thesis
    by (auto simp: dataCmds_def listToCmd_def valueArgs_given runCmd_def rPushAllCmd_def execRPush_def strlit_def GetKey_def)
next
  case (SetObject b members)
  with cs ok ks show ?thesis
    by (auto simp: dataCmds_def setToCmd_def valueArgs_given runCmd_def sAddCmd_def execSAdd_def strlit_def GetKey_def)
next
  case (HashObject b h x)
  with cs zip_given [OF ok(2), of h] have "cs = hashToCmd (baseKey b) (map (\<lambda>(f, v). (f, Some v)) h) x lexical"
    by (simp add: dataCmds_def)
  with run_hash [of pf ff b h x ks "baseKey b" lexical] HashObject ok(1) ks show ?thesis by (simp add: GetKey_def)
next
  case (ZSetObject b es)
  with cs run_zset [of pf ff b es ks "baseKey b"] ok(1) ks show ?thesis by (auto simp: dataCmds_def GetKey_def)
qed (use ok in simp_all)

lemma run_object:
  assumes ok: "replayable pf ff nl obj" and ks: "ks (GetKey obj) = None"
  shows "hasCmds ff nl options obj" "runCmds pf (cmdsOf ff nl options obj) ks = Some (ks(GetKey obj := stored obj))"
proof -
  from ok have c: "contents_ok pf ff obj" "\<And>i. \<not> nl obj i" by (auto simp: replayable_def)
  obtain cs where cs: "dataCmds ff nl (LexOrder \<in> set options) obj = Inr cs"
    using c(1) by (cases obj) (auto simp: dataCmds_def)
  from run_data [where nl = nl and obj = obj and ks = ks, OF c ks cs] obtain v where v: "storedValue obj = Some v" "runCmds pf cs ks = Some (ks(GetKey obj \<mapsto> (v, None)))" by blast
  show "hasCmds ff nl options obj" by (simp add: hasCmds_def ObjectToCmd_def cs)
  show "runCmds pf (cmdsOf ff nl options obj) ks = Some (ks(GetKey obj := stored obj))"
  proof (cases "GetExpiration obj")
    case None
    with v show ?thesis by (simp add: cmdsOf_def ObjectToCmd_def cs stored_def)
  next
    case (Some t)
    with ok have t: "- (2 ^ 63) \<le> t" "t < 2 ^ 63" by (auto simp: replayable_def)
    then have "- (2 ^ 63) \<le> unixMilli t" "unixMilli t < 2 ^ 63" unfolding unixMilli_def by (auto split: if_splits)
    then have "parseInt 64 (itoa (unixMilli t)) = Some (unixMilli t)" by (intro parseInt_itoa) simp_all
    then have "runCmd pf (makeExpireCmd obj) (ks(GetKey obj \<mapsto> (v, None))) = Some (ks(GetKey obj \<mapsto> (v, Some (unixMilli t))))"
      by (simp add: makeExpireCmd_def Some runCmd_def pExpireAtBytes_def execPExpireAt_def strlit_def)
    with v Some show ?thesis by (simp add: cmdsOf_def ObjectToCmd_def cs stored_def runCmds_append)
  qed
qed

lemma run_objects:
  assumes "list_all (replayable pf ff nl) objs" "distinct (map GetKey objs)" "\<forall>obj \<in> set objs. ks (GetKey obj) = None"
  shows "\<exists>ks'. runCmds pf (concat (map (cmdsOf ff nl options) objs)) ks = Some ks' \<and>
    (\<forall>obj \<in> set objs. ks' (GetKey obj) = stored obj) \<and> (\<forall>key. key \<notin> GetKey ` set objs \<longrightarrow> ks' key = ks key)"
  using assms
proof (induction objs arbitrary: ks)
  case (Cons obj objs)
  from Cons.prems have ok: "replayable pf ff nl obj" "ks (GetKey obj) = None" by simp_all
  let ?ks = "ks(GetKey obj := stored obj)"
  have "\<forall>x \<in> set objs. ?ks (GetKey x) = None" using Cons.prems by (fastforce simp: image_iff)
  from Cons.IH [OF _ _ this] Cons.prems(1,2) obtain ks' where ks': "runCmds pf (concat (map (cmdsOf ff nl options) objs)) ?ks = Some ks'"
    "\<forall>x \<in> set objs. ks' (GetKey x) = stored x" "\<forall>key. key \<notin> GetKey ` set objs \<longrightarrow> ks' key = ?ks key" by (auto simp del: fun_upd_apply)
  have "ks' (GetKey obj) = stored obj" using ks'(3) Cons.prems(2) by simp
  with ks' run_object(2) [where ks = ks and options = options, OF ok] show ?case by (intro exI [of _ ks']) (auto simp: runCmds_append)
qed simp

subsection \<open>Properties\<close>

text \<open>
  C31: run against a keyspace that has none of the keys, the commands of strings, lists, sets,
  hashes and sorted sets with different keys are all accepted and leave, under the key of every
  object, its contents (elements in order, members, fields with their values and expirations,
  members with their scores) and its expiration in milliseconds, and touch no other key.  The
  hypotheses: no value is a nil slice; collections are not empty; the fields of a hash and the
  members of a sorted set are different, expirations are given for every field or for none and
  within the range of Redis; the text of a score is read back as the score; expirations fit
  64 bits.
\<close>

theorem commands_replay:
  assumes "list_all (replayable pf ff nl) objs" and "distinct (map GetKey objs)" and "\<forall>obj \<in> set objs. ks (GetKey obj) = None"
  shows "\<exists>ks'. runCmds pf (concat (map (cmdsOf ff nl options) objs)) ks = Some ks' \<and>
    (\<forall>obj \<in> set objs. ks' (GetKey obj) = stored obj) \<and> (\<forall>key. key \<notin> GetKey ` set objs \<longrightarrow> ks' key = ks key)"
  using assms by (rule run_objects)

theorem commands_replay_witness:
  "\<exists>ks'. runCmds (\<lambda>_. None) (concat (map (cmdsOf (\<lambda>_. []) (\<lambda>_ _. False) [])
     [StringObject (emptyBase\<lparr>baseKey := strlit ''s'', baseExpiration := Some 1500000\<rparr>) (strlit ''v''),
      HashObject (emptyBase\<lparr>baseKey := strlit ''h''\<rparr>) [(strlit ''f'', strlit ''w'')] [(strlit ''f'', 5)] :: robj])) Map.empty = Some ks' \<and>
   ks' (strlit ''s'') = Some (RString (strlit ''v''), Some 1) \<and>
   (\<exists>m. ks' (strlit ''h'') = Some (RHash m, None) \<and> m (strlit ''f'') = Some (strlit ''w'', Some 5)) \<and> ks' (strlit ''x'') = None"
proof -
  let ?objs = "[StringObject (emptyBase\<lparr>baseKey := strlit ''s'', baseExpiration := Some 1500000\<rparr>) (strlit ''v''),
      HashObject (emptyBase\<lparr>baseKey := strlit ''h''\<rparr>) [(strlit ''f'', strlit ''w'')] [(strlit ''f'', 5)] :: robj]"
  have "list_all (replayable (\<lambda>_. None) (\<lambda>_. []) (\<lambda>_ _. False)) ?objs"
    by (simp add: replayable_def EB_EXPIRE_TIME_MAX_def GetExpiration_def emptyBase_def)
  moreover have "distinct (map GetKey ?objs)" by (simp add: GetKey_def strlit_def)
  ultimately show ?thesis
    using commands_replay [of "\<lambda>_. None" "\<lambda>_. []" "\<lambda>_ _. False" ?objs Map.empty "[]"]
    by (auto simp: GetKey_def stored_def GetExpiration_def unixMilli_def emptyBase_def expireOf_def strlit_def)
qed

end
