(* ===== verification/Marshal.thy ===== *)
theory Marshal
  imports Model
begin

section \<open>The JSON form of an object (MarshalJSON of model/model.go)\<close>

text \<open>
  The value the encoding library is given for an object, as a tree: what the
  \<^verbatim>\<open>MarshalJSON\<close> methods build and what the field tags say, with the embedded base in
  front and the fields marked \<^verbatim>\<open>omitempty\<close> left out when they are nil, zero or empty.
  Turning the tree into text is the library's: the escapes of a string, the text of a time
  and of a floating-point number.  A nil slice stands for an empty one.
\<close>

datatype 'v jval =
    JBool bool
  | JText bytes
  | JInt int
  | JFloat float64
  | JTime int
  | JArray "'v jval list"
  | JMap "(bytes \<times> 'v jval) list"
  | JStruct "(bytes \<times> 'v jval) list"
  | JAny 'v

type_synonym 'v jfields = "(bytes \<times> 'v jval) list"

definition field :: "string \<Rightarrow> 'v jval \<Rightarrow> 'v jfields" where
  "field name v = [(strlit name, v)]"

definition omitEmpty :: "string \<Rightarrow> bool \<Rightarrow> 'v jval \<Rightarrow> 'v jfields" where
  "omitEmpty name isEmpty v = (if isEmpty then [] else field name v)"

definition omitNil :: "string \<Rightarrow> ('a \<Rightarrow> 'v jval) \<Rightarrow> 'a option \<Rightarrow> 'v jfields" where
  "omitNil name f p = (case p of None \<Rightarrow> [] | Some v \<Rightarrow> field name (f v))"

subsection \<open>The base\<close>

definition baseFields :: "base_object \<Rightarrow> 'v jfields" where
  "baseFields o' =
     field ''db'' (JInt (baseDB o')) @ field ''key'' (JText (baseKey o')) @
     omitNil ''expiration'' JTime (baseExpiration o') @ field ''size'' (JInt (baseSize o')) @
     field ''type'' (JText (baseType o')) @ field ''encoding'' (JText (baseEncoding o')) @
     omitNil ''lru'' JInt (baseIdleTime o') @ omitNil ''lfu'' JInt (baseFreq o')"

subsection \<open>The fields of each type\<close>

definition stringJson :: "bytes \<Rightarrow> 'v jfields" where
  "stringJson val = field ''value'' (JText val)"

definition listJson :: "bytes list \<Rightarrow> 'v jfields" where
  "listJson vals = field ''values'' (JArray (map JText vals))"

definition hashJson :: "hash \<Rightarrow> expirations \<Rightarrow> 'v jfields" where
  "hashJson h fieldExpirations =
     (let m = map (\<lambda>(k, v). (k, JText v)) h
      in if length fieldExpirations = length h
         then field ''hash'' (JMap m) @ field ''expire'' (JMap (map (\<lambda>(k, x). (k, JInt x)) fieldExpirations))
         else field ''hash'' (JMap m))"

definition setJson :: "bytes list \<Rightarrow> 'v jfields" where
  "setJson members = field ''members'' (JArray (map JText members))"

definition zsetEntryJson :: "zset_entry \<Rightarrow> 'v jval" where
  "zsetEntryJson e = JStruct (field ''member'' (JText (zMember e)) @ field ''score'' (JFloat (zScore e)))"

definition zsetJson :: "zset_entry list \<Rightarrow> 'v jfields" where
  "zsetJson entries = field ''entries'' (JArray (map zsetEntryJson entries))"

definition auxJson :: "bytes \<Rightarrow> 'v jfields" where
  "auxJson val = field ''value'' (JText val)"

definition functionsJson :: "bytes \<Rightarrow> 'v jfields" where
  "functionsJson lua = field ''functionsLua'' (JText lua)"

definition dbSizeJson :: "u64 \<Rightarrow> u64 \<Rightarrow> 'v jfields" where
  "dbSizeJson keyCount ttlCount = field ''KeyCount'' (JInt (uint keyCount)) @ field ''TTLCount'' (JInt (uint ttlCount))"

definition moduleJson :: "bytes \<Rightarrow> 'v \<Rightarrow> 'v jfields" where
  "moduleJson moduleType val = field ''moduleType'' (JText moduleType) @ field ''value'' (JAny val)"

subsection \<open>Streams\<close>

definition idJson :: "stream_id \<Rightarrow> 'v jval" where
  "idJson i = JText (streamIdText i)"

definition messageJson :: "stream_message \<Rightarrow> 'v jval" where
  "messageJson m = JStruct (field ''id'' (idJson (msgId m)) @
     field ''fields'' (JMap (map (\<lambda>(k, v). (k, JText v)) (msgFields m))) @ field ''deleted'' (JBool (msgDeleted m)))"

definition entryJson :: "stream_entry \<Rightarrow> 'v jval" where
  "entryJson e = JStruct (field ''firstMsgId'' (idJson (firstMsgId e)) @
     field ''fields'' (JArray (map JText (entryFields e))) @ field ''msgs'' (JArray (map messageJson (entryMsgs e))))"

definition nackJson :: "stream_nack \<Rightarrow> 'v jval" where
  "nackJson n = JStruct (field ''id'' (idJson (nackId n)) @
     field ''deliveryTime'' (JInt (uint (deliveryTime n))) @ field ''deliveryCount'' (JInt (uint (deliveryCount n))))"

definition consumerJson :: "stream_consumer \<Rightarrow> 'v jval" where
  "consumerJson c = JStruct (field ''name'' (JText (consumerName c)) @ field ''seenTime'' (JInt (uint (seenTime c))) @
     omitEmpty ''pending'' (consumerPending c = []) (JArray (map idJson (consumerPending c))) @
     field ''activeTime'' (JInt (uint (activeTime c))))"

definition groupJson :: "stream_group \<Rightarrow> 'v jval" where
  "groupJson g = JStruct (field ''name'' (JText (groupName g)) @ field ''lastId'' (idJson (groupLastId g)) @
     omitEmpty ''pending'' (groupPending g = []) (JArray (map nackJson (groupPending g))) @
     omitEmpty ''consumers'' (groupConsumers g = []) (JArray (map consumerJson (groupConsumers g))) @
     omitEmpty ''entriesRead'' (entriesRead g = 0) (JInt (uint (entriesRead g))))"

definition streamJson :: "stream_object \<Rightarrow> 'v jfields" where
  "streamJson s =
     omitEmpty ''version'' (streamVersion s = 0) (JInt (int (streamVersion s))) @
     omitEmpty ''entries'' (streamEntries s = []) (JArray (map entryJson (streamEntries s))) @
     omitEmpty ''groups'' (streamGroups s = []) (JArray (map groupJson (streamGroups s))) @
     field ''len'' (JInt (uint (streamLength s))) @ field ''lastId'' (idJson (lastId s)) @
     omitNil ''firstId'' idJson (firstId s) @ omitNil ''maxDeletedId'' idJson (maxDeletedId s) @
     omitEmpty ''addedEntriesCount'' (addedEntriesCount s = 0) (JInt (uint (addedEntriesCount s)))"

fun ownFields :: "'v redis_object \<Rightarrow> 'v jfields" where
  "ownFields (StringObject _ val) = stringJson val"
| "ownFields (ListObject _ vals) = listJson vals"
| "ownFields (HashObject _ h exps) = hashJson h exps"
| "ownFields (SetObject _ members) = setJson members"
| "ownFields (ZSetObject _ entries) = zsetJson entries"
| "ownFields (StreamObject _ s) = streamJson s"
| "ownFields (AuxObject _ val) = auxJson val"
| "ownFields (FunctionsObject _ lua) = functionsJson lua"
| "ownFields (DBSizeObject _ k t) = dbSizeJson k t"
| "ownFields (ModuleTypeObject _ m val) = moduleJson m val"

definition objectJson :: "'v redis_object \<Rightarrow> 'v jval" where
  "objectJson x = JStruct (baseFields (baseOf x) @ ownFields x)"

subsection \<open>Nothing is lost\<close>

lemma of_char_less: "(of_char c :: nat) < 256"
  by (cases c) simp

lemma strlit_inj [simp]: "strlit s = strlit t \<longleftrightarrow> s = t"
proof -
  have "inj (\<lambda>c :: char. of_nat (of_char c) :: byte)"
  proof (rule injI)
    fix c d :: char
    assume "(of_nat (of_char c) :: byte) = of_nat (of_char d)"
    then have "unat (of_nat (of_char c) :: byte) = unat (of_nat (of_char d) :: byte)" by simp
    then have "(of_char c :: nat) = of_char d" using of_char_less [of c] of_char_less [of d] by (simp add: unat_of_nat)
    then show "c = d" by simp
  qed
  then show ?thesis by (simp add: strlit_def inj_map_eq_map)
qed

text \<open>What follows a field that may be left out tells whether it was.\<close>

definition startsNot :: "string \<Rightarrow> 'v jfields \<Rightarrow> bool" where
  "startsNot name r \<longleftrightarrow> (\<forall>x \<in> set (take 1 r). fst x \<noteq> strlit name)"

lemma startsNot_simps [simp]:
  "startsNot name []"
  "startsNot name (field name' v) \<longleftrightarrow> name' \<noteq> name"
  "startsNot name (field name' v @ r) \<longleftrightarrow> name' \<noteq> name"
  "name' \<noteq> name \<Longrightarrow> startsNot name (omitEmpty name' e v)"
  "name' \<noteq> name \<Longrightarrow> startsNot name (omitNil name' f p)"
  "name' \<noteq> name \<Longrightarrow> startsNot name r \<Longrightarrow> startsNot name (omitEmpty name' e v @ r)"
  "name' \<noteq> name \<Longrightarrow> startsNot name r \<Longrightarrow> startsNot name (omitNil name' f p @ r)"
  by (auto simp: startsNot_def field_def omitEmpty_def omitNil_def split: option.split)

lemma field_eq [simp]:
  "field name v @ r = field name v' @ r' \<longleftrightarrow> v = v' \<and> r = r'"
  "field name v = field name v' \<longleftrightarrow> v = v'"
  by (auto simp: field_def)

lemma omitEmpty_eq:
  assumes "startsNot name r" "startsNot name r'"
  shows "omitEmpty name e v @ r = omitEmpty name e' v' @ r' \<longleftrightarrow> e = e' \<and> (\<not> e \<longrightarrow> v = v') \<and> r = r'"
  using assms by (cases r; cases r') (auto simp: omitEmpty_def field_def startsNot_def)

lemma omitNil_eq:
  assumes "startsNot name r" "startsNot name r'" and "inj f"
  shows "omitNil name f p @ r = omitNil name f p' @ r' \<longleftrightarrow> p = p' \<and> r = r'"
  using assms by (cases r; cases r') (auto simp: omitNil_def field_def startsNot_def inj_eq split: option.splits)

lemma inj_jval [simp]: "inj JTime" "inj JInt"
  by (simp_all add: inj_def)

lemmas omitEmpty_last = omitEmpty_eq [where r = "[]" and r' = "[]", simplified]
lemmas omitNil_last = omitNil_eq [where r = "[]" and r' = "[]", simplified]

lemma streamIdText_inj: "streamIdText i = streamIdText j \<longleftrightarrow> i = j"
proof
  assume eq: "streamIdText i = streamIdText j"
  have digit: "45 \<notin> set (itoa (uint w))" for w :: u64
    using list_all_digits [of "nat (uint w)"] by (auto simp: itoa_def list_all_iff isDigit_def)
  have tw: "takeWhile (\<lambda>b. b \<noteq> 45) (itoa (uint w) @ 45 # r) = itoa (uint w)" for w :: u64 and r
    using digit [of w] by (subst takeWhile_append2) auto
  have "itoa (uint (idMs i)) @ 45 # itoa (uint (idSequence i)) = itoa (uint (idMs j)) @ 45 # itoa (uint (idSequence j))"
    using eq by (simp add: streamIdText_def strlit_def)
  moreover from this tw have "itoa (uint (idMs i)) = itoa (uint (idMs j))" by metis
  ultimately show "i = j" by (cases i; cases j) (simp add: itoa_inj word_uint_eq_iff)
qed simp

lemma idJson_inj [simp]: "idJson i = idJson j \<longleftrightarrow> i = j"
  by (simp add: idJson_def streamIdText_inj)

lemma inj_idJson [simp]: "inj idJson"
  by (simp add: inj_def)

lemma map_eq_inj: "map f xs = map f ys \<longleftrightarrow> xs = ys" if "\<And>x y. f x = f y \<longleftrightarrow> x = y"
  using that by (simp add: inj_map_eq_map inj_on_def)

lemma map_texts [simp]: "map JText xs = map JText ys \<longleftrightarrow> xs = ys"
  by (rule map_eq_inj) simp

lemma map_pairs [simp]: "map (\<lambda>(k, v). (k, JText v)) xs = map (\<lambda>(k, v). (k, JText v)) ys \<longleftrightarrow> xs = ys"
  by (rule map_eq_inj) auto

lemma map_exps [simp]: "map (\<lambda>(k, v). (k, JInt v)) xs = map (\<lambda>(k, v). (k, JInt v)) ys \<longleftrightarrow> xs = ys"
  by (rule map_eq_inj) auto

lemma messageJson_inj: "messageJson m = messageJson n \<longleftrightarrow> m = n"
  by (cases m; cases n) (auto simp: messageJson_def)

lemma entryJson_inj: "entryJson m = entryJson n \<longleftrightarrow> m = n"
  by (cases m; cases n) (auto simp: entryJson_def map_eq_inj [OF messageJson_inj])

lemma nackJson_inj: "nackJson m = nackJson n \<longleftrightarrow> m = n"
  by (cases m; cases n) (auto simp: nackJson_def word_uint_eq_iff)

lemma map_ids [simp]: "map idJson xs = map idJson ys \<longleftrightarrow> xs = ys"
  by (rule map_eq_inj) simp

lemma consumerJson_inj: "consumerJson m = consumerJson n \<longleftrightarrow> m = n"
  by (cases m; cases n) (auto simp: consumerJson_def omitEmpty_eq word_uint_eq_iff)

lemma groupJson_inj: "groupJson m = groupJson n \<longleftrightarrow> m = n"
  by (cases m; cases n) (auto simp: groupJson_def omitEmpty_eq omitEmpty_last map_eq_inj [OF nackJson_inj] map_eq_inj [OF consumerJson_inj] word_uint_eq_iff)

lemma streamJson_inj: "streamJson m = streamJson n \<longleftrightarrow> m = n"
  by (cases m; cases n) (auto simp: streamJson_def omitEmpty_eq omitNil_eq omitEmpty_last map_eq_inj [OF entryJson_inj]
    map_eq_inj [OF groupJson_inj] word_uint_eq_iff)

lemma zsetEntryJson_inj: "zsetEntryJson m = zsetEntryJson n \<longleftrightarrow> m = n"
  by (cases m; cases n) (auto simp: zsetEntryJson_def)

text \<open>The base comes first, and nothing an object adds is taken for a part of it.\<close>

lemma ownFields_start [simp]: "startsNot ''lru'' (ownFields x)" "startsNot ''lfu'' (ownFields x)"
  by (cases x; simp add: stringJson_def listJson_def hashJson_def setJson_def zsetJson_def auxJson_def
      functionsJson_def dbSizeJson_def moduleJson_def streamJson_def Let_def)+

definition shown :: "base_object \<Rightarrow> base_object" where
  "shown b = b\<lparr>baseExtra := None\<rparr>"

lemma baseFields_inj:
  "baseFields b @ ownFields x = baseFields c @ ownFields y \<longleftrightarrow> shown b = shown c \<and> ownFields x = ownFields y"
  by (cases b; cases c) (auto simp: baseFields_def omitNil_eq shown_def)

text \<open>
  The expirations of a hash cover its fields or there are none, and the base knows the type,
  as it does in what the decoder delivers except for modules and for the sizes of a database,
  whose base it leaves empty; these two are told apart by their own fields.
\<close>

fun marshallable :: "'v redis_object \<Rightarrow> bool" where
  "marshallable (HashObject b h exps) \<longleftrightarrow> baseType b = HashType \<and> (exps = [] \<or> length exps = length h)"
| "marshallable (ModuleTypeObject b m val) \<longleftrightarrow> True"
| "marshallable (DBSizeObject b keyCount ttlCount) \<longleftrightarrow> True"
| "marshallable x \<longleftrightarrow> baseType (baseOf x) = GetType x"

lemma hashJson_inj:
  assumes "exps = [] \<or> length exps = length h" "exps' = [] \<or> length exps' = length h'"
  shows "hashJson h exps = hashJson h' exps' \<longleftrightarrow> h = h' \<and> exps = exps'"
  using assms by (auto simp: hashJson_def Let_def field_def)

lemma moduleJson_differs: "ownFields (ModuleTypeObject b m val) = ownFields x \<Longrightarrow> \<exists>c. x = ModuleTypeObject c m val"
  by (cases x) (auto simp: stringJson_def listJson_def hashJson_def setJson_def zsetJson_def auxJson_def
      functionsJson_def dbSizeJson_def moduleJson_def streamJson_def Let_def field_def omitEmpty_def split: if_splits)

lemma dbSizeJson_differs: "ownFields (DBSizeObject b k t) = ownFields x \<Longrightarrow> \<exists>c. x = DBSizeObject c k t"
  by (cases x) (auto simp: stringJson_def listJson_def hashJson_def setJson_def zsetJson_def auxJson_def
      functionsJson_def dbSizeJson_def moduleJson_def streamJson_def Let_def field_def omitEmpty_def word_uint_eq_iff
      split: if_splits)

lemma objectJson_inj:
  assumes "marshallable x" "marshallable y" "objectJson x = objectJson y"
  shows "withBase shown x = withBase shown y"
proof -
  from assms(3) have b: "shown (baseOf x) = shown (baseOf y)" and o: "ownFields x = ownFields y"
    by (simp_all add: objectJson_def baseFields_inj)
  from arg_cong [OF b, of baseType] have t: "baseType (baseOf x) = baseType (baseOf y)" by (simp add: shown_def)
  consider (xmod) b m val where "x = ModuleTypeObject b m val" | (ymod) b m val where "y = ModuleTypeObject b m val"
    | (xsize) b k c where "x = DBSizeObject b k c" | (ysize) b k c where "y = DBSizeObject b k c"
    | (data) "GetType x = GetType y" "\<nexists>b m val. x = ModuleTypeObject b m val" "\<nexists>b m val. y = ModuleTypeObject b m val"
    using assms(1,2) t by (cases x; cases y) auto
  then show ?thesis
  proof cases
    case xmod
    with o moduleJson_differs [of b m val y] obtain c where "y = ModuleTypeObject c m val" by auto
    with xmod b show ?thesis by simp
  next
    case ymod
    with o moduleJson_differs [of b m val x] obtain c where "x = ModuleTypeObject c m val" by auto
    with ymod b show ?thesis by simp
  next
    case xsize
    with o dbSizeJson_differs [of b k c y] obtain b' where "y = DBSizeObject b' k c" by auto
    with xsize \<open>shown (baseOf x) = shown (baseOf y)\<close> show ?thesis by simp
  next
    case ysize
    with o dbSizeJson_differs [of b k c x] obtain b' where "x = DBSizeObject b' k c" by auto
    with ysize \<open>shown (baseOf x) = shown (baseOf y)\<close> show ?thesis by simp
  next
    case data
    note same = data(1)
    show ?thesis
    proof (cases x)
      case x: (HashObject b' h exps)
      with same data(3) obtain c h' exps' where y: "y = HashObject c h' exps'" by (cases y) (simp_all add: otype_consts)
      with x b o assms(1,2) show ?thesis by (simp add: hashJson_inj)
    next
      case x: (StreamObject b' s)
      with same data(3) obtain c s' where y: "y = StreamObject c s'" by (cases y) (simp_all add: otype_consts)
      with x b o show ?thesis by (simp add: streamJson_inj)
    next
      case x: (ZSetObject b' es)
      with same data(3) obtain c es' where y: "y = ZSetObject c es'" by (cases y) (simp_all add: otype_consts)
      with x b o show ?thesis by (simp add: zsetJson_def map_eq_inj [OF zsetEntryJson_inj])
    qed (use same data b o in \<open>cases y; simp add: otype_consts stringJson_def listJson_def setJson_def auxJson_def
      functionsJson_def dbSizeJson_def word_uint_eq_iff\<close>)+
  qed
qed

subsection \<open>Properties\<close>

text \<open>
  C30: the JSON form of an object tells everything about it but the detail for the memory
  profiler: of objects whose base names their type, of modules and of the sizes of a database
  (and if the field expirations of a hash cover all fields or none), two with the same JSON form
  are of the same type and equal in everything else.
\<close>

theorem json_determines_object:
  assumes "marshallable x" and "marshallable y" and "objectJson x = objectJson y"
  shows "withBase (\<lambda>b. b\<lparr>baseExtra := None\<rparr>) x = withBase (\<lambda>b. b\<lparr>baseExtra := None\<rparr>) y"
proof -
  have "shown = (\<lambda>b. b\<lparr>baseExtra := None\<rparr>)" by (rule ext) (simp add: shown_def)
  with objectJson_inj [OF assms] show ?thesis by simp
qed

theorem json_determines_object_witness:
  "objectJson (HashObject (emptyBase\<lparr>baseType := HashType, baseExtra := Some (IntsetDetail 3)\<rparr>) [(strlit ''f'', strlit ''v'')] [(strlit ''f'', 5)] :: unit redis_object) =
     objectJson (HashObject (emptyBase\<lparr>baseType := HashType\<rparr>) [(strlit ''f'', strlit ''v'')] [(strlit ''f'', 5)]) \<and>
   withBase (\<lambda>b. b\<lparr>baseExtra := None\<rparr>) (HashObject (emptyBase\<lparr>baseType := HashType, baseExtra := Some (IntsetDetail 3)\<rparr>) [(strlit ''f'', strlit ''v'')] [(strlit ''f'', 5)] :: unit redis_object) =
     withBase (\<lambda>b. b\<lparr>baseExtra := None\<rparr>) (HashObject (emptyBase\<lparr>baseType := HashType\<rparr>) [(strlit ''f'', strlit ''v'')] [(strlit ''f'', 5)])"
proof -
  let ?x = "HashObject (emptyBase\<lparr>baseType := HashType, baseExtra := Some (IntsetDetail 3)\<rparr>) [(strlit ''f'', strlit ''v'')] [(strlit ''f'', 5)] :: unit redis_object"
  let ?y = "HashObject (emptyBase\<lparr>baseType := HashType\<rparr>) [(strlit ''f'', strlit ''v'')] [(strlit ''f'', 5)] :: unit redis_object"
  have eq: "objectJson ?x = objectJson ?y" by (simp add: objectJson_def baseFields_def)
  have "marshallable ?x" "marshallable ?y" by simp_all
  from json_determines_object [OF this eq] eq show ?thesis by blast
qed

end
