(* ===== verification/JsonPipeline.thy ===== *)
theory JsonPipeline
  imports Resp "HOL-Library.Multiset"
begin

section \<open>The concurrent JSON conversion (helper/json.go)\<close>

text \<open>
  \<^verbatim>\<open>ToJsons\<close> runs a parser goroutine, a number of marshalling goroutines and a writing
  goroutine, joined by two channels, and waits for them.  A state holds what each of them
  has left to do; the step relation lets any of them go on, so that every scheduling is
  covered.  A channel is its buffer; a send blocks while the buffer is full, a receive
  while it is empty and not closed.  The parser goroutine is the list of the objects its
  callback will be given and what \<^verbatim>\<open>Parse\<close> will return.  \<open>marshal\<close> is
  \<^verbatim>\<open>jsonEncoder.Marshal\<close>, library code, which may fail.

  The variable \<^verbatim>\<open>err\<close> of the function is shared: the parser goroutine, the writing goroutine
  and the function itself all assign it, and the last two test it after an assignment of their
  own.  An assignment and its test are two steps, so that another assignment can come between
  them.  A single access is taken to be atomic and seen at once by everyone; the marshalling
  goroutines have an \<^verbatim>\<open>err\<close> of their own.
\<close>

subsection \<open>State\<close>

datatype 'o worker = Receiving | Marshalling 'o | Sending bytes | Exited

datatype writer_point = Taking | Testing | WriterLeft

datatype main_point = WaitingWorkers | WaitingWriter | TestingSeek | TestingWrite | Returned "unit res"

record 'o pipeline =
  toParse :: "'o list"
  parseEnd :: "unit res"
  parserReturned :: bool
  objChan :: "'o list"
  objClosed :: bool
  workers :: "'o worker list"
  jsonChan :: "bytes list"
  jsonClosed :: bool
  writerAt :: writer_point
  nothingWritten :: bool
  jsonFile :: byte_file
  sought :: bool
  sharedErr :: "go_error option"
  mainAt :: main_point

definition chanCap :: nat where
  "chanCap = 1000"

definition newPipeline :: "'o list \<Rightarrow> unit res \<Rightarrow> nat \<Rightarrow> byte_file \<Rightarrow> 'o pipeline" where
  "newPipeline objs parsed concurrent f = \<lparr>toParse = objs, parseEnd = parsed, parserReturned = False,
     objChan = [], objClosed = False, workers = replicate concurrent Receiving, jsonChan = [], jsonClosed = False,
     writerAt = Taking, nothingWritten = True, jsonFile = f, sought = False, sharedErr = None, mainAt = WaitingWorkers\<rparr>"

subsection \<open>Steps\<close>

text \<open>What an assignment stores in \<^verbatim>\<open>err\<close>.\<close>

definition errOf :: "'a res \<Rightarrow> go_error option" where
  "errOf r = (case r of Inl e \<Rightarrow> Some e | Inr _ \<Rightarrow> None)"

text \<open>
  The loop of the writing goroutine: the write with the assignment of its error, and the test
  of the shared error, after which a failed write is printed and skipped.
\<close>

definition writeJson :: "bytes \<Rightarrow> 'o pipeline \<Rightarrow> 'o pipeline" where
  "writeJson data s = (case fileWrite (data @ strlit '','' @ [10]) (jsonFile s) of
     (r, f) \<Rightarrow> s\<lparr>writerAt := Testing, jsonFile := f, sharedErr := errOf r\<rparr>)"

definition testJson :: "'o pipeline \<Rightarrow> 'o pipeline" where
  "testJson s = (if sharedErr s \<noteq> None then s\<lparr>writerAt := Taking\<rparr>
     else s\<lparr>writerAt := Taking, nothingWritten := False\<rparr>)"

text \<open>A write at an offset, over what is there.\<close>

definition writeAt :: "nat \<Rightarrow> bytes \<Rightarrow> (byte_file, unit) gom" where
  "writeAt pos p f =
     (let over = (\<lambda>q. take pos (fileBytes f) @ q @ drop (pos + length q) (fileBytes f))
      in case fileRefuses f (fileBytes f) p of
           Some n \<Rightarrow> (Inl (Msg ''write error''), f\<lparr>fileBytes := over (take n p)\<rparr>)
         | None \<Rightarrow> (Inr (), f\<lparr>fileBytes := over p\<rparr>))"

text \<open>The end of the function: \<^verbatim>\<open>Seek(-2, 2)\<close> if something was written, and the closing bracket.\<close>

definition seekBack :: "byte_file \<Rightarrow> unit res" where
  "seekBack f = (if length (fileBytes f) < 2 then Inl (Msg ''invalid argument'') else Inr ())"

definition closeBracket :: "bool \<Rightarrow> (byte_file, unit) gom" where
  "closeBracket moved f =
     writeAt (if moved then length (fileBytes f) - 2 else length (fileBytes f)) ([10] @ strlit '']'') f"

inductive pipeStep :: "('o \<Rightarrow> bytes option) \<Rightarrow> 'o pipeline \<Rightarrow> 'o pipeline \<Rightarrow> bool" for marshal where
  parserSends: "toParse s = obj # objs \<Longrightarrow> length (objChan s) < chanCap \<Longrightarrow>
    pipeStep marshal s (s\<lparr>toParse := objs, objChan := objChan s @ [obj]\<rparr>)"
| parserAssigns: "toParse s = [] \<Longrightarrow> \<not> parserReturned s \<Longrightarrow>
    pipeStep marshal s (s\<lparr>parserReturned := True, sharedErr := errOf (parseEnd s)\<rparr>)"
| parserCloses: "parserReturned s \<Longrightarrow> \<not> objClosed s \<Longrightarrow> pipeStep marshal s (s\<lparr>objClosed := True\<rparr>)"
| workerReceives: "i < length (workers s) \<Longrightarrow> workers s ! i = Receiving \<Longrightarrow> objChan s = obj # objs \<Longrightarrow>
    pipeStep marshal s (s\<lparr>objChan := objs, workers := (workers s)[i := Marshalling obj]\<rparr>)"
| workerMarshals: "i < length (workers s) \<Longrightarrow> workers s ! i = Marshalling obj \<Longrightarrow> marshal obj = Some data \<Longrightarrow>
    pipeStep marshal s (s\<lparr>workers := (workers s)[i := Sending data]\<rparr>)"
| workerSkips: "i < length (workers s) \<Longrightarrow> workers s ! i = Marshalling obj \<Longrightarrow> marshal obj = None \<Longrightarrow>
    pipeStep marshal s (s\<lparr>workers := (workers s)[i := Receiving]\<rparr>)"
| workerSends: "i < length (workers s) \<Longrightarrow> workers s ! i = Sending data \<Longrightarrow> length (jsonChan s) < chanCap \<Longrightarrow>
    pipeStep marshal s (s\<lparr>jsonChan := jsonChan s @ [data], workers := (workers s)[i := Receiving]\<rparr>)"
| workerExits: "i < length (workers s) \<Longrightarrow> workers s ! i = Receiving \<Longrightarrow> objChan s = [] \<Longrightarrow> objClosed s \<Longrightarrow>
    pipeStep marshal s (s\<lparr>workers := (workers s)[i := Exited]\<rparr>)"
| mainCloses: "mainAt s = WaitingWorkers \<Longrightarrow> list_all (\<lambda>w. w = Exited) (workers s) \<Longrightarrow>
    pipeStep marshal s (s\<lparr>jsonClosed := True, mainAt := WaitingWriter\<rparr>)"
| writerWrites: "writerAt s = Taking \<Longrightarrow> jsonChan s = data # rest \<Longrightarrow>
    pipeStep marshal s (writeJson data (s\<lparr>jsonChan := rest\<rparr>))"
| writerTests: "writerAt s = Testing \<Longrightarrow> pipeStep marshal s (testJson s)"
| writerExits: "writerAt s = Taking \<Longrightarrow> jsonChan s = [] \<Longrightarrow> jsonClosed s \<Longrightarrow> pipeStep marshal s (s\<lparr>writerAt := WriterLeft\<rparr>)"
| mainSeeks: "mainAt s = WaitingWriter \<Longrightarrow> writerAt s = WriterLeft \<Longrightarrow> \<not> nothingWritten s \<Longrightarrow>
    pipeStep marshal s (s\<lparr>sought := (seekBack (jsonFile s) = Inr ()), sharedErr := errOf (seekBack (jsonFile s)), mainAt := TestingSeek\<rparr>)"
| mainSeekFails: "mainAt s = TestingSeek \<Longrightarrow> sharedErr s = Some err \<Longrightarrow>
    pipeStep marshal s (s\<lparr>mainAt := Returned (Inl (Wrap ''error during seek in file'' err))\<rparr>)"
| mainWrites: "mainAt s = WaitingWriter \<and> writerAt s = WriterLeft \<and> nothingWritten s \<or>
    mainAt s = TestingSeek \<and> sharedErr s = None \<Longrightarrow> closeBracket (sought s) (jsonFile s) = (r, f) \<Longrightarrow>
    pipeStep marshal s (s\<lparr>jsonFile := f, sharedErr := errOf r, mainAt := TestingWrite\<rparr>)"
| mainWriteFails: "mainAt s = TestingWrite \<Longrightarrow> sharedErr s = Some err \<Longrightarrow>
    pipeStep marshal s (s\<lparr>mainAt := Returned (Inl (Wrap ''error during write in file'' err))\<rparr>)"
| mainReturns: "mainAt s = TestingWrite \<Longrightarrow> sharedErr s = None \<Longrightarrow>
    pipeStep marshal s (s\<lparr>mainAt := Returned (Inr ())\<rparr>)"

abbreviation pipeRuns :: "('o \<Rightarrow> bytes option) \<Rightarrow> 'o pipeline \<Rightarrow> 'o pipeline \<Rightarrow> bool" where
  "pipeRuns marshal \<equiv> (pipeStep marshal)\<^sup>*\<^sup>*"

subsection \<open>Termination and progress\<close>

fun workerWork :: "'o worker \<Rightarrow> nat" where
  "workerWork Receiving = 1"
| "workerWork (Marshalling _) = 5"
| "workerWork (Sending _) = 4"
| "workerWork Exited = 0"

fun writerWork :: "writer_point \<Rightarrow> nat" where
  "writerWork Testing = 2"
| "writerWork Taking = 1"
| "writerWork WriterLeft = 0"

fun mainWork :: "main_point \<Rightarrow> nat" where
  "mainWork WaitingWorkers = 4"
| "mainWork WaitingWriter = 3"
| "mainWork TestingSeek = 2"
| "mainWork TestingWrite = 1"
| "mainWork (Returned _) = 0"

definition work :: "'o pipeline \<Rightarrow> nat" where
  "work s = 6 * length (toParse s) + 5 * length (objChan s) + sum_list (map workerWork (workers s)) +
     2 * length (jsonChan s) + of_bool (\<not> parserReturned s) + of_bool (\<not> objClosed s) +
     writerWork (writerAt s) + mainWork (mainAt s)"

lemma sum_update:
  "i < length ws \<Longrightarrow> sum_list (map f (ws[i := w])) + f (ws ! i) = sum_list (map f ws) + f w" for f :: "'a \<Rightarrow> nat"
  by (induction ws arbitrary: i) (auto split: nat.split)

lemma writeJson_sel [simp]:
  "toParse (writeJson d s) = toParse s" "objChan (writeJson d s) = objChan s" "objClosed (writeJson d s) = objClosed s"
  "workers (writeJson d s) = workers s" "jsonChan (writeJson d s) = jsonChan s" "jsonClosed (writeJson d s) = jsonClosed s"
  "writerAt (writeJson d s) = Testing" "mainAt (writeJson d s) = mainAt s" "parserReturned (writeJson d s) = parserReturned s"
  "parseEnd (writeJson d s) = parseEnd s" "sought (writeJson d s) = sought s" "nothingWritten (writeJson d s) = nothingWritten s"
  by (simp_all add: writeJson_def split: prod.split)

lemma testJson_sel [simp]:
  "toParse (testJson s) = toParse s" "objChan (testJson s) = objChan s" "objClosed (testJson s) = objClosed s"
  "workers (testJson s) = workers s" "jsonChan (testJson s) = jsonChan s" "jsonClosed (testJson s) = jsonClosed s"
  "writerAt (testJson s) = Taking" "mainAt (testJson s) = mainAt s" "parserReturned (testJson s) = parserReturned s"
  "parseEnd (testJson s) = parseEnd s" "sought (testJson s) = sought s" "jsonFile (testJson s) = jsonFile s"
  "sharedErr (testJson s) = sharedErr s"
  "nothingWritten (testJson s) \<longleftrightarrow> nothingWritten s \<and> sharedErr s \<noteq> None"
  by (simp_all add: testJson_def)

lemma step_work:
  assumes "pipeStep marshal s s'"
  shows "work s' < work s"
  using assms
proof cases
  case (workerReceives i obj objs)
  with sum_update [of i "workers s" workerWork "Marshalling obj"] show ?thesis by (simp add: work_def)
next
  case (workerMarshals i obj data)
  with sum_update [of i "workers s" workerWork "Sending data"] show ?thesis by (simp add: work_def)
next
  case (workerSkips i obj)
  with sum_update [of i "workers s" workerWork Receiving] show ?thesis by (simp add: work_def)
next
  case (workerSends i data)
  with sum_update [of i "workers s" workerWork Receiving] show ?thesis by (simp add: work_def)
next
  case (workerExits i)
  with sum_update [of i "workers s" workerWork Exited] show ?thesis by (simp add: work_def)
next
  case (mainWrites r f)
  then show ?thesis by (auto simp: work_def)
qed (simp_all add: work_def)

text \<open>Who may have closed what, and who may have left.\<close>

definition orderly :: "'o pipeline \<Rightarrow> bool" where
  "orderly s \<longleftrightarrow> workers s \<noteq> [] \<and> (objClosed s \<longrightarrow> parserReturned s) \<and> (parserReturned s \<longrightarrow> toParse s = []) \<and>
     (Exited \<in> set (workers s) \<longrightarrow> objClosed s \<and> objChan s = []) \<and>
     (mainAt s = WaitingWorkers \<longleftrightarrow> \<not> jsonClosed s) \<and>
     (jsonClosed s \<longrightarrow> list_all (\<lambda>w. w = Exited) (workers s)) \<and>
     (writerAt s = WriterLeft \<longrightarrow> jsonClosed s \<and> jsonChan s = []) \<and>
     (mainAt s \<noteq> WaitingWorkers \<and> mainAt s \<noteq> WaitingWriter \<longrightarrow> writerAt s = WriterLeft)"

lemma orderly_new: "0 < n \<Longrightarrow> orderly (newPipeline objs parsed n f)"
  by (simp add: orderly_def newPipeline_def)

lemma not_all_exited: "i < length ws \<Longrightarrow> ws ! i \<noteq> Exited \<Longrightarrow> \<not> list_all (\<lambda>w. w = Exited) ws"
  by (auto simp: list_all_length)

lemma exited_update: "Exited \<in> set (ws[i := w]) \<Longrightarrow> w \<noteq> Exited \<Longrightarrow> Exited \<in> set ws"
  using set_update_subset_insert [of ws i w] by auto

lemma step_orderly:
  assumes "pipeStep marshal s s'" and o: "orderly s"
  shows "orderly s'"
  using assms(1)
proof cases
  case (workerReceives i obj objs)
  with o not_all_exited [of i "workers s"] exited_update [of "workers s" i "Marshalling obj"] show ?thesis
    by (auto simp: orderly_def)
next
  case (workerMarshals i obj data)
  with o not_all_exited [of i "workers s"] exited_update [of "workers s" i "Sending data"] show ?thesis
    by (auto simp: orderly_def)
next
  case (workerSkips i obj)
  with o not_all_exited [of i "workers s"] exited_update [of "workers s" i Receiving] show ?thesis
    by (auto simp: orderly_def)
next
  case (workerSends i data)
  with o not_all_exited [of i "workers s"] exited_update [of "workers s" i Receiving] show ?thesis
    by (auto simp: orderly_def)
next
  case (workerExits i)
  with o not_all_exited [of i "workers s"] show ?thesis by (auto simp: orderly_def)
next
  case parserSends
  with o show ?thesis by (auto simp: orderly_def)
next
  case mainCloses
  with o show ?thesis by (auto simp: orderly_def)
qed (use o in \<open>auto simp: orderly_def\<close>)

lemma step_exists:
  assumes o: "orderly s" and running: "\<And>r. mainAt s \<noteq> Returned r"
  shows "\<exists>s'. pipeStep marshal s s'"
proof (cases "writerAt s = Testing \<or> jsonChan s \<noteq> []")
  case True
  with o have "writerAt s = Testing \<or> writerAt s = Taking \<and> jsonChan s \<noteq> []"
    by (cases "writerAt s") (auto simp: orderly_def)
  with writerTests [of s marshal] writerWrites [of s _ _ marshal] show ?thesis by (metis neq_Nil_conv)
next
  case False
  then have empty: "jsonChan s = []" and w: "writerAt s = Taking \<or> writerAt s = WriterLeft"
    by (simp_all, cases "writerAt s", simp_all)
  show ?thesis
  proof (cases "mainAt s")
    case WaitingWriter
    with o have "jsonClosed s" by (auto simp: orderly_def)
    with w WaitingWriter empty writerExits [of s marshal] mainSeeks [of s marshal] mainWrites [of s _ _ marshal]
    show ?thesis by (metis surj_pair)
  next
    case TestingSeek
    with mainSeekFails [of s _ marshal] mainWrites [of s _ _ marshal] show ?thesis by (metis surj_pair option.exhaust)
  next
    case TestingWrite
    with mainWriteFails [of s _ marshal] mainReturns [of s marshal] show ?thesis by (metis option.exhaust)
  next
    case WaitingWorkers
    show ?thesis
    proof (cases "list_all (\<lambda>w. w = Exited) (workers s)")
      case True
      with WaitingWorkers mainCloses show ?thesis by blast
    next
      case False
      then obtain i where i: "i < length (workers s)" "workers s ! i \<noteq> Exited" by (auto simp: list_all_length)
      show ?thesis
      proof (cases "workers s ! i")
        case (Marshalling obj)
        with i workerMarshals workerSkips show ?thesis by (metis option.exhaust)
      next
        case (Sending data)
        with i empty workerSends [of i s data marshal] show ?thesis by (auto simp: chanCap_def)
      next
        case Receiving
        show ?thesis
        proof (cases "objChan s")
          case (Cons obj objs)
          with i Receiving workerReceives show ?thesis by metis
        next
          case Nil
          with i Receiving workerExits [of i s marshal] parserCloses [of s marshal] parserAssigns [of s marshal]
            parserSends [of s "hd (toParse s)" "tl (toParse s)" marshal] show ?thesis
            by (cases "toParse s") (auto simp: chanCap_def)
        qed
      qed (use i in simp)
    qed
  qed (use running in simp)
qed

lemma runs_orderly: "pipeRuns marshal s s' \<Longrightarrow> orderly s \<Longrightarrow> orderly s'"
  by (induction rule: rtranclp_induct) (auto dest: step_orderly)

lemma always_returns:
  assumes "orderly s"
  shows "\<exists>s' r. pipeRuns marshal s s' \<and> mainAt s' = Returned r"
  using assms
proof (induction "work s" arbitrary: s rule: less_induct)
  case less
  show ?case
  proof (cases "\<exists>r. mainAt s = Returned r")
    case False
    with step_exists [OF less.prems] obtain s1 where s1: "pipeStep marshal s s1" by blast
    from less.hyps [OF step_work [OF s1] step_orderly [OF s1 less.prems]] s1 show ?thesis
      by (meson converse_rtranclp_into_rtranclp)
  qed blast
qed

text \<open>No run is longer than the work there was.\<close>

lemma run_bounded: "(pipeStep marshal ^^ n) s s' \<Longrightarrow> n + work s' \<le> work s"
proof (induction n arbitrary: s')
  case (Suc n)
  then obtain t where "(pipeStep marshal ^^ n) s t" "pipeStep marshal t s'" by auto
  with Suc.IH [of t] step_work [of marshal t s'] show ?case by simp
qed simp

subsection \<open>What is written\<close>

fun pending :: "('o \<Rightarrow> bytes option) \<Rightarrow> 'o worker \<Rightarrow> bytes list" where
  "pending marshal (Marshalling obj) = (case marshal obj of None \<Rightarrow> [] | Some data \<Rightarrow> [data])"
| "pending marshal (Sending data) = [data]"
| "pending marshal _ = []"

fun joinLines :: "bytes list \<Rightarrow> bytes" where
  "joinLines [] = []"
| "joinLines [d] = d"
| "joinLines (d # ds) = d @ strlit '','' @ [10] @ joinLines ds"

definition jsonText :: "bytes list \<Rightarrow> bytes" where
  "jsonText ds = strlit ''['' @ [10] @ concat (map (\<lambda>d. d @ strlit '','' @ [10]) ds)"

definition jsonArray :: "bytes list \<Rightarrow> bytes" where
  "jsonArray ds = strlit ''['' @ [10] @ joinLines ds @ [10] @ strlit '']''"

lemma concat_lines: "ds \<noteq> [] \<Longrightarrow> concat (map (\<lambda>d. d @ strlit '','' @ [10]) ds) = joinLines ds @ strlit '','' @ [10]"
  by (induction ds rule: joinLines.induct) simp_all

definition jsonEnd :: bytes where
  "jsonEnd = [10] @ strlit '']''"

text \<open>The closing bracket behind a file with no object, behind the last comma, and over it.\<close>

lemma closeBracket_behind:
  "fileRefuses f = (\<lambda>_ _. None) \<Longrightarrow> closeBracket False f = (Inr (), f\<lparr>fileBytes := fileBytes f @ jsonEnd\<rparr>)"
  by (simp add: closeBracket_def writeAt_def jsonEnd_def)

lemma closeBracket_over:
  assumes "fileBytes f = jsonText ds" and "fileRefuses f = (\<lambda>_ _. None)" and "ds \<noteq> []"
  shows "seekBack f = Inr ()" "closeBracket True f = (Inr (), f\<lparr>fileBytes := jsonArray ds\<rparr>)"
proof -
  let ?p = "strlit ''['' @ [10] @ joinLines ds"
  have bs: "fileBytes f = ?p @ strlit '','' @ [10]" using assms(1,3) by (simp add: jsonText_def concat_lines)
  have two: "length (strlit '','' @ [10]) = 2" by (simp add: strlit_def)
  from bs two have "length (fileBytes f) - 2 = length ?p" by simp
  then show "closeBracket True f = (Inr (), f\<lparr>fileBytes := jsonArray ds\<rparr>)"
    using bs assms(2) by (simp add: closeBracket_def writeAt_def jsonArray_def strlit_def)
  show "seekBack f = Inr ()" using bs two by (simp add: seekBack_def)
qed

lemma jsonArray_Nil: "jsonText [] @ jsonEnd = jsonArray []"
  by (simp add: jsonText_def jsonArray_def jsonEnd_def)

text \<open>Everything that was marshalled, is being marshalled or will be, in the order of the way.\<close>

definition onTheWay :: "('o \<Rightarrow> bytes option) \<Rightarrow> 'o pipeline \<Rightarrow> bytes list" where
  "onTheWay marshal s = jsonChan s @ concat (map (pending marshal) (workers s)) @
     List.map_filter marshal (objChan s @ toParse s)"

text \<open>
  \<open>ds\<close> is what was written.  The flag \<^verbatim>\<open>empty\<close> is behind by the write being tested; and a
  test may have seen the error of the parser instead of that of the write, at most once.
\<close>

abbreviation parseFailed :: "'o pipeline \<Rightarrow> bool" where
  "parseFailed s \<equiv> parserReturned s \<and> parseEnd s \<noteq> Inr ()"

definition flagged :: "bytes list \<Rightarrow> 'o pipeline \<Rightarrow> bool" where
  "flagged ds s \<longleftrightarrow> (\<not> nothingWritten s \<longrightarrow> ds \<noteq> []) \<and>
     (if writerAt s = Testing
      then ds \<noteq> [] \<and> (sharedErr s = None \<or> parseFailed s) \<and>
        (nothingWritten s \<longrightarrow> length ds = 1 \<or> length ds = 2 \<and> parseFailed s \<and> sharedErr s = None)
      else nothingWritten s \<longrightarrow> ds = [] \<or> length ds = 1 \<and> parseFailed s)"

definition underway :: "('o \<Rightarrow> bytes option) \<Rightarrow> bytes list \<Rightarrow> 'o pipeline \<Rightarrow> bytes list \<Rightarrow> bool" where
  "underway marshal all s ds \<longleftrightarrow> fileBytes (jsonFile s) = jsonText ds \<and> flagged ds s \<and>
     mset (ds @ onTheWay marshal s) = mset all \<and> (length (workers s) = 1 \<longrightarrow> ds @ onTheWay marshal s = all)"

definition written :: "bytes list \<Rightarrow> 'o pipeline \<Rightarrow> bool" where
  "written all s \<longleftrightarrow>
     (\<exists>ds. fileBytes (jsonFile s) = jsonArray ds \<and> mset ds = mset all \<and> (length (workers s) = 1 \<longrightarrow> ds = all)) \<or>
     (parseEnd s \<noteq> Inr () \<and> (\<exists>d. all = [d] \<and> fileBytes (jsonFile s) = jsonText [d] @ jsonEnd))"

definition content :: "('o \<Rightarrow> bytes option) \<Rightarrow> bytes list \<Rightarrow> 'o pipeline \<Rightarrow> bool" where
  "content marshal all s \<longleftrightarrow> fileRefuses (jsonFile s) = (\<lambda>_ _. None) \<and>
     (case mainAt s of
        Returned r \<Rightarrow> r = Inr () \<and> written all s
      | TestingWrite \<Rightarrow> sharedErr s = None \<and> written all s
      | TestingSeek \<Rightarrow> sharedErr s = None \<and> sought s \<and> \<not> nothingWritten s \<and> (\<exists>ds. underway marshal all s ds)
      | _ \<Rightarrow> \<not> sought s \<and> (\<exists>ds. underway marshal all s ds))"

lemma mset_update:
  "i < length ws \<Longrightarrow> mset (concat (map f (ws[i := w]))) + mset (f (ws ! i)) = mset (concat (map f ws)) + mset (f w)"
  by (induction ws arbitrary: i) (auto split: nat.split simp: ac_simps)

lemma map_filter_append: "List.map_filter f (xs @ ys) = List.map_filter f xs @ List.map_filter f ys"
  by (simp add: List.map_filter_def)

text \<open>A step that neither writes nor ends keeps what is on the way.\<close>

lemma content_keeps:
  assumes c: "content marshal all s" and same: "jsonFile s' = jsonFile s" "nothingWritten s' = nothingWritten s"
      "parserReturned s' = parserReturned s" "parseEnd s' = parseEnd s" "sought s' = sought s" "sharedErr s' = sharedErr s"
    and way: "mset (onTheWay marshal s') = mset (onTheWay marshal s)"
      "length (workers s) = 1 \<Longrightarrow> onTheWay marshal s' = onTheWay marshal s"
    and n: "length (workers s') = length (workers s)"
    and writer: "writerAt s' = writerAt s \<or> writerAt s \<noteq> Testing \<and> writerAt s' \<noteq> Testing"
    and main: "mainAt s' = mainAt s \<or> mainAt s = WaitingWorkers \<and> mainAt s' = WaitingWriter"
  shows "content marshal all s'"
proof -
  have "flagged ds s' = flagged ds s" for ds using writer by (auto simp: flagged_def same)
  then have "underway marshal all s' ds \<longleftrightarrow> underway marshal all s ds" for ds
    using way by (auto simp: underway_def same n)
  moreover have "written all s' = written all s" by (simp add: written_def same n)
  ultimately show ?thesis using c main by (auto simp: content_def same split: main_point.splits)
qed

lemma content_worker:
  assumes c: "content marshal all s" and i: "i < length (workers s)" and ws: "workers s' = (workers s)[i := w]"
    and eq: "jsonChan s' @ pending marshal w @ List.map_filter marshal (objChan s' @ toParse s') =
      jsonChan s @ pending marshal (workers s ! i) @ List.map_filter marshal (objChan s @ toParse s)"
    and same: "jsonFile s' = jsonFile s" "nothingWritten s' = nothingWritten s" "mainAt s' = mainAt s"
      "parserReturned s' = parserReturned s" "parseEnd s' = parseEnd s" "sought s' = sought s" "sharedErr s' = sharedErr s"
      "writerAt s' = writerAt s"
  shows "content marshal all s'"
proof (rule content_keeps [OF c same(1,2,4-7)])
  let ?c = "\<lambda>ws. mset (concat (map (pending marshal) ws))"
  have "mset (onTheWay marshal s') + mset (pending marshal (workers s ! i)) =
      mset (jsonChan s') + mset (List.map_filter marshal (objChan s' @ toParse s')) + (?c ((workers s)[i := w]) + mset (pending marshal (workers s ! i)))"
    by (simp add: onTheWay_def ws ac_simps)
  also have "\<dots> = mset (jsonChan s') + mset (List.map_filter marshal (objChan s' @ toParse s')) + (?c (workers s) + mset (pending marshal w))"
    using mset_update [OF i, of "pending marshal" w] by simp
  also have "\<dots> = ?c (workers s) + mset (jsonChan s' @ pending marshal w @ List.map_filter marshal (objChan s' @ toParse s'))"
    by (simp add: ac_simps)
  also have "\<dots> = mset (onTheWay marshal s) + mset (pending marshal (workers s ! i))"
    unfolding eq by (simp add: onTheWay_def ac_simps)
  finally show "mset (onTheWay marshal s') = mset (onTheWay marshal s)" by simp
  show "onTheWay marshal s' = onTheWay marshal s" if one: "length (workers s) = 1"
  proof -
    from one obtain v where v: "workers s = [v]" by (metis One_nat_def length_0_conv length_Suc_conv)
    with i ws have "workers s' = [w]" by simp
    with v i eq show ?thesis by (simp add: onTheWay_def)
  qed
qed (simp_all add: ws same)

lemma map_filter_Cons:
  "List.map_filter f (x # xs) = (case f x of None \<Rightarrow> [] | Some y \<Rightarrow> [y]) @ List.map_filter f xs"
  by (simp add: List.map_filter_def split: option.split)

lemma map_filter_Nil [simp]: "List.map_filter f [] = []"
  by (simp add: List.map_filter_def)

text \<open>When the main goroutine goes on, the parser has returned and nothing is on the way.\<close>

lemma main_waits:
  assumes o: "orderly s" and "mainAt s \<noteq> WaitingWorkers"
  shows "parserReturned s" "writerAt s = WriterLeft \<Longrightarrow> onTheWay marshal s = []"
proof -
  have all: "\<forall>w \<in> set (workers s). w = Exited" and ne: "workers s \<noteq> []" using assms by (auto simp: orderly_def list_all_iff)
  then have "Exited \<in> set (workers s)" by (metis last_in_set)
  with o have obj: "objClosed s" "objChan s = []" by (auto simp: orderly_def)
  with o show ret: "parserReturned s" by (simp add: orderly_def)
  show "onTheWay marshal s = []" if "writerAt s = WriterLeft"
  proof -
    have "jsonChan s = []" "toParse s = []" using o ret that by (auto simp: orderly_def)
    moreover have "pending marshal w = []" if "w \<in> set (workers s)" for w using all that by auto
    ultimately show ?thesis using obj by (simp add: onTheWay_def)
  qed
qed

lemma content_waiting:
  "mainAt s = WaitingWorkers \<or> mainAt s = WaitingWriter \<Longrightarrow> content marshal all s \<longleftrightarrow>
     fileRefuses (jsonFile s) = (\<lambda>_ _. None) \<and> \<not> sought s \<and> (\<exists>ds. underway marshal all s ds)"
  by (auto simp: content_def)

lemma orderly_waiting: "orderly s \<Longrightarrow> writerAt s \<noteq> WriterLeft \<Longrightarrow> mainAt s = WaitingWorkers \<or> mainAt s = WaitingWriter"
  by (auto simp: orderly_def)

lemma flagged_assigns:
  "flagged ds s \<Longrightarrow> \<not> parserReturned s \<Longrightarrow> flagged ds (s\<lparr>parserReturned := True, sharedErr := errOf (parseEnd s)\<rparr>)"
  by (auto simp: flagged_def errOf_def split: if_splits sum.split)

lemma flagged_writes:
  "flagged ds s \<Longrightarrow> writerAt s \<noteq> Testing \<Longrightarrow> flagged (ds @ [d]) (s\<lparr>jsonChan := c, writerAt := Testing, jsonFile := f, sharedErr := None\<rparr>)"
  by (auto simp: flagged_def)

lemma flagged_tests: "flagged ds s \<Longrightarrow> writerAt s = Testing \<Longrightarrow> flagged ds (testJson s)"
  by (auto simp: flagged_def)

lemma bracket_written:
  assumes u: "underway marshal all s ds" and way: "onTheWay marshal s = []" and left: "writerAt s = WriterLeft"
    and ok: "fileRefuses (jsonFile s) = (\<lambda>_ _. None)" and b: "nothingWritten s \<longleftrightarrow> \<not> sought s"
    and close: "closeBracket (sought s) (jsonFile s) = (r, f)"
  shows "r = Inr () \<and> fileRefuses f = (\<lambda>_ _. None) \<and> written all (s\<lparr>jsonFile := f, sharedErr := e, mainAt := m\<rparr>)"
proof -
  from u way have ds: "fileBytes (jsonFile s) = jsonText ds" "mset ds = mset all" "length (workers s) = 1 \<longrightarrow> ds = all"
    and fl: "flagged ds s" by (auto simp: underway_def)
  show ?thesis
  proof (cases "nothingWritten s")
    case True
    with close b closeBracket_behind [OF ok] have f: "r = Inr ()" "f = (jsonFile s)\<lparr>fileBytes := jsonText ds @ jsonEnd\<rparr>"
      by (auto simp: ds(1))
    from True fl left consider "ds = []" | d where "ds = [d]" "parseEnd s \<noteq> Inr ()"
      by (auto simp: flagged_def length_Suc_conv)
    then show ?thesis
    proof cases
      case 1
      then show ?thesis using ds f ok by (auto simp: written_def jsonArray_Nil)
    next
      case 2
      with ds(2) have "all = [d]" by (metis mset_single_iff_right mset.simps(1,2) add_mset_add_single mset_single_iff)
      with 2 show ?thesis using f ok by (simp add: written_def)
    qed
  next
    case False
    with fl have "ds \<noteq> []" by (simp add: flagged_def)
    from closeBracket_over(2) [OF ds(1) ok this] False b close show ?thesis using ds ok by (auto simp: written_def)
  qed
qed

lemma step_content:
  assumes "pipeStep marshal s s'" and c: "content marshal all s" and o: "orderly s"
  shows "content marshal all s'"
  using assms(1)
proof cases
  case (parserSends obj objs)
  then show ?thesis by (intro content_keeps [OF c]) (simp_all add: onTheWay_def)
next
  case parserCloses
  then show ?thesis by (intro content_keeps [OF c]) (simp_all add: onTheWay_def)
next
  case (workerReceives i obj objs)
  then show ?thesis
    by (intro content_worker [OF c, of i s' "Marshalling obj"]) (simp_all add: map_filter_Cons split: option.split)
next
  case (workerMarshals i obj data)
  then show ?thesis
    by (intro content_worker [OF c, of i s' "Sending data"]) (simp_all add: map_filter_Cons split: option.split)
next
  case (workerSkips i obj)
  then show ?thesis
    by (intro content_worker [OF c, of i s' "Receiving"]) (simp_all add: map_filter_Cons split: option.split)
next
  case (workerSends i data)
  then show ?thesis
    by (intro content_worker [OF c, of i s' "Receiving"]) (simp_all add: map_filter_Cons split: option.split)
next
  case (workerExits i)
  then show ?thesis
    by (intro content_worker [OF c, of i s' "Exited"]) (simp_all add: map_filter_Cons split: option.split)
next
  case mainCloses
  then show ?thesis by (intro content_keeps [OF c]) (simp_all add: onTheWay_def)
next
  case parserAssigns
  with o main_waits(1) [of s] have m: "mainAt s = WaitingWorkers" by auto
  with c obtain ds where "fileRefuses (jsonFile s) = (\<lambda>_ _. None)" "\<not> sought s" "underway marshal all s ds"
    using content_waiting [of s] by auto
  with parserAssigns m flagged_assigns [of ds s] have "underway marshal all s' ds" "mainAt s' = WaitingWorkers"
    by (simp_all add: underway_def onTheWay_def)
  with \<open>fileRefuses (jsonFile s) = _\<close> \<open>\<not> sought s\<close> parserAssigns show ?thesis by (subst content_waiting) auto
next
  case (writerWrites data rest)
  with o have m: "mainAt s = WaitingWorkers \<or> mainAt s = WaitingWriter" by (intro orderly_waiting) simp_all
  with c obtain ds where ok: "fileRefuses (jsonFile s) = (\<lambda>_ _. None)" "\<not> sought s" and ds: "underway marshal all s ds"
    using content_waiting [of s] by auto
  have w: "s' = s\<lparr>jsonChan := rest, writerAt := Testing,
      jsonFile := (jsonFile s)\<lparr>fileBytes := fileBytes (jsonFile s) @ data @ strlit '','' @ [10]\<rparr>, sharedErr := None\<rparr>"
    using ok by (simp add: writerWrites(1) writeJson_def fileWrite_def errOf_def)
  have "flagged (ds @ [data]) s'" unfolding w using ds writerWrites(2) by (intro flagged_writes) (simp_all add: underway_def)
  then have "underway marshal all s' (ds @ [data])"
    using ds writerWrites(3) by (simp add: w underway_def onTheWay_def jsonText_def)
  then show ?thesis using m ok by (subst content_waiting) (auto simp: w)
next
  case writerTests
  with o have m: "mainAt s = WaitingWorkers \<or> mainAt s = WaitingWriter" by (intro orderly_waiting) simp_all
  with c obtain ds where ok: "fileRefuses (jsonFile s) = (\<lambda>_ _. None)" "\<not> sought s" and ds: "underway marshal all s ds"
    using content_waiting [of s] by auto
  have "underway marshal all s' ds"
    using ds flagged_tests [of ds s] writerTests by (simp add: underway_def onTheWay_def)
  then show ?thesis using m ok writerTests by (subst content_waiting) auto
next
  case writerExits
  then show ?thesis by (intro content_keeps [OF c]) (simp_all add: onTheWay_def)
next
  case mainSeeks
  with c obtain ds where ok: "fileRefuses (jsonFile s) = (\<lambda>_ _. None)" and ds: "underway marshal all s ds"
    using content_waiting [of s] by auto
  with mainSeeks have "ds \<noteq> []" by (simp add: underway_def flagged_def)
  with closeBracket_over(1) [of "jsonFile s" ds] ds ok have "seekBack (jsonFile s) = Inr ()" by (simp add: underway_def)
  moreover have "underway marshal all s' ds" using ds mainSeeks by (simp add: underway_def onTheWay_def flagged_def)
  ultimately show ?thesis using ok mainSeeks by (auto simp: content_def errOf_def)
next
  case (mainWrites r f)
  then have "mainAt s \<noteq> WaitingWorkers" "writerAt s = WriterLeft" using o by (auto simp: orderly_def)
  from main_waits(2) [OF o this] have way: "onTheWay marshal s = []" .
  from mainWrites(2) c obtain ds where "fileRefuses (jsonFile s) = (\<lambda>_ _. None)" "underway marshal all s ds"
      "nothingWritten s \<longleftrightarrow> \<not> sought s" by (auto simp: content_def)
  from bracket_written [OF this(2) way \<open>writerAt s = WriterLeft\<close> this(1,3) mainWrites(3)]
  show ?thesis using mainWrites(1) by (auto simp: content_def errOf_def)
qed (use c in \<open>auto simp: content_def written_def\<close>)

lemma runs_content:
  "pipeRuns marshal s s' \<Longrightarrow> content marshal all s \<Longrightarrow> orderly s \<Longrightarrow> content marshal all s' \<and> orderly s'"
  by (induction rule: rtranclp_induct) (auto dest: step_content step_orderly)

lemma content_new:
  "content marshal (List.map_filter marshal objs) (newPipeline objs parsed n \<lparr>fileBytes = jsonText [], fileRefuses = \<lambda>_ _. None\<rparr>)"
proof -
  have "concat (map (pending marshal) (replicate n Receiving)) = []" by (induction n) simp_all
  then show ?thesis
    by (subst content_waiting) (auto simp: newPipeline_def underway_def onTheWay_def flagged_def intro: exI [of _ "[]"])
qed

subsection \<open>The whole conversion\<close>

text \<open>
  The number of marshalling goroutines: all processors but one, unless an option says
  otherwise; the last option counts.
\<close>

fun setConcurrent :: "helper_option \<Rightarrow> int \<Rightarrow> int" where
  "setConcurrent (ConcurrentOption c) _ = c"
| "setConcurrent _ n = n"

definition WithConcurrent :: "int \<Rightarrow> helper_option" where
  "WithConcurrent c = ConcurrentOption c"

definition concurrency :: "int \<Rightarrow> helper_option list \<Rightarrow> int" where
  "concurrency cpuNum options = fold setConcurrent options (if 1 < cpuNum then cpuNum - 1 else 1)"

text \<open>
  An outcome is what the function returns and the file it leaves.  The early returns come
  first; \<^verbatim>\<open>WaitGroup.Add\<close> panics on a negative number; otherwise any complete run of the
  pipeline gives an outcome.
\<close>

inductive ToJsons ::
  "helper_env \<Rightarrow> (bytes \<Rightarrow> bytes option) \<Rightarrow> (robj \<Rightarrow> bytes option) \<Rightarrow> int \<Rightarrow> bytes \<Rightarrow> bytes \<Rightarrow>
     (bytes \<Rightarrow> byte_file option) \<Rightarrow> helper_option list \<Rightarrow> byte_file \<Rightarrow> unit res \<Rightarrow> byte_file \<Rightarrow> bool"
  for env fs marshal cpuNum rdbFilename jsonFilename createFile options f0
where
  noSource: "rdbFilename = [] \<Longrightarrow>
    ToJsons env fs marshal cpuNum rdbFilename jsonFilename createFile options f0 (Inl (Msg ''src file path is required'')) f0"
| noTarget: "rdbFilename \<noteq> [] \<Longrightarrow> jsonFilename = [] \<Longrightarrow>
    ToJsons env fs marshal cpuNum rdbFilename jsonFilename createFile options f0 (Inl (Msg ''output file path is required'')) f0"
| notOpened: "rdbFilename \<noteq> [] \<Longrightarrow> jsonFilename \<noteq> [] \<Longrightarrow> fs rdbFilename = None \<Longrightarrow>
    ToJsons env fs marshal cpuNum rdbFilename jsonFilename createFile options f0 (Inl (Msg ''open rdb failed'')) f0"
| notCreated: "rdbFilename \<noteq> [] \<Longrightarrow> jsonFilename \<noteq> [] \<Longrightarrow> fs rdbFilename = Some inp \<Longrightarrow> createFile jsonFilename = None \<Longrightarrow>
    ToJsons env fs marshal cpuNum rdbFilename jsonFilename createFile options f0 (Inl (Msg ''create json failed'')) f0"
| badOption: "rdbFilename \<noteq> [] \<Longrightarrow> jsonFilename \<noteq> [] \<Longrightarrow> fs rdbFilename = Some inp \<Longrightarrow> createFile jsonFilename = Some f \<Longrightarrow>
    wrapDecoder env (coreDecoder (envParseFloat env) :: bool \<Rightarrow> (robj, robj list) parser) options = Inl err \<Longrightarrow>
    ToJsons env fs marshal cpuNum rdbFilename jsonFilename createFile options f0 (Inl err) f"
| notStarted: "rdbFilename \<noteq> [] \<Longrightarrow> jsonFilename \<noteq> [] \<Longrightarrow> fs rdbFilename = Some inp \<Longrightarrow> createFile jsonFilename = Some f \<Longrightarrow>
    wrapDecoder env (coreDecoder (envParseFloat env) :: bool \<Rightarrow> (robj, robj list) parser) options = Inr dec \<Longrightarrow>
    fileWrite (strlit ''['' @ [10]) f = (Inl err, f1) \<Longrightarrow>
    ToJsons env fs marshal cpuNum rdbFilename jsonFilename createFile options f0 (Inl (Wrap ''write json  failed'' err)) f1"
| negative: "rdbFilename \<noteq> [] \<Longrightarrow> jsonFilename \<noteq> [] \<Longrightarrow> fs rdbFilename = Some inp \<Longrightarrow> createFile jsonFilename = Some f \<Longrightarrow>
    wrapDecoder env (coreDecoder (envParseFloat env) :: bool \<Rightarrow> (robj, robj list) parser) options = Inr dec \<Longrightarrow>
    fileWrite (strlit ''['' @ [10]) f = (Inr (), f1) \<Longrightarrow> concurrency cpuNum options < 0 \<Longrightarrow>
    ToJsons env fs marshal cpuNum rdbFilename jsonFilename createFile options f0 (Inl (GoPanic ''sync: negative WaitGroup counter'')) f1"
| runs: "rdbFilename \<noteq> [] \<Longrightarrow> jsonFilename \<noteq> [] \<Longrightarrow> fs rdbFilename = Some inp \<Longrightarrow> createFile jsonFilename = Some f \<Longrightarrow>
    wrapDecoder env (coreDecoder (envParseFloat env) :: bool \<Rightarrow> (robj, robj list) parser) options = Inr dec \<Longrightarrow>
    fileWrite (strlit ''['' @ [10]) f = (Inr (), f1) \<Longrightarrow> 0 \<le> concurrency cpuNum options \<Longrightarrow>
    dec collect (newDecoder inp, []) = (parsed, (d, objs)) \<Longrightarrow>
    pipeRuns marshal (newPipeline objs parsed (nat (concurrency cpuNum options)) f1) s \<Longrightarrow> mainAt s = Returned r \<Longrightarrow>
    ToJsons env fs marshal cpuNum rdbFilename jsonFilename createFile options f0 r (jsonFile s)"

lemma collect_filtered:
  assumes "coreDecoder (envParseFloat env) (globalMetaOpt (settingsOf options)) collect (newDecoder inp, []) = (parsed, (d, objs))"
    and dec: "wrapDecoder env (coreDecoder (envParseFloat env) :: bool \<Rightarrow> (robj, robj list) parser) options = Inr dec"
  shows "dec collect (newDecoder inp, []) = (parsed, (d, filter (passes env (settingsOf options)) objs))"
proof -
  let ?cfg = "\<lambda>special. \<lparr>withSpecialOpCode = special, withSpecialTypes = \<lambda>_. None :: (int \<Rightarrow> unit handler) option\<rparr>"
  have core: "coreDecoder (envParseFloat env) = (\<lambda>special. Parse (envParseFloat env) (?cfg special))"
    by (rule ext) (simp add: coreDecoder_def)
  have "dec collect (newDecoder inp, (\<lambda>objs. objs) []) = (parsed, (d, (\<lambda>objs. objs) (filter (passes env (settingsOf options)) objs)))"
    using dec assms(1) unfolding core coreDecoder_def by (rule wrapDecoder_fold) (simp add: collect_def)
  then show ?thesis by simp
qed

text \<open>A file that takes everything, a source that can be read and options that are accepted.\<close>

definition canRun :: "helper_env \<Rightarrow> (bytes \<Rightarrow> bytes option) \<Rightarrow> bytes \<Rightarrow> bytes \<Rightarrow> (bytes \<Rightarrow> byte_file option) \<Rightarrow> helper_option list \<Rightarrow> bool" where
  "canRun env fs rdbFilename jsonFilename createFile options \<longleftrightarrow> rdbFilename \<noteq> [] \<and> jsonFilename \<noteq> [] \<and>
     fs rdbFilename \<noteq> None \<and> createFile jsonFilename = Some \<lparr>fileBytes = [], fileRefuses = \<lambda>_ _. None\<rparr> \<and>
     acceptsOptions env (settingsOf options)"

lemma ToJsons_run:
  assumes can: "canRun env fs rdbFilename jsonFilename createFile options" and "fs rdbFilename = Some inp"
    and plain: "coreDecoder (envParseFloat env) (globalMetaOpt (settingsOf options)) collect (newDecoder inp, []) = (parsed, (d, objs))"
    and n: "0 \<le> concurrency cpuNum options"
  shows "ToJsons env fs marshal cpuNum rdbFilename jsonFilename createFile options f0 r f \<longleftrightarrow>
    (\<exists>s. pipeRuns marshal (newPipeline (filter (passes env (settingsOf options)) objs) parsed (nat (concurrency cpuNum options))
        \<lparr>fileBytes = jsonText [], fileRefuses = \<lambda>_ _. None\<rparr>) s \<and> mainAt s = Returned r \<and> f = jsonFile s)"
proof -
  let ?f = "\<lparr>fileBytes = [], fileRefuses = \<lambda>_ _. None\<rparr>" and ?f1 = "\<lparr>fileBytes = jsonText [], fileRefuses = \<lambda>_ _. None\<rparr>"
  obtain dec :: "(robj, robj list) parser" where dec: "wrapDecoder env (coreDecoder (envParseFloat env)) options = Inr dec"
    using wrapDecoder_accepts [of env options] can by (auto simp: canRun_def)
  note run = collect_filtered [OF plain dec]
  have w: "fileWrite (strlit ''['' @ [10]) ?f = (Inr (), ?f1)" by (simp add: fileWrite_def jsonText_def)
  note facts = can [unfolded canRun_def] assms(2) dec w run n
  show ?thesis
  proof
    assume "ToJsons env fs marshal cpuNum rdbFilename jsonFilename createFile options f0 r f"
    then show "\<exists>s. pipeRuns marshal (newPipeline (filter (passes env (settingsOf options)) objs) parsed
        (nat (concurrency cpuNum options)) ?f1) s \<and> mainAt s = Returned r \<and> f = jsonFile s"
      by cases (use facts in auto)
  next
    assume "\<exists>s. pipeRuns marshal (newPipeline (filter (passes env (settingsOf options)) objs) parsed
        (nat (concurrency cpuNum options)) ?f1) s \<and> mainAt s = Returned r \<and> f = jsonFile s"
    then show "ToJsons env fs marshal cpuNum rdbFilename jsonFilename createFile options f0 r f"
      using ToJsons.runs [of rdbFilename jsonFilename fs inp createFile ?f env options dec ?f1 cpuNum parsed d _ marshal] facts
      by auto
  qed
qed

lemma ToJsons_output:
  assumes "canRun env fs rdbFilename jsonFilename createFile options" and "fs rdbFilename = Some inp"
    and "coreDecoder (envParseFloat env) (globalMetaOpt (settingsOf options)) collect (newDecoder inp, []) = (parsed, (d, objs))"
    and n: "0 < concurrency cpuNum options"
    and run: "ToJsons env fs marshal cpuNum rdbFilename jsonFilename createFile options f0 r f"
    and all: "all = List.map_filter marshal (filter (passes env (settingsOf options)) objs)"
  shows "r = Inr () \<and> ((\<exists>ds. fileBytes f = jsonArray ds \<and> mset ds = mset all \<and> (concurrency cpuNum options = 1 \<longrightarrow> ds = all)) \<or>
    (parsed \<noteq> Inr () \<and> (\<exists>d. all = [d] \<and> fileBytes f = jsonText [d] @ jsonEnd)))"
proof -
  let ?s0 = "newPipeline (filter (passes env (settingsOf options)) objs) parsed (nat (concurrency cpuNum options))
    \<lparr>fileBytes = jsonText [], fileRefuses = \<lambda>_ _. None\<rparr>"
  from run ToJsons_run [OF assms(1-3), of cpuNum marshal f0 r f] n obtain s where
    s: "pipeRuns marshal ?s0 s" "mainAt s = Returned r" "f = jsonFile s" by auto
  have "length (workers t) = length (workers ?s0) \<and> parseEnd t = parsed" if "pipeRuns marshal ?s0 t" for t
    using that by (induction rule: rtranclp_induct) (auto simp: newPipeline_def elim!: pipeStep.cases)
  with s(1) have len: "length (workers s) = nat (concurrency cpuNum options)" "parseEnd s = parsed" by (auto simp: newPipeline_def)
  have "content marshal all s"
    using runs_content [OF s(1) content_new [folded all] orderly_new] n by (simp add: all)
  with s(3) len show ?thesis by (auto simp: content_def s(2) written_def)
qed

lemma ToJsons_exists:
  assumes "canRun env fs rdbFilename jsonFilename createFile options" and "fs rdbFilename = Some inp"
    and "coreDecoder (envParseFloat env) (globalMetaOpt (settingsOf options)) collect (newDecoder inp, []) = (parsed, (d, objs))"
    and n: "0 < concurrency cpuNum options"
  shows "\<exists>r f. ToJsons env fs marshal cpuNum rdbFilename jsonFilename createFile options f0 r f"
proof -
  let ?s0 = "newPipeline (filter (passes env (settingsOf options)) objs) parsed (nat (concurrency cpuNum options))
    \<lparr>fileBytes = jsonText [], fileRefuses = \<lambda>_ _. None\<rparr>"
  from n have "orderly ?s0" by (intro orderly_new) simp
  from always_returns [OF this, of marshal]
  obtain s r where "pipeRuns marshal ?s0 s" "mainAt s = Returned r" by auto
  with ToJsons_run [OF assms(1-3), of cpuNum marshal f0 r "jsonFile s"] n show ?thesis by auto
qed

text \<open>
  Nothing more reaches the writing goroutine: there is no marshalling goroutine, or nothing is
  left for one.  Then the flag \<^verbatim>\<open>empty\<close> stays as it is, and the bracket goes to the end of the
  file; only the parser can still change the error that the function tests.
\<close>

definition quiet :: "bytes \<Rightarrow> 'o pipeline \<Rightarrow> bool" where
  "quiet bs s \<longleftrightarrow> jsonChan s = [] \<and> writerAt s \<noteq> Testing \<and> nothingWritten s \<and> \<not> sought s \<and>
     (workers s = [] \<or> objChan s = [] \<and> toParse s = [] \<and> set (workers s) \<subseteq> {Receiving, Exited}) \<and>
     fileRefuses (jsonFile s) = (\<lambda>_ _. None) \<and>
     (case mainAt s of
        TestingSeek \<Rightarrow> False
      | TestingWrite \<Rightarrow> fileBytes (jsonFile s) = bs @ jsonEnd \<and> (\<forall>e. sharedErr s = Some e \<longrightarrow> parserReturned s \<and> parseEnd s = Inl e)
      | Returned r \<Rightarrow> fileBytes (jsonFile s) = bs @ jsonEnd \<and>
          (r = Inr () \<or> (\<exists>e. parserReturned s \<and> parseEnd s = Inl e \<and> r = Inl (Wrap ''error during write in file'' e)))
      | _ \<Rightarrow> fileBytes (jsonFile s) = bs)"

lemma quiet_worker: "quiet bs s \<Longrightarrow> i < length (workers s) \<Longrightarrow> workers s ! i = Receiving \<or> workers s ! i = Exited"
proof -
  assume "quiet bs s" and i: "i < length (workers s)"
  then have "set (workers s) \<subseteq> {Receiving, Exited}" by (auto simp: quiet_def)
  with nth_mem [OF i] show ?thesis by blast
qed

lemma step_quiet:
  assumes "pipeStep marshal s s'" and q: "quiet bs s"
  shows "quiet bs s'"
  using assms(1)
proof cases
  case (workerExits i)
  then have "set (workers s') \<subseteq> insert Exited (set (workers s))" using set_update_subset_insert by simp
  then show ?thesis using q workerExits by (cases "mainAt s") (auto simp: quiet_def)
next
  case parserAssigns
  then show ?thesis using q by (auto simp: quiet_def errOf_def split: main_point.splits sum.splits)
next
  case (mainWrites r f)
  with q have m: "mainAt s = WaitingWriter" and b: "fileBytes (jsonFile s) = bs" "\<not> sought s" "fileRefuses (jsonFile s) = (\<lambda>_ _. None)"
    by (auto simp: quiet_def)
  with mainWrites closeBracket_behind [OF b(3)] show ?thesis using q by (auto simp: quiet_def errOf_def)
next
  case (workerMarshals i obj data)
  with quiet_worker [OF q, of i] show ?thesis by simp
next
  case (workerSkips i obj)
  with quiet_worker [OF q, of i] show ?thesis by simp
next
  case (workerSends i data)
  with quiet_worker [OF q, of i] show ?thesis by simp
qed (use q in \<open>auto simp: quiet_def split: main_point.splits\<close>)

lemma runs_quiet: "pipeRuns marshal s s' \<Longrightarrow> quiet bs s \<Longrightarrow> quiet bs s'"
  by (induction rule: rtranclp_induct) (auto intro: step_quiet)

text \<open>Without a marshalling goroutine the parser blocks when its channel is full.\<close>

definition blocked :: "'o list \<Rightarrow> unit res \<Rightarrow> 'o pipeline \<Rightarrow> bool" where
  "blocked objs parsed s \<longleftrightarrow> workers s = [] \<and> objChan s @ toParse s = objs \<and> length (objChan s) \<le> chanCap \<and>
     (parserReturned s \<longrightarrow> toParse s = []) \<and> parseEnd s = parsed"

lemma runs_blocked: "pipeRuns marshal s s' \<Longrightarrow> blocked objs parsed s \<Longrightarrow> blocked objs parsed s'"
  by (induction rule: rtranclp_induct) (auto simp: blocked_def elim!: pipeStep.cases)

lemma parser_sends_all:
  "length (objChan s) + length (toParse s) \<le> chanCap \<Longrightarrow>
     pipeRuns marshal s (s\<lparr>toParse := [], objChan := objChan s @ toParse s\<rparr>)"
proof (induction "toParse s" arbitrary: s)
  case Nil
  then have "s\<lparr>toParse := [], objChan := objChan s @ toParse s\<rparr> = s" by simp
  then show ?case by simp
next
  case (Cons obj objs)
  let ?s = "s\<lparr>toParse := objs, objChan := objChan s @ [obj]\<rparr>"
  have "pipeStep marshal s ?s" using Cons.prems Cons.hyps(2) [symmetric] by (intro pipeStep.parserSends) auto
  moreover have "pipeRuns marshal ?s (?s\<lparr>toParse := [], objChan := objChan ?s @ toParse ?s\<rparr>)"
    using Cons.prems by (intro Cons.hyps(1)) (simp_all add: Cons.hyps(2) [symmetric])
  ultimately show ?case by (simp add: Cons.hyps(2) [symmetric])
qed

lemma starved_outcomes:
  defines "s0 \<equiv> \<lambda>objs parsed. newPipeline objs parsed 0 \<lparr>fileBytes = jsonText [], fileRefuses = \<lambda>_ _. None\<rparr>"
  shows "(\<exists>s. pipeRuns marshal (s0 objs parsed) s \<and> mainAt s = Returned r \<and> f = jsonFile s) \<longleftrightarrow>
    f = \<lparr>fileBytes = jsonArray [], fileRefuses = \<lambda>_ _. None\<rparr> \<and>
    (r = Inr () \<or> (\<exists>e. parsed = Inl e \<and> length objs \<le> chanCap \<and> r = Inl (Wrap ''error during write in file'' e)))"
proof
  assume "\<exists>s. pipeRuns marshal (s0 objs parsed) s \<and> mainAt s = Returned r \<and> f = jsonFile s"
  then obtain s where s: "pipeRuns marshal (s0 objs parsed) s" "mainAt s = Returned r" "f = jsonFile s" by blast
  have "blocked objs parsed s" using s(1) by (rule runs_blocked) (simp add: s0_def blocked_def newPipeline_def chanCap_def)
  moreover have "quiet (jsonText []) s" using s(1) by (rule runs_quiet) (simp add: s0_def quiet_def newPipeline_def)
  ultimately show "f = \<lparr>fileBytes = jsonArray [], fileRefuses = \<lambda>_ _. None\<rparr> \<and>
    (r = Inr () \<or> (\<exists>e. parsed = Inl e \<and> length objs \<le> chanCap \<and> r = Inl (Wrap ''error during write in file'' e)))"
    using s(2,3) by (auto simp: quiet_def blocked_def jsonArray_Nil)
next
  let ?s0 = "s0 objs parsed" and ?f = "\<lparr>fileBytes = jsonArray [], fileRefuses = \<lambda>_ _. None\<rparr>"
  let ?s1 = "?s0\<lparr>jsonClosed := True, mainAt := WaitingWriter\<rparr>"
  let ?s2 = "?s1\<lparr>writerAt := WriterLeft\<rparr>"
  let ?s3 = "?s2\<lparr>jsonFile := ?f, sharedErr := None, mainAt := TestingWrite\<rparr>"
  have "pipeStep marshal ?s0 ?s1" by (intro pipeStep.mainCloses) (simp_all add: s0_def newPipeline_def)
  moreover have "pipeStep marshal ?s1 ?s2" by (intro pipeStep.writerExits) (simp_all add: s0_def newPipeline_def)
  moreover have "pipeStep marshal ?s2 ?s3"
    using pipeStep.mainWrites [of ?s2 "Inr ()" ?f marshal] closeBracket_behind [of "jsonFile ?s2"]
    by (simp add: s0_def newPipeline_def errOf_def jsonArray_Nil)
  ultimately have run: "pipeRuns marshal ?s0 ?s3" by (meson rtranclp.rtrancl_refl rtranclp.rtrancl_into_rtrancl)
  assume out: "f = ?f \<and> (r = Inr () \<or> (\<exists>e. parsed = Inl e \<and> length objs \<le> chanCap \<and> r = Inl (Wrap ''error during write in file'' e)))"
  then consider "r = Inr ()" | e where "parsed = Inl e" "length objs \<le> chanCap" "r = Inl (Wrap ''error during write in file'' e)"
    by blast
  then show "\<exists>s. pipeRuns marshal ?s0 s \<and> mainAt s = Returned r \<and> f = jsonFile s"
  proof cases
    case 1
    have "pipeStep marshal ?s3 (?s3\<lparr>mainAt := Returned r\<rparr>)" unfolding 1 by (rule pipeStep.mainReturns) simp_all
    with run out show ?thesis by (intro exI [of _ "?s3\<lparr>mainAt := Returned r\<rparr>"]) auto
  next
    case 2
    let ?s4 = "?s3\<lparr>toParse := [], objChan := objChan ?s3 @ toParse ?s3\<rparr>"
    let ?s5 = "?s4\<lparr>parserReturned := True, sharedErr := errOf (parseEnd ?s4)\<rparr>"
    have "pipeRuns marshal ?s3 ?s4" using 2(2) by (intro parser_sends_all) (simp add: s0_def newPipeline_def)
    moreover have "pipeStep marshal ?s4 ?s5" by (rule pipeStep.parserAssigns) (simp_all add: s0_def newPipeline_def)
    moreover have "pipeStep marshal ?s5 (?s5\<lparr>mainAt := Returned r\<rparr>)" unfolding 2(3)
      by (rule pipeStep.mainWriteFails) (simp_all add: s0_def newPipeline_def 2(1) errOf_def)
    ultimately have "pipeRuns marshal ?s0 (?s5\<lparr>mainAt := Returned r\<rparr>)" using run
      by (meson rtranclp.rtrancl_into_rtrancl rtranclp_trans)
    with out show ?thesis by (intro exI [of _ "?s5\<lparr>mainAt := Returned r\<rparr>"]) auto
  qed
qed

lemma ToJsons_starved:
  assumes "canRun env fs rdbFilename jsonFilename createFile options" and "fs rdbFilename = Some inp"
    and "coreDecoder (envParseFloat env) (globalMetaOpt (settingsOf options)) collect (newDecoder inp, []) = (parsed, (d, objs))"
    and n: "concurrency cpuNum options = 0"
  shows "ToJsons env fs marshal cpuNum rdbFilename jsonFilename createFile options f0 r f \<longleftrightarrow>
    f = \<lparr>fileBytes = jsonArray [], fileRefuses = \<lambda>_ _. None\<rparr> \<and>
    (r = Inr () \<or> (\<exists>e. parsed = Inl e \<and> length (filter (passes env (settingsOf options)) objs) \<le> chanCap \<and>
       r = Inl (Wrap ''error during write in file'' e)))"
  using ToJsons_run [OF assms(1-3), of cpuNum marshal f0 r f] n starved_outcomes [of marshal _ parsed r f] by simp

text \<open>
  The parser fails between the write of the only object and the test of its error: the writer
  takes the parser's error for its own.
\<close>

lemma race_run:
  assumes m: "marshal obj = Some d" and n: "0 < n" and failed: "parsed = Inl e"
  defines "s0 \<equiv> newPipeline [obj] parsed n \<lparr>fileBytes = jsonText [], fileRefuses = \<lambda>_ _. None\<rparr>"
  shows "\<exists>s. pipeRuns marshal s0 s \<and> mainAt s = Returned (Inr ()) \<and> fileBytes (jsonFile s) = jsonText [d] @ jsonEnd"
proof -
  let ?ws = "replicate n Receiving" and ?f = "\<lparr>fileBytes = jsonText [d], fileRefuses = \<lambda>_ _. None\<rparr>"
  let ?s1 = "s0\<lparr>toParse := [], objChan := [obj]\<rparr>"
  let ?s2 = "?s1\<lparr>objChan := [], workers := ?ws[0 := Marshalling obj]\<rparr>"
  let ?s3 = "?s2\<lparr>workers := ?ws[0 := Sending d]\<rparr>"
  let ?s4 = "?s3\<lparr>jsonChan := [d], workers := ?ws\<rparr>"
  let ?s5 = "?s4\<lparr>jsonChan := [], writerAt := Testing, jsonFile := ?f, sharedErr := None\<rparr>"
  let ?s6 = "?s5\<lparr>parserReturned := True, sharedErr := Some e\<rparr>"
  let ?s7 = "?s6\<lparr>writerAt := Taking\<rparr>"
  note defs = s0_def newPipeline_def chanCap_def
  have same: "?ws[0 := Receiving] = ?ws" using n by (cases n) simp_all
  have "pipeStep marshal s0 ?s1" using pipeStep.parserSends [of s0 obj "[]" marshal] by (simp add: defs)
  moreover have "pipeStep marshal ?s1 ?s2" using pipeStep.workerReceives [of 0 ?s1 obj "[]" marshal] n by (simp add: defs)
  moreover have "pipeStep marshal ?s2 ?s3" using pipeStep.workerMarshals [of 0 ?s2 obj marshal d] n m by (simp add: defs)
  moreover have "pipeStep marshal ?s3 ?s4" using pipeStep.workerSends [of 0 ?s3 d marshal] n by (simp add: defs same)
  moreover have "pipeStep marshal ?s4 ?s5" using pipeStep.writerWrites [of ?s4 d "[]" marshal]
    by (simp add: defs writeJson_def fileWrite_def errOf_def jsonText_def)
  moreover have "pipeStep marshal ?s5 ?s6" using pipeStep.parserAssigns [of ?s5 marshal] by (simp add: defs errOf_def failed)
  moreover have "pipeStep marshal ?s6 ?s7" using pipeStep.writerTests [of ?s6 marshal] by (simp add: defs testJson_def)
  ultimately have run: "pipeRuns marshal s0 ?s7" by (meson rtranclp.rtrancl_refl rtranclp.rtrancl_into_rtrancl)
  have "content marshal (List.map_filter marshal [obj]) s0" "orderly s0"
    unfolding s0_def using content_new orderly_new n by blast+
  from runs_content [OF run this] have c: "content marshal (List.map_filter marshal [obj]) ?s7" and o: "orderly ?s7" by blast+
  from always_returns [OF o, of marshal] obtain s r where s: "pipeRuns marshal ?s7 s" "mainAt s = Returned r" by blast
  have "quiet (jsonText [d]) ?s7" by (auto simp: quiet_def defs)
  from runs_quiet [OF s(1) this] have "fileBytes (jsonFile s) = jsonText [d] @ jsonEnd" by (simp add: quiet_def s(2))
  moreover have "r = Inr ()" using runs_content [OF s(1) c o] by (simp add: content_def s(2))
  ultimately show ?thesis using s run by (meson rtranclp_trans)
qed

text \<open>A file that breaks off behind its only object.\<close>

lemma one_key_cut_file:
  "\<exists>inp d objs. coreDecoder (\<lambda>_. None) False collect (newDecoder inp, []) = (Inl EOF, (d, objs)) \<and>
     map viewOf objs = [(0, strlit ''a'', None, DataContent (StringVal (strlit ''1'')))]"
proof -
  let ?ops = "[OpDB 0 1 0, OpObject (strlit ''a'') (StringVal (strlit ''1'')) []]"
  let ?cfg = "\<lparr>withSpecialOpCode = False, withSpecialTypes = \<lambda>_. None :: (int \<Rightarrow> unit handler) option\<rparr>"
  have "optionExpiration [] = None" by code_simp
  then have views: "opsViews (withSpecialOpCode ?cfg) 0 ?ops = [(0, strlit ''a'', None, DataContent (StringVal (strlit ''1'')))]"
    by simp
  have "list_all (call_ok (\<lambda>_. None) (\<lambda>_. []) (newEncoder (\<lambda>_ _. None))) ?ops"
    by (simp add: call_ok_def string_ok_def maxAlloc_def optionTTLs_def newEncoder_def strlit_def)
  from Parse_cut [OF this, of ?cfg] obtain inp objs d where
    "Parse (\<lambda>_. None) ?cfg collect (newDecoder inp, []) = (Inl EOF, (d, objs))"
    "map viewOf objs = [(0, strlit ''a'', None, DataContent (StringVal (strlit ''1'')))]"
    unfolding views by (elim exE conjE) (rule that)
  then show ?thesis unfolding coreDecoder_def by (intro exI conjI)
qed

subsection \<open>Properties\<close>

text \<open>
  C25: however the goroutines are scheduled, the conversion returns no error, even if the
  parser ended with one, and the JSON file is the array of the marshalled objects that pass the
  filters, each of them exactly once, in the order of the file if there is one marshalling
  goroutine.  Only when the parser failed and there is a single object to write, the comma
  behind it may be left in front of the closing bracket.
\<close>

theorem json_output:
  assumes "canRun env fs rdbFilename jsonFilename createFile options" and "fs rdbFilename = Some inp"
    and "coreDecoder (envParseFloat env) (globalMetaOpt (settingsOf options)) collect (newDecoder inp, []) = (parsed, (d, objs))"
    and "0 < concurrency cpuNum options"
    and "ToJsons env fs marshal cpuNum rdbFilename jsonFilename createFile options f0 r f"
    and "all = List.map_filter marshal (filter (passes env (settingsOf options)) objs)"
  shows "r = Inr () \<and> ((\<exists>ds. fileBytes f = jsonArray ds \<and> mset ds = mset all \<and> (concurrency cpuNum options = 1 \<longrightarrow> ds = all)) \<or>
    (parsed \<noteq> Inr () \<and> (\<exists>d. all = [d] \<and> fileBytes f = jsonText [d] @ jsonEnd)))"
  using assms by (rule ToJsons_output)

theorem json_output_witness:
  "\<exists>inp f. ToJsons \<lparr>compileRegex = \<lambda>_. None, nowNanos = 0, nowSeconds = 0, envParseFloat = \<lambda>_. None, envOutside = 0\<rparr>
     (\<lambda>_. Some inp) (\<lambda>obj. Some (GetKey obj)) 8 (strlit ''dump.rdb'') (strlit ''dump.json'')
     (\<lambda>_. Some \<lparr>fileBytes = [], fileRefuses = \<lambda>_ _. None\<rparr>) [WithConcurrent 1] \<lparr>fileBytes = [], fileRefuses = \<lambda>_ _. None\<rparr> (Inr ()) f \<and>
     fileBytes f = strlit ''['' @ [10] @ strlit ''a,'' @ [10] @ strlit ''b'' @ [10] @ strlit '']''"
proof -
  let ?env = "\<lparr>compileRegex = \<lambda>_. None, nowNanos = 0, nowSeconds = 0, envParseFloat = \<lambda>_. None, envOutside = 0\<rparr>"
  let ?f0 = "\<lparr>fileBytes = [], fileRefuses = \<lambda>_ _. None\<rparr>"
  have st: "settingsOf [WithConcurrent 1] = \<lparr>regexOpt = None, noExpiredOpt = False, expirationOpt = [], sizeOpt = [], globalMetaOpt = False\<rparr>"
    by (simp add: settingsOf_def WithConcurrent_def)
  have pass: "passes ?env (settingsOf [WithConcurrent 1]) obj" for obj :: robj
    by (simp add: passes_def passesRegex_def passesExpired_def passesExpiration_def passesSize_def st)
  obtain inp d objs where run: "coreDecoder (\<lambda>_. None) False collect (newDecoder inp, []) = (Inr (), (d, objs))"
    and v: "map viewOf objs = [(0, strlit ''a'', None, DataContent (StringVal (strlit ''1''))),
      (0, strlit ''b'', None, DataContent (StringVal (strlit ''2'')))]"
    by (rule exE [OF two_key_file], elim exE conjE) (rule that)
  from v obtain x y where objs: "objs = [x, y]" "GetKey x = strlit ''a''" "GetKey y = strlit ''b''"
    by (auto simp: map_eq_Cons_conv viewOf_def)
  have can: "canRun ?env (\<lambda>_. Some inp) (strlit ''dump.rdb'') (strlit ''dump.json'') (\<lambda>_. Some ?f0) [WithConcurrent 1]"
    by (simp add: canRun_def acceptsOptions_def st strlit_def)
  have one: "concurrency 8 [WithConcurrent 1] = 1" by (simp add: concurrency_def WithConcurrent_def)
  have run': "coreDecoder (envParseFloat ?env) (globalMetaOpt (settingsOf [WithConcurrent 1])) collect (newDecoder inp, []) =
      (Inr (), (d, objs))" using run by (simp add: st)
  obtain r f where out: "ToJsons ?env (\<lambda>_. Some inp) (\<lambda>obj. Some (GetKey obj)) 8 (strlit ''dump.rdb'') (strlit ''dump.json'')
      (\<lambda>_. Some ?f0) [WithConcurrent 1] ?f0 r f"
    using ToJsons_exists [OF can refl run'] one by fastforce
  have "List.map_filter (\<lambda>obj. Some (GetKey obj)) (filter (passes ?env (settingsOf [WithConcurrent 1])) objs) =
      [strlit ''a'', strlit ''b'']"
    by (simp add: pass objs List.map_filter_def)
  from json_output [OF can refl run' _ out this [symmetric]] one have "r = Inr ()"
    "fileBytes f = jsonArray [strlit ''a'', strlit ''b'']" by simp_all
  then show ?thesis using out by (intro exI [of _ inp] exI [of _ f]) (simp add: jsonArray_def strlit_def)
qed

text \<open>
  If the parser fails and there is a single object to write, some schedule leaves its comma
  in front of the closing bracket and returns no error: the parser's error is stored between
  the write and the test of its error, and the writer takes it for a failed write.
\<close>

theorem json_error_race:
  assumes "canRun env fs rdbFilename jsonFilename createFile options" and "fs rdbFilename = Some inp"
    and "coreDecoder (envParseFloat env) (globalMetaOpt (settingsOf options)) collect (newDecoder inp, []) = (Inl e, (d, objs))"
    and "0 < concurrency cpuNum options"
    and "filter (passes env (settingsOf options)) objs = [obj]" and "marshal obj = Some data"
  shows "\<exists>f. ToJsons env fs marshal cpuNum rdbFilename jsonFilename createFile options f0 (Inr ()) f \<and>
    fileBytes f = strlit ''['' @ [10] @ data @ strlit '','' @ [10] @ [10] @ strlit '']''"
proof -
  from assms(4) have "0 < nat (concurrency cpuNum options)" by simp
  from race_run [where marshal = marshal and obj = obj and d = data and parsed = "Inl e" and e = e, OF assms(6) this refl] assms(4,5) ToJsons_run [OF assms(1-3), of cpuNum marshal f0 "Inr ()"]
  show ?thesis by (auto simp: jsonText_def jsonEnd_def)
qed

theorem json_error_race_witness:
  "\<exists>inp f. ToJsons \<lparr>compileRegex = \<lambda>_. None, nowNanos = 0, nowSeconds = 0, envParseFloat = \<lambda>_. None, envOutside = 0\<rparr>
     (\<lambda>_. Some inp) (\<lambda>obj. Some (GetKey obj)) 8 (strlit ''dump.rdb'') (strlit ''dump.json'')
     (\<lambda>_. Some \<lparr>fileBytes = [], fileRefuses = \<lambda>_ _. None\<rparr>) [] \<lparr>fileBytes = [], fileRefuses = \<lambda>_ _. None\<rparr> (Inr ()) f \<and>
     fileBytes f = strlit ''['' @ [10] @ strlit ''a,'' @ [10, 10] @ strlit '']''"
proof -
  let ?env = "\<lparr>compileRegex = \<lambda>_. None, nowNanos = 0, nowSeconds = 0, envParseFloat = \<lambda>_. None, envOutside = 0\<rparr>"
  let ?f0 = "\<lparr>fileBytes = [], fileRefuses = \<lambda>_ _. None\<rparr>"
  have st: "settingsOf [] = \<lparr>regexOpt = None, noExpiredOpt = False, expirationOpt = [], sizeOpt = [], globalMetaOpt = False\<rparr>"
    by (simp add: settingsOf_def)
  have pass: "passes ?env (settingsOf []) obj" for obj :: robj
    by (simp add: passes_def passesRegex_def passesExpired_def passesExpiration_def passesSize_def st)
  obtain inp d objs where run: "coreDecoder (\<lambda>_. None) False collect (newDecoder inp, []) = (Inl EOF, (d, objs))"
    and v: "map viewOf objs = [(0, strlit ''a'', None, DataContent (StringVal (strlit ''1'')))]"
    by (rule exE [OF one_key_cut_file], elim exE conjE) (rule that)
  from v obtain x where objs: "objs = [x]" "GetKey x = strlit ''a''" by (auto simp: map_eq_Cons_conv viewOf_def)
  have can: "canRun ?env (\<lambda>_. Some inp) (strlit ''dump.rdb'') (strlit ''dump.json'') (\<lambda>_. Some ?f0) []"
    by (simp add: canRun_def acceptsOptions_def st strlit_def)
  have "0 < concurrency 8 []" "filter (passes ?env (settingsOf [])) objs = [x]" by (simp_all add: concurrency_def pass objs)
  from json_error_race [OF can refl _ this, of EOF d "\<lambda>obj. Some (GetKey obj)" "strlit ''a''" ?f0] run objs(2)
  show ?thesis by (auto simp: st strlit_def)
qed

text \<open>
  C26: with at least one marshalling goroutine the conversion never gets stuck: whatever has
  happened, also after failed writes, the function can return, and no schedule makes more
  than six steps per object and a few more.
\<close>

theorem json_always_returns:
  assumes "0 < n" and "(pipeStep marshal ^^ k) (newPipeline objs parsed n f) s"
  shows "k \<le> 6 * length objs + n + 7 \<and> (\<exists>s' r. pipeRuns marshal s s' \<and> mainAt s' = Returned r)"
proof
  have "sum_list (map workerWork (replicate n Receiving)) = n" by (induction n) simp_all
  then have "work (newPipeline objs parsed n f) = 6 * length objs + n + 7" by (simp add: work_def newPipeline_def)
  with run_bounded [OF assms(2)] show "k \<le> 6 * length objs + n + 7" by simp
  have "pipeRuns marshal (newPipeline objs parsed n f) s" using assms(2) by (rule relpowp_imp_rtranclp)
  from runs_orderly [OF this orderly_new [OF assms(1)]] show "\<exists>s' r. pipeRuns marshal s s' \<and> mainAt s' = Returned r"
    by (rule always_returns)
qed

theorem json_always_returns_witness:
  "\<exists>s' r. pipeRuns (\<lambda>d. Some d) ((newPipeline [strlit ''1'', strlit ''2''] (Inr ()) 3 \<lparr>fileBytes = [], fileRefuses = \<lambda>_ _. Some 0\<rparr>)
     \<lparr>toParse := [strlit ''2''], objChan := [strlit ''1'']\<rparr>) s' \<and> mainAt s' = Returned r"
proof -
  let ?s = "newPipeline [strlit ''1'', strlit ''2''] (Inr ()) 3 \<lparr>fileBytes = [], fileRefuses = \<lambda>_ _. Some 0\<rparr>"
  have "pipeStep (\<lambda>d. Some d) ?s (?s\<lparr>toParse := [strlit ''2''], objChan := objChan ?s @ [strlit ''1'']\<rparr>)"
    by (rule pipeStep.parserSends) (simp_all add: newPipeline_def chanCap_def)
  then have "(pipeStep (\<lambda>d. Some d) ^^ 1) ?s (?s\<lparr>toParse := [strlit ''2''], objChan := [strlit ''1'']\<rparr>)"
    unfolding relpowp_1 by (simp add: newPipeline_def)
  from json_always_returns [OF _ this] show ?thesis by (rule conjunct2) simp
qed

text \<open>
  C27: with \<open>WithConcurrent(0)\<close> the file is an empty array whatever the source holds.  The
  function returns no error; or, if the parser fails and its objects fit into the channel, it
  can also return the error of the parser as one of the last write.
\<close>

theorem json_no_workers:
  assumes "canRun env fs rdbFilename jsonFilename createFile options" and "fs rdbFilename = Some inp"
    and "coreDecoder (envParseFloat env) (globalMetaOpt (settingsOf options)) collect (newDecoder inp, []) = (parsed, (d, objs))"
    and "concurrency cpuNum options = 0"
  shows "ToJsons env fs marshal cpuNum rdbFilename jsonFilename createFile options f0 r f \<longleftrightarrow>
    f = \<lparr>fileBytes = jsonArray [], fileRefuses = \<lambda>_ _. None\<rparr> \<and>
    (r = Inr () \<or> (\<exists>e. parsed = Inl e \<and> length (filter (passes env (settingsOf options)) objs) \<le> chanCap \<and>
       r = Inl (Wrap ''error during write in file'' e)))"
  using assms by (rule ToJsons_starved)

theorem json_no_workers_witness:
  "\<exists>inp d objs. coreDecoder (\<lambda>_. None) False collect (newDecoder inp, []) = (Inr (), (d, objs)) \<and> length objs = 2 \<and>
    ToJsons \<lparr>compileRegex = \<lambda>_. None, nowNanos = 0, nowSeconds = 0, envParseFloat = \<lambda>_. None, envOutside = 0\<rparr>
     (\<lambda>_. Some inp) (\<lambda>obj. Some (GetKey obj)) 8 (strlit ''dump.rdb'') (strlit ''dump.json'')
     (\<lambda>_. Some \<lparr>fileBytes = [], fileRefuses = \<lambda>_ _. None\<rparr>) [WithConcurrent 0] \<lparr>fileBytes = [], fileRefuses = \<lambda>_ _. None\<rparr> (Inr ())
     \<lparr>fileBytes = jsonArray [], fileRefuses = \<lambda>_ _. None\<rparr>"
proof -
  let ?env = "\<lparr>compileRegex = \<lambda>_. None, nowNanos = 0, nowSeconds = 0, envParseFloat = \<lambda>_. None, envOutside = 0\<rparr>"
  let ?f0 = "\<lparr>fileBytes = [], fileRefuses = \<lambda>_ _. None\<rparr>"
  have st: "settingsOf [WithConcurrent 0] = \<lparr>regexOpt = None, noExpiredOpt = False, expirationOpt = [], sizeOpt = [], globalMetaOpt = False\<rparr>"
    by (simp add: settingsOf_def WithConcurrent_def)
  obtain inp d objs where run: "coreDecoder (\<lambda>_. None) False collect (newDecoder inp, []) = (Inr (), (d, objs))"
    and v: "map viewOf objs = [(0, strlit ''a'', None, DataContent (StringVal (strlit ''1''))),
      (0, strlit ''b'', None, DataContent (StringVal (strlit ''2'')))]"
    by (rule exE [OF two_key_file], elim exE conjE) (rule that)
  have can: "canRun ?env (\<lambda>_. Some inp) (strlit ''dump.rdb'') (strlit ''dump.json'') (\<lambda>_. Some ?f0) [WithConcurrent 0]"
    by (simp add: canRun_def acceptsOptions_def st strlit_def)
  have run': "coreDecoder (envParseFloat ?env) (globalMetaOpt (settingsOf [WithConcurrent 0])) collect (newDecoder inp, []) =
      (Inr (), (d, objs))" using run by (simp add: st)
  have "concurrency 8 [WithConcurrent 0] = 0" by (simp add: concurrency_def WithConcurrent_def)
  from json_no_workers [OF can refl run' this, of "\<lambda>obj. Some (GetKey obj)" ?f0] run arg_cong [OF v, of length]
  show ?thesis by (intro exI [of _ inp] exI [of _ d] exI [of _ objs]) simp
qed

end
