(* ===== verification/GoStrings.thy ===== *)
theory GoStrings
  imports Filters
begin

section \<open>Functions of package strings\<close>

text \<open>
  \<^verbatim>\<open>strings.Join\<close>, \<^verbatim>\<open>ReplaceAll\<close> and \<^verbatim>\<open>SplitN\<close> as the separator-based reports use them,
  the case of an empty separator included, in which a string falls into its UTF-8
  characters and a byte that starts none stands for itself.
\<close>

fun joinWith :: "bytes \<Rightarrow> bytes list \<Rightarrow> bytes" where
  "joinWith sep [] = []"
| "joinWith sep [p] = p"
| "joinWith sep (p # ps) = p @ sep @ joinWith sep ps"

text \<open>The number of bytes of the first character; \<open>cont\<close> tells the continuation bytes.\<close>

definition runeWidth :: "bytes \<Rightarrow> nat" where
  "runeWidth s =
     (let b = (\<lambda>i. if i < length s then unat (s ! i) else 0);
          cont = (\<lambda>i. 128 \<le> b i \<and> b i < 192)
      in if 194 \<le> b 0 \<and> b 0 < 224 \<and> cont 1 then 2
         else if 224 \<le> b 0 \<and> b 0 < 240 \<and> cont 1 \<and> cont 2 \<and>
           (b 0 = 224 \<longrightarrow> 160 \<le> b 1) \<and> (b 0 = 237 \<longrightarrow> b 1 < 160) then 3
         else if 240 \<le> b 0 \<and> b 0 < 245 \<and> cont 1 \<and> cont 2 \<and> cont 3 \<and>
           (b 0 = 240 \<longrightarrow> 144 \<le> b 1) \<and> (b 0 = 244 \<longrightarrow> b 1 < 144) then 4
         else 1)"

lemma runeWidth_pos: "0 < runeWidth s"
  by (simp add: runeWidth_def Let_def)

function runes :: "bytes \<Rightarrow> bytes list" where
  "runes s = (if s = [] then [] else take (runeWidth s) s # runes (drop (runeWidth s) s))"
  by pat_completeness auto

termination
  by (relation "measure length") (simp_all add: runeWidth_pos)

declare runes.simps [simp del]

definition explodeN :: "bytes \<Rightarrow> int \<Rightarrow> bytes list" where
  "explodeN s n =
     (let rs = runes s; m = (if n < 0 \<or> int (length rs) < n then length rs else nat n)
      in if m = 0 then [] else take (m - 1) rs @ [concat (drop (m - 1) rs)])"

definition splitN :: "bytes \<Rightarrow> bytes \<Rightarrow> int \<Rightarrow> bytes list" where
  "splitN s sep n =
     (if n = 0 then []
      else if sep = [] then explodeN s n
      else if n < 0 then splitAll sep s
      else splitLoop (nat (n - 1)) sep s)"

definition replaceAll :: "bytes \<Rightarrow> bytes \<Rightarrow> bytes \<Rightarrow> bytes" where
  "replaceAll s old new =
     (if old = new then s
      else if old = [] then new @ concat (map (\<lambda>r. r @ new) (runes s))
      else joinWith new (splitAll old s))"

text \<open>What a split keeps.\<close>

lemma indexOf_Some: "indexOf sep s = Some m \<Longrightarrow> take m s @ sep @ drop (m + length sep) s = s"
proof (induction s arbitrary: m)
  case Nil
  then show ?case by (simp add: indexOf.simps split: if_splits)
next
  case (Cons c s)
  show ?case
  proof (cases "take (length sep) (c # s) = sep")
    case True
    with Cons.prems have "m = 0" by (simp add: indexOf.simps)
    with True show ?thesis by (metis add_0 append_Nil append_take_drop_id take0)
  next
    case False
    with Cons.prems obtain k where "indexOf sep s = Some k" "m = Suc k"
      by (auto simp: indexOf.simps [of _ "c # s"])
    with Cons.IH show ?thesis by simp
  qed
qed

lemma splitLoop_nonempty: "splitLoop n sep s \<noteq> []"
  by (cases n) (auto split: option.split)

lemma joinWith_Cons: "ps \<noteq> [] \<Longrightarrow> joinWith sep (p # ps) = p @ sep @ joinWith sep ps"
  by (cases ps) auto

lemma join_splitLoop: "joinWith sep (splitLoop n sep s) = s"
proof (induction n arbitrary: s)
  case (Suc n)
  show ?case
  proof (cases "indexOf sep s")
    case (Some m)
    with Suc indexOf_Some [OF Some] show ?thesis by (simp add: joinWith_Cons [OF splitLoop_nonempty])
  qed simp
qed simp

lemma join_append:
  "ps \<noteq> [] \<Longrightarrow> qs \<noteq> [] \<Longrightarrow> joinWith sep (ps @ qs) = joinWith sep ps @ sep @ joinWith sep qs"
  by (induction sep ps rule: joinWith.induct) (auto simp: joinWith_Cons)

text \<open>The first parts of a split, with the separator behind them, begin the string.\<close>

lemma splitN_prefix:
  assumes "sep \<noteq> []" and "0 < d" and "d < length (splitN s sep n)"
  shows "take (length (joinWith sep (take d (splitN s sep n)) @ sep)) s = joinWith sep (take d (splitN s sep n)) @ sep"
proof -
  let ?ps = "splitN s sep n"
  from assms have "?ps \<noteq> []" by auto
  with assms(1) have "joinWith sep ?ps = s" by (auto simp: splitN_def splitAll_def join_splitLoop split: if_splits)
  moreover have "joinWith sep (take d ?ps @ drop d ?ps) = joinWith sep (take d ?ps) @ sep @ joinWith sep (drop d ?ps)"
    using assms(2,3) by (intro join_append) auto
  ultimately have "s = (joinWith sep (take d ?ps) @ sep) @ joinWith sep (drop d ?ps)" by simp
  then show ?thesis by (metis append_eq_conv_conj)
qed

end
