(* ===== verification/SepPrefix.thy ===== *)
theory SepPrefix
  imports GoStrings PrefixReport "HOL-Library.Multiset"
begin

section \<open>The separator-based prefix report (helper/prefix\_stream.go)\<close>

text \<open>
  The keys are cut at separators and a flat map from database and prefix to size and number
  is filled while the file is parsed.  The map is an association list; \<open>sorter\<close> is
  \<^verbatim>\<open>sort.Slice\<close> with the comparison of the code, of which the properties only use that it
  permutes and sorts.
\<close>

subsection \<open>The map\<close>

record prefixStats =
  statSize :: int
  statKeyCount :: int

definition bumpStats :: "int \<Rightarrow> bytes \<Rightarrow> (bytes \<times> prefixStats) list \<Rightarrow> (bytes \<times> prefixStats) list" where
  "bumpStats sz mapKey prefixes =
     (let st = (case map_of prefixes mapKey of None \<Rightarrow> \<lparr>statSize = 0, statKeyCount = 0\<rparr> | Some st \<Rightarrow> st)
      in AList.update mapKey \<lparr>statSize = statSize st + sz, statKeyCount = statKeyCount st + 1\<rparr> prefixes)"

definition normalizeKey :: "bytes list \<Rightarrow> bytes \<Rightarrow> bytes" where
  "normalizeKey separators key = fold (\<lambda>sep k. replaceAll k sep (hd separators)) (tl separators) key"

definition keyPrefix :: "bytes \<Rightarrow> bytes list \<Rightarrow> nat \<Rightarrow> bytes" where
  "keyPrefix sep parts depth = joinWith sep (take depth parts) @ sep @ strlit ''*''"

text \<open>The keys of the map an object counts for; \<^verbatim>\<open>maxDepth+1\<close> wraps.\<close>

definition mapKeys :: "bytes list \<Rightarrow> int \<Rightarrow> int \<Rightarrow> bytes \<Rightarrow> bytes list" where
  "mapKeys separators maxDepth db key =
     (let sep = hd separators;
          parts = splitN (normalizeKey separators key) sep (sint (of_int (maxDepth + 1) :: u64));
          limit = min (int (length parts) - 1) maxDepth
      in map (\<lambda>depth. itoa db @ [0] @ keyPrefix sep parts depth) [1..<Suc (nat limit)])"

definition sepCallback :: "bytes list \<Rightarrow> int \<Rightarrow> robj \<Rightarrow> ((bytes \<times> prefixStats) list, bool) gom" where
  "sepCallback separators maxDepth obj prefixes =
     (Inr True, fold (bumpStats (GetSize obj)) (mapKeys separators maxDepth (GetDBIndex obj) (GetKey obj)) prefixes)"

subsection \<open>The report\<close>

record sep_entry =
  entryDb :: bytes
  entryPrefix :: bytes
  entrySize :: int
  entryKeyCount :: int

definition sepEntry :: "bytes \<times> prefixStats \<Rightarrow> sep_entry" where
  "sepEntry p = \<lparr>entryDb = takeWhile (\<lambda>c. c \<noteq> 0) (fst p), entryPrefix = drop 1 (dropWhile (\<lambda>c. c \<noteq> 0) (fst p)),
     entrySize = statSize (snd p), entryKeyCount = statKeyCount (snd p)\<rparr>"

definition sepRow :: "sep_entry \<Rightarrow> out_line" where
  "sepRow e = CsvRow [entryDb e, entryPrefix e, itoa (entrySize e), FormatSize (of_int (entrySize e)), itoa (entryKeyCount e)]"

definition orMax :: "int \<Rightarrow> int" where
  "orMax n = (if n \<le> 0 then maxInt64 else n)"

definition SepPrefixAnalyse ::
  "helper_env \<Rightarrow> (bytes \<Rightarrow> bytes option) \<Rightarrow> (sep_entry list \<Rightarrow> sep_entry list) \<Rightarrow> bytes \<Rightarrow> int \<Rightarrow> int \<Rightarrow>
     bytes list \<Rightarrow> helper_option list \<Rightarrow> (out_file, unit) gom"
where
  "SepPrefixAnalyse env fs sorter rdbFilename topN maxDepth separators options f =
     (if rdbFilename = [] then (Inl (Msg ''src file path is required''), f)
      else if separators = [] then (Inl (Msg ''at least one separator is required''), f)
      else case decodeFile env fs rdbFilename options (sepCallback separators (orMax maxDepth)) [] of
          Inl err \<Rightarrow> (Inl err, f)
        | Inr prefixes \<Rightarrow>
            (let entries = sorter (map sepEntry prefixes);
                 limit = min (orMax topN) (int (length entries))
             in bnd (outWrite ''write header failed'' (RawLine (strlit ''database,prefix,size,size_readable,key_count'')))
                  (\<lambda>_. withCsv (forEach (\<lambda>e. wrapErr ''csv write failed'' (csvWrite (sepRow e))) (take (nat limit) entries))) f))"

subsection \<open>What the map holds\<close>

text \<open>The specification: all the pairs of map key and size the objects give.\<close>

definition sizesOf :: "(bytes \<times> int) list \<Rightarrow> bytes \<Rightarrow> int list" where
  "sizesOf ws k = map snd (filter (\<lambda>w. fst w = k) ws)"

definition groups :: "(bytes \<times> int) list \<Rightarrow> (bytes \<times> prefixStats) list \<Rightarrow> bool" where
  "groups ws m \<longleftrightarrow> distinct (map fst m) \<and> fst ` set m = fst ` set ws \<and>
     (\<forall>(k, st) \<in> set m. statSize st = sum_list (sizesOf ws k) \<and> statKeyCount st = int (length (sizesOf ws k)))"

lemma map_of_groups:
  assumes "groups ws m"
  shows "map_of m k = (if k \<in> fst ` set ws
    then Some \<lparr>statSize = sum_list (sizesOf ws k), statKeyCount = int (length (sizesOf ws k))\<rparr> else None)"
proof (cases "k \<in> fst ` set ws")
  case True
  with assms obtain st where st: "(k, st) \<in> set m" unfolding groups_def by (metis (no_types, lifting) imageE prod.collapse)
  with assms have "st = \<lparr>statSize = sum_list (sizesOf ws k), statKeyCount = int (length (sizesOf ws k))\<rparr>"
    by (cases st) (auto simp: groups_def)
  moreover have "map_of m k = Some st" using assms st by (simp add: groups_def map_of_eq_Some_iff)
  ultimately show ?thesis using True by simp
next
  case False
  with assms show ?thesis by (simp add: groups_def map_of_eq_None_iff)
qed

lemma groups_iff:
  "groups ws m \<longleftrightarrow> distinct (map fst m) \<and> (\<forall>k. map_of m k = (if k \<in> fst ` set ws
    then Some \<lparr>statSize = sum_list (sizesOf ws k), statKeyCount = int (length (sizesOf ws k))\<rparr> else None))"
proof
  assume r: "distinct (map fst m) \<and> (\<forall>k. map_of m k = (if k \<in> fst ` set ws
    then Some \<lparr>statSize = sum_list (sizesOf ws k), statKeyCount = int (length (sizesOf ws k))\<rparr> else None))"
  then have mem: "(k, st) \<in> set m \<longleftrightarrow> k \<in> fst ` set ws \<and>
      st = \<lparr>statSize = sum_list (sizesOf ws k), statKeyCount = int (length (sizesOf ws k))\<rparr>" for k st
    by (auto simp: map_of_eq_Some_iff [symmetric])
  then have "fst ` set m = fst ` set ws" by force
  with r mem show "groups ws m" by (auto simp: groups_def)
qed (simp add: map_of_groups, simp add: groups_def)

lemma sizesOf_snoc: "sizesOf (ws @ [(k, sz)]) k' = sizesOf ws k' @ (if k' = k then [sz] else [])"
  by (simp add: sizesOf_def)

lemma sizesOf_none: "k \<notin> fst ` set ws \<Longrightarrow> sizesOf ws k = []"
  by (force simp: sizesOf_def filter_empty_conv)

lemma bumpStats_groups:
  assumes "groups ws m"
  shows "groups (ws @ [(k, sz)]) (bumpStats sz k m)"
proof -
  have "distinct (map fst (bumpStats sz k m))"
    using assms by (simp add: bumpStats_def Let_def groups_def distinct_update)
  moreover have "map_of (bumpStats sz k m) k' = (if k' \<in> fst ` set (ws @ [(k, sz)])
    then Some \<lparr>statSize = sum_list (sizesOf (ws @ [(k, sz)]) k'), statKeyCount = int (length (sizesOf (ws @ [(k, sz)]) k'))\<rparr> else None)" for k'
    using sizesOf_none [of k ws]
    by (simp add: bumpStats_def update_conv' map_of_groups [OF assms] sizesOf_snoc Let_def)
  ultimately show ?thesis unfolding groups_iff by blast
qed

lemma bumpAll_groups: "groups ws m \<Longrightarrow> groups (ws @ map (\<lambda>k. (k, sz)) ks) (fold (bumpStats sz) ks m)"
proof (induction ks arbitrary: ws m)
  case (Cons k ks)
  from Cons.IH [OF bumpStats_groups [OF Cons.prems, of k sz]] show ?case by simp
qed simp

definition objWords :: "bytes list \<Rightarrow> int \<Rightarrow> robj \<Rightarrow> (bytes \<times> int) list" where
  "objWords separators maxDepth obj =
     map (\<lambda>k. (k, GetSize obj)) (mapKeys separators maxDepth (GetDBIndex obj) (GetKey obj))"

definition statsOf :: "bytes list \<Rightarrow> int \<Rightarrow> robj list \<Rightarrow> (bytes \<times> prefixStats) list" where
  "statsOf separators maxDepth objs = fold (\<lambda>obj. snd \<circ> sepCallback separators maxDepth obj) objs []"

lemma statsOf_groups: "groups (concat (map (objWords separators maxDepth) objs)) (statsOf separators maxDepth objs)"
proof (induction objs rule: rev_induct)
  case Nil
  show ?case by (simp add: groups_def statsOf_def)
next
  case (snoc obj objs)
  from bumpAll_groups [OF snoc, of "GetSize obj" "mapKeys separators maxDepth (GetDBIndex obj) (GetKey obj)"]
  show ?case by (simp add: statsOf_def sepCallback_def objWords_def)
qed


subsection \<open>One separator of one byte\<close>

text \<open>The places where such a separator cuts a key are its occurrences.\<close>

definition cutAt :: "byte \<Rightarrow> bytes \<Rightarrow> nat \<Rightarrow> bytes \<Rightarrow> bool" where
  "cutAt c s d q \<longleftrightarrow> take (length q) s = q \<and> q \<noteq> [] \<and> last q = c \<and> count_list q c = d"

lemma indexOf_byte:
  "indexOf [c] s = (if c \<in> set s then Some (length (takeWhile (\<lambda>b. b \<noteq> c) s)) else None)"
  by (induction s) (simp_all add: indexOf.simps)

lemma split_at: "c \<in> set s \<Longrightarrow> \<exists>a b. s = a @ c # b \<and> c \<notin> set a \<and> takeWhile (\<lambda>x. x \<noteq> c) s = a"
  using split_list_first [of c s] by (fastforce simp: takeWhile_append)

lemma count_list_last: "q \<noteq> [] \<Longrightarrow> last q = c \<Longrightarrow> 0 < count_list q c"
  by (cases q rule: rev_cases) auto

lemma cutAt_split:
  assumes "c \<notin> set a"
  shows "cutAt c (a @ c # b) d q \<longleftrightarrow>
    d = 1 \<and> q = a @ [c] \<or> (\<exists>q'. q = a @ c # q' \<and> 1 < d \<and> cutAt c b (d - 1) q')" (is "?l \<longleftrightarrow> ?r")
proof
  assume l: ?l
  then have pre: "take (length q) (a @ c # b) = q" "q \<noteq> []" "last q = c" "count_list q c = d" by (auto simp: cutAt_def)
  have long: "length a < length q"
  proof (rule ccontr)
    assume "\<not> length a < length q"
    with pre(1) have "q = take (length q) a" by simp
    with pre(2,3) assms show False by (metis in_set_takeD last_in_set)
  qed
  then obtain m where m: "length q = length a + Suc m" using less_iff_Suc_add by auto
  with pre(1) have q: "q = a @ c # take m b" by simp
  have ca: "count_list a c = 0" using assms by simp
  show ?r
  proof (cases "take m b = []")
    case True
    with q pre(4) ca show ?thesis by simp
  next
    case False
    then have "last (take m b) = c" using pre(3) q by simp
    then have "0 < count_list (take m b) c" by (rule count_list_last [OF False])
    moreover have "take (length (take m b)) b = take m b" by (simp add: min_def)
    ultimately show ?thesis using False q pre(3,4) ca by (intro disjI2 exI [of _ "take m b"]) (auto simp: cutAt_def)
  qed
next
  assume ?r
  then show ?l using assms by (auto simp: cutAt_def)
qed

lemma splitLoop_cuts:
  "1 \<le> d \<and> d < length (splitLoop n [c] s) \<and> q = joinWith [c] (take d (splitLoop n [c] s)) @ [c] \<longleftrightarrow>
   cutAt c s d q \<and> d \<le> n"
proof (induction n arbitrary: s d q)
  case 0
  have "d \<noteq> 0" if "cutAt c s d q" using that count_list_last [of q c] by (auto simp: cutAt_def)
  then show ?case by auto
next
  case (Suc n)
  show ?case
  proof (cases "c \<in> set s")
    case False
    then have "\<not> cutAt c s d q" by (auto simp: cutAt_def) (metis in_set_takeD last_in_set)
    with False show ?thesis by (simp add: indexOf_byte)
  next
    case True
    from split_at [OF this] obtain a b where s: "s = a @ c # b" "c \<notin> set a" "takeWhile (\<lambda>x. x \<noteq> c) s = a" by blast
    then have ps: "splitLoop (Suc n) [c] s = a # splitLoop n [c] b" by (simp add: indexOf_byte)
    note cut = cutAt_split [OF s(2), of b, folded s(1)]
    show ?thesis
    proof (cases "d \<le> 1")
      case True
      then show ?thesis using splitLoop_nonempty [of n "[c]" b]
        unfolding ps cut by (auto simp: le_Suc_eq)
    next
      case False
      then obtain k where k: "d = Suc k" "0 < k" by (cases d) auto
      have ne: "take k (splitLoop n [c] b) \<noteq> []" using k splitLoop_nonempty [of n "[c]" b] by simp
      have "1 \<le> d \<and> d < length (a # splitLoop n [c] b) \<and> q = joinWith [c] (take d (a # splitLoop n [c] b)) @ [c] \<longleftrightarrow>
        (\<exists>q'. q = a @ c # q' \<and> (1 \<le> k \<and> k < length (splitLoop n [c] b) \<and> q' = joinWith [c] (take k (splitLoop n [c] b)) @ [c]))"
        using k by (auto simp: joinWith_Cons [OF ne])
      also have "\<dots> \<longleftrightarrow> cutAt c s d q \<and> d \<le> Suc n"
        unfolding Suc.IH cut using k by auto
      finally show ?thesis by (simp only: ps)
    qed
  qed
qed


text \<open>The objects whose key starts with \<open>p\<close> in the database the decimal \<open>db\<close> names.\<close>

definition keysUnder :: "robj list \<Rightarrow> int \<Rightarrow> bytes \<Rightarrow> robj list" where
  "keysUnder objs db p = filter (\<lambda>obj. GetDBIndex obj = db \<and> take (length p) (GetKey obj) = p) objs"

definition cutPrefix :: "byte \<Rightarrow> int \<Rightarrow> bytes \<Rightarrow> bool" where
  "cutPrefix c maxDepth p \<longleftrightarrow> p \<noteq> [] \<and> last p = c \<and> int (count_list p c) \<le> maxDepth"

lemma distinct_cuts: "distinct (map (\<lambda>d. pre @ joinWith [c] (take d (splitLoop n [c] s)) @ [c] @ post) [1..<Suc m])"
  if "m < length (splitLoop n [c] s)"
proof -
  have cnt: "count_list (joinWith [c] (take d (splitLoop n [c] s)) @ [c]) c = d" if "1 \<le> d" "d \<le> m" for d
    using iffD1 [OF splitLoop_cuts [of d n c s "joinWith [c] (take d (splitLoop n [c] s)) @ [c]"]] that \<open>m < _\<close>
    unfolding cutAt_def by (meson le_less_trans)
  have "inj_on (\<lambda>d. pre @ joinWith [c] (take d (splitLoop n [c] s)) @ [c] @ post) (set [1..<Suc m])"
  proof (rule inj_onI)
    fix d e assume de: "d \<in> set [1..<Suc m]" "e \<in> set [1..<Suc m]"
      and "pre @ joinWith [c] (take d (splitLoop n [c] s)) @ [c] @ post = pre @ joinWith [c] (take e (splitLoop n [c] s)) @ [c] @ post"
    then have "joinWith [c] (take d (splitLoop n [c] s)) @ [c] = joinWith [c] (take e (splitLoop n [c] s)) @ [c]" by simp
    moreover have "1 \<le> d" "d \<le> m" "1 \<le> e" "e \<le> m" using de by auto
    ultimately show "d = e" using cnt [of d] cnt [of e] by metis
  qed
  then show ?thesis by (simp only: distinct_map distinct_upt)
qed

lemma splitN_cuts:
  assumes "1 \<le> maxDepth" "maxDepth \<le> maxInt64"
  shows "\<exists>n. splitN s [c] (sint (of_int (maxDepth + 1) :: u64)) = splitLoop n [c] s \<and>
    (\<forall>d q. cutAt c s d q \<and> int d \<le> maxDepth \<longrightarrow> d \<le> n)"
proof (cases "maxDepth = maxInt64")
  case True
  then have "sint (of_int (maxDepth + 1) :: u64) < 0" by (simp add: maxInt64_def)
  moreover have "d \<le> length s" if "cutAt c s d q" for d q
    using that count_le_length [of q c] by (auto simp: cutAt_def) (metis le_trans length_take min.cobounded1)
  ultimately show ?thesis by (intro exI [of _ "length s"]) (auto simp: splitN_def splitAll_def)
next
  case False
  with assms have "sint (of_int (maxDepth + 1) :: u64) = maxDepth + 1"
    by (intro sint_of_int) (auto simp: maxInt64_def)
  with assms show ?thesis by (intro exI [of _ "nat maxDepth"]) (auto simp: splitN_def nat_add_distrib)
qed

lemma mapKeys_cuts:
  assumes "1 \<le> maxDepth" "maxDepth \<le> maxInt64"
  shows "distinct (mapKeys [[c]] maxDepth db key) \<and>
    (k \<in> set (mapKeys [[c]] maxDepth db key) \<longleftrightarrow>
      (\<exists>p. k = itoa db @ [0] @ p @ strlit ''*'' \<and> cutPrefix c maxDepth p \<and> take (length p) key = p))"
proof -
  obtain n where sp: "splitN key [c] (sint (of_int (maxDepth + 1) :: u64)) = splitLoop n [c] key"
    and n: "\<And>d q. cutAt c key d q \<Longrightarrow> int d \<le> maxDepth \<Longrightarrow> d \<le> n" using splitN_cuts [OF assms] by blast
  let ?ps = "splitLoop n [c] key"
  define m where "m = nat (min (int (length ?ps) - 1) maxDepth)"
  have len: "m < length ?ps" using splitLoop_nonempty [of n "[c]" key] by (cases "splitLoop n [c] key") (auto simp: m_def)
  have nk: "normalizeKey [[c]] key = key" by (simp add: normalizeKey_def)
  have mk: "mapKeys [[c]] maxDepth db key =
      map (\<lambda>d. (itoa db @ [0]) @ joinWith [c] (take d ?ps) @ [c] @ strlit ''*'') [1..<Suc m]"
    unfolding mapKeys_def nk Let_def list.sel sp keyPrefix_def m_def by simp
  have "d \<le> m \<longleftrightarrow> d < length ?ps \<and> int d \<le> maxDepth" for d using assms(1) len by (auto simp: m_def)
  then have "1 \<le> d \<and> d \<le> m \<and> q = joinWith [c] (take d ?ps) @ [c] \<longleftrightarrow> cutAt c key d q \<and> int d \<le> maxDepth" for d q
    using splitLoop_cuts [of d n c key q] n [of d q] by auto
  then have "(\<exists>d. 1 \<le> d \<and> d \<le> m \<and> q = joinWith [c] (take d ?ps) @ [c]) \<longleftrightarrow> cutPrefix c maxDepth q \<and> take (length q) key = q" for q
    by (auto simp: cutAt_def cutPrefix_def)
  moreover have "k \<in> set (mapKeys [[c]] maxDepth db key) \<longleftrightarrow>
      (\<exists>p. k = itoa db @ [0] @ p @ strlit ''*'' \<and> (\<exists>d. 1 \<le> d \<and> d \<le> m \<and> p = joinWith [c] (take d ?ps) @ [c]))"
    unfolding mk by (fastforce simp: less_Suc_eq_le simp del: upt_Suc)
  ultimately have "k \<in> set (mapKeys [[c]] maxDepth db key) \<longleftrightarrow>
      (\<exists>p. k = itoa db @ [0] @ p @ strlit ''*'' \<and> cutPrefix c maxDepth p \<and> take (length p) key = p)" by simp
  with distinct_cuts [OF len] show ?thesis unfolding mk by blast
qed


lemma filter_eq_distinct: "distinct xs \<Longrightarrow> filter (\<lambda>x. x = k) xs = (if k \<in> set xs then [k] else [])"
  by (induction xs) auto

lemma zero_not_in_itoa: "0 \<notin> set (itoa db)"
proof -
  have "0 \<notin> set (digits n)" for n using list_all_digits [of n] by (auto simp: list_all_iff isDigit_def)
  then show ?thesis by (simp add: itoa_def)
qed

lemma mapKey_inj: "itoa db @ [0] @ p @ post = itoa db' @ [0] @ p' @ post \<longleftrightarrow> db = db' \<and> p = p'"
proof
  assume eq: "itoa db @ [0] @ p @ post = itoa db' @ [0] @ p' @ post"
  have tw: "takeWhile (\<lambda>b. b \<noteq> 0) (itoa i @ [0] @ r) = itoa i" for i r
    using zero_not_in_itoa [of i] by (subst takeWhile_append2) auto
  from tw [of db "p @ post"] tw [of db' "p' @ post"] have "itoa db = itoa db'" unfolding eq by simp
  with eq show "db = db' \<and> p = p'" by (simp add: itoa_inj)
qed simp

lemma sizes_under:
  assumes "1 \<le> maxDepth" "maxDepth \<le> maxInt64" "cutPrefix c maxDepth p"
  shows "sizesOf (concat (map (objWords [[c]] maxDepth) objs)) (itoa db @ [0] @ p @ strlit ''*'') = map GetSize (keysUnder objs db p)"
proof (induction objs)
  case (Cons obj objs)
  let ?k = "itoa db @ [0] @ p @ strlit ''*''"
  let ?ks = "mapKeys [[c]] maxDepth (GetDBIndex obj) (GetKey obj)"
  note mk = mapKeys_cuts [OF assms(1,2), of c "GetDBIndex obj" "GetKey obj" ?k]
  have "?k \<in> set ?ks \<longleftrightarrow> GetDBIndex obj = db \<and> take (length p) (GetKey obj) = p"
    using mk assms(3) by (auto simp: mapKey_inj simp del: append.simps)
  moreover have "sizesOf (objWords [[c]] maxDepth obj) ?k = map (\<lambda>_. GetSize obj) (filter (\<lambda>x. x = ?k) ?ks)"
    by (simp add: sizesOf_def objWords_def filter_map o_def)
  ultimately have "sizesOf (objWords [[c]] maxDepth obj) ?k =
      (if GetDBIndex obj = db \<and> take (length p) (GetKey obj) = p then [GetSize obj] else [])"
    using mk by (simp add: filter_eq_distinct del: append.simps)
  moreover have "sizesOf (concat (map (objWords [[c]] maxDepth) (obj # objs))) ?k =
      sizesOf (objWords [[c]] maxDepth obj) ?k @ sizesOf (concat (map (objWords [[c]] maxDepth) objs)) ?k"
    by (simp add: sizesOf_def)
  ultimately show ?case using Cons by (simp add: keysUnder_def del: append.simps)
qed (simp add: sizesOf_def keysUnder_def)

definition prefixEntry :: "robj list \<Rightarrow> int \<Rightarrow> bytes \<Rightarrow> sep_entry" where
  "prefixEntry objs db p = \<lparr>entryDb = itoa db, entryPrefix = p @ strlit ''*'',
     entrySize = sum_list (map GetSize (keysUnder objs db p)), entryKeyCount = int (length (keysUnder objs db p))\<rparr>"

lemma sepEntry_mapKey:
  "sepEntry (itoa db @ [0] @ q, st) = \<lparr>entryDb = itoa db, entryPrefix = q, entrySize = statSize st, entryKeyCount = statKeyCount st\<rparr>"
proof -
  have "takeWhile (\<lambda>b. b \<noteq> 0) (itoa db @ [0] @ q) = itoa db" "dropWhile (\<lambda>b. b \<noteq> 0) (itoa db @ [0] @ q) = [0] @ q"
    using zero_not_in_itoa [of db] by (subst takeWhile_append2 dropWhile_append2; auto)+
  then show ?thesis by (simp add: sepEntry_def)
qed

lemma entries_exact:
  assumes D: "1 \<le> maxDepth" "maxDepth \<le> maxInt64"
    and g: "groups (concat (map (objWords [[c]] maxDepth) objs)) m"
  shows "set (map sepEntry m) = {prefixEntry objs db p |db p. cutPrefix c maxDepth p \<and> keysUnder objs db p \<noteq> []}"
    and "distinct (map sepEntry m)"
proof -
  let ?ws = "concat (map (objWords [[c]] maxDepth) objs)"
  let ?k = "\<lambda>db p. itoa db @ [0] @ p @ strlit ''*''"
  have keys: "k \<in> fst ` set ?ws \<longleftrightarrow> (\<exists>db p. k = ?k db p \<and> cutPrefix c maxDepth p \<and> keysUnder objs db p \<noteq> [])" for k
  proof -
    have "k \<in> fst ` set ?ws \<longleftrightarrow> (\<exists>obj \<in> set objs. k \<in> set (mapKeys [[c]] maxDepth (GetDBIndex obj) (GetKey obj)))"
      by (force simp: objWords_def)
    also have "\<dots> \<longleftrightarrow> (\<exists>obj \<in> set objs. \<exists>p. k = ?k (GetDBIndex obj) p \<and> cutPrefix c maxDepth p \<and> take (length p) (GetKey obj) = p)"
      using mapKeys_cuts [OF D] by simp
    also have "\<dots> \<longleftrightarrow> (\<exists>db p. k = ?k db p \<and> cutPrefix c maxDepth p \<and> keysUnder objs db p \<noteq> [])"
      by (auto simp: keysUnder_def filter_empty_conv simp del: append.simps)
    finally show ?thesis .
  qed
  have entry: "sepEntry (?k db p, st) = prefixEntry objs db p" if "(?k db p, st) \<in> set m" "cutPrefix c maxDepth p" for db p st
  proof -
    from that(1) g have "statSize st = sum_list (sizesOf ?ws (?k db p))" "statKeyCount st = int (length (sizesOf ?ws (?k db p)))"
      unfolding groups_def by fast+
    then show ?thesis unfolding sizes_under [OF D that(2)] sepEntry_mapKey by (simp add: prefixEntry_def)
  qed
  have mem: "\<exists>db p. fst x = ?k db p \<and> cutPrefix c maxDepth p \<and> keysUnder objs db p \<noteq> []" if "x \<in> set m" for x
    using that g keys [of "fst x"] unfolding groups_def by blast
  have img: "sepEntry x = prefixEntry objs db p" if "x \<in> set m" "fst x = ?k db p" "cutPrefix c maxDepth p" for x db p
    using entry [of db p "snd x"] that by (metis prod.collapse)
  show "set (map sepEntry m) = {prefixEntry objs db p |db p. cutPrefix c maxDepth p \<and> keysUnder objs db p \<noteq> []}"
  proof (intro equalityI subsetI)
    fix e assume "e \<in> set (map sepEntry m)"
    then obtain x where x: "x \<in> set m" "e = sepEntry x" by auto
    obtain db p where "fst x = ?k db p" "cutPrefix c maxDepth p" "keysUnder objs db p \<noteq> []" using mem [OF x(1)] by blast
    with img [OF x(1)] x(2) show "e \<in> {prefixEntry objs db p |db p. cutPrefix c maxDepth p \<and> keysUnder objs db p \<noteq> []}" by blast
  next
    fix e assume "e \<in> {prefixEntry objs db p |db p. cutPrefix c maxDepth p \<and> keysUnder objs db p \<noteq> []}"
    then obtain db p where e: "e = prefixEntry objs db p" "cutPrefix c maxDepth p" "keysUnder objs db p \<noteq> []" by blast
    with keys have "?k db p \<in> fst ` set ?ws" by blast
    with g have "?k db p \<in> fst ` set m" by (simp only: groups_def)
    then obtain x where "x \<in> set m" "fst x = ?k db p" by (auto simp del: append.simps)
    with img [of x db p] e have "e = sepEntry x" "x \<in> set m" by simp_all
    then show "e \<in> set (map sepEntry m)" by simp
  qed
  have "inj_on sepEntry (set m)"
  proof (rule inj_onI)
    fix x y assume xy: "x \<in> set m" "y \<in> set m" "sepEntry x = sepEntry y"
    obtain db p db' p' where "fst x = ?k db p" "cutPrefix c maxDepth p" "fst y = ?k db' p'" "cutPrefix c maxDepth p'"
      using mem [OF xy(1)] mem [OF xy(2)] by blast
    with img [OF xy(1)] img [OF xy(2)] xy(3) have "fst x = fst y" by (simp add: prefixEntry_def itoa_inj)
    moreover have "distinct (map fst m)" using g by (simp add: groups_def)
    ultimately show "x = y" using xy(1,2) by (metis distinct_map inj_onD)
  qed
  moreover have "distinct m" using g by (simp add: groups_def distinct_map)
  ultimately show "distinct (map sepEntry m)" by (simp add: distinct_map)
qed


subsection \<open>The report\<close>

definition sepHeader :: out_line where
  "sepHeader = RawLine (strlit ''database,prefix,size,size_readable,key_count'')"

lemma SepPrefixAnalyse_report:
  assumes "rdbFilename \<noteq> []" "separators \<noteq> []" "fs rdbFilename = Some inp" "acceptsOptions env (settingsOf options)"
    and "coreDecoder (envParseFloat env) (globalMetaOpt (settingsOf options)) collect (newDecoder inp, []) = (Inr (), (d, objs))"
    and f: "\<And>ls l. \<not> outRefuses f ls l"
  shows "SepPrefixAnalyse env fs sorter rdbFilename topN maxDepth separators options f = (Inr (), f\<lparr>outLines := outLines f @ sepHeader #
    map sepRow (take (nat (min (orMax topN) (int (length (sorter (map sepEntry (statsOf separators (orMax maxDepth)
      (filter (passes env (settingsOf options)) objs)))))))) (sorter (map sepEntry (statsOf separators (orMax maxDepth)
      (filter (passes env (settingsOf options)) objs)))))\<rparr>)"
proof -
  have "sepCallback separators (orMax maxDepth) obj (statsOf separators (orMax maxDepth) os) =
      (Inr True, statsOf separators (orMax maxDepth) (os @ [obj]))" for obj os
    by (simp add: statsOf_def sepCallback_def)
  with decodeFile_fold [of fs rdbFilename inp env options d objs "sepCallback separators (orMax maxDepth)"
    "statsOf separators (orMax maxDepth)"] assms(3-5)
  have "decodeFile env fs rdbFilename options (sepCallback separators (orMax maxDepth)) [] =
      Inr (statsOf separators (orMax maxDepth) (filter (passes env (settingsOf options)) objs))"
    by (simp add: statsOf_def)
  then show ?thesis using assms(1,2) f
    by (simp add: SepPrefixAnalyse_def Let_def bnd_def outWrite_def csv_all sepHeader_def)
qed

subsection \<open>Properties\<close>

text \<open>
  C24: the separator-based report of a file that parses, for one separator of one byte, is the
  header and the rows of the largest entries in descending order of size, where the entries
  are exactly one for each database and each prefix of one of its keys that passes the
  filters, ends with the separator and has at most the allowed number of them, and an entry
  gives the number and the total size of the keys of the database that start with the prefix.
\<close>

theorem sep_prefix_report:
  assumes "rdbFilename \<noteq> []" and "fs rdbFilename = Some inp" and "acceptsOptions env (settingsOf options)"
    and "coreDecoder (envParseFloat env) (globalMetaOpt (settingsOf options)) collect (newDecoder inp, []) = (Inr (), (d, objs))"
    and "\<And>ls l. \<not> outRefuses f ls l"
    and "\<And>es. mset (sorter es) = mset es" and "\<And>es. sorted_wrt (\<lambda>a b. entrySize b \<le> entrySize a) (sorter es)"
    and "maxDepth \<le> maxInt64"
  shows "\<exists>es. SepPrefixAnalyse env fs sorter rdbFilename topN maxDepth [[c]] options f =
      (Inr (), f\<lparr>outLines := outLines f @ sepHeader # map sepRow (take (nat (orMax topN)) es)\<rparr>) \<and>
    sorted_wrt (\<lambda>a b. entrySize b \<le> entrySize a) es \<and> distinct es \<and>
    set es = {prefixEntry (filter (passes env (settingsOf options)) objs) db p |db p.
      cutPrefix c (orMax maxDepth) p \<and> keysUnder (filter (passes env (settingsOf options)) objs) db p \<noteq> []}"
proof -
  let ?objs = "filter (passes env (settingsOf options)) objs"
  let ?m = "statsOf [[c]] (orMax maxDepth) ?objs"
  let ?es = "sorter (map sepEntry ?m)"
  have D: "1 \<le> orMax maxDepth" "orMax maxDepth \<le> maxInt64" using assms(8) by (auto simp: orMax_def maxInt64_def)
  note exact = entries_exact [OF D statsOf_groups, of c ?objs]
  have "take (nat (min (orMax topN) (int (length ?es)))) ?es = take (nat (orMax topN)) ?es"
    by (auto simp: min_def)
  moreover have "set ?es = set (map sepEntry ?m)" using assms(6) by (metis mset_eq_setD)
  moreover have "distinct ?es" using exact(2) assms(6) by (metis mset_eq_imp_distinct_iff)
  ultimately show ?thesis
    using SepPrefixAnalyse_report [of rdbFilename "[[c]]" fs inp env options d objs f sorter topN maxDepth] assms(1-5,7) exact(1)
    by (intro exI [of _ ?es]) simp
qed

theorem sep_prefix_report_witness:
  "\<exists>inp f'. SepPrefixAnalyse \<lparr>compileRegex = \<lambda>_. None, nowNanos = 0, nowSeconds = 0, envParseFloat = \<lambda>_. None, envOutside = 0\<rparr>
     (\<lambda>_. Some inp) (sort_key (\<lambda>e. - entrySize e)) (strlit ''dump.rdb'') 3 0 [[58]] [] \<lparr>outLines = [], outRefuses = \<lambda>_ _. False, outSpills = \<lambda>_ _. 0\<rparr> = (Inr (), f') \<and>
     hd (outLines f') = sepHeader"
proof -
  let ?env = "\<lparr>compileRegex = \<lambda>_. None, nowNanos = 0, nowSeconds = 0, envParseFloat = \<lambda>_. None, envOutside = 0\<rparr>"
  have st: "settingsOf [] = \<lparr>regexOpt = None, noExpiredOpt = False, expirationOpt = [], sizeOpt = [], globalMetaOpt = False\<rparr>"
    by (simp add: settingsOf_def)
  obtain inp d objs where run: "coreDecoder (\<lambda>_. None) False collect (newDecoder inp, []) = (Inr (), (d, objs :: robj list))"
    using two_key_file by blast
  have "sorted_wrt (\<lambda>a b. entrySize b \<le> entrySize a) (sort_key (\<lambda>e. - entrySize e) es)" for es :: "sep_entry list"
    using sorted_sort_key [of "\<lambda>e. - entrySize e" es] by (simp add: sorted_map)
  moreover have "acceptsOptions ?env (settingsOf [])" by (simp add: acceptsOptions_def st)
  ultimately show ?thesis
    using sep_prefix_report [of "strlit ''dump.rdb''" "\<lambda>_. Some inp" inp ?env "[]" d objs
      "\<lparr>outLines = [], outRefuses = \<lambda>_ _. False, outSpills = \<lambda>_ _. 0\<rparr>" "sort_key (\<lambda>e. - entrySize e)" 0 3 58] run
    by (intro exI [of _ inp]) (auto simp: st strlit_def maxInt64_def)
qed

end
