(* ===== verification/Flame.thy ===== *)
theory Flame
  imports GoStrings TopList Marshal
begin

section \<open>The flame graph (helper/flamegraph.go, d3flame/web.go)\<close>

text \<open>
  Every key is cut at the separators and its size is added to the nodes on its path from the
  root, the database first; large graphs are trimmed.  The tree of pointers is a value of a
  recursive datatype whose maps are association lists, and the node the code walks down to is
  rebuilt with its path.  \<open>FlameGraph\<close> ends with the tree and the port; \<open>flameJson\<close> is the JSON
  form of the tree, and serving it is left to the library.
\<close>

subsection \<open>The tree\<close>

datatype flameItem = FlameItem (flameName: bytes) (flameValue: int) (flameChildren: "(bytes \<times> flameItem) list")

fun AddChild :: "flameItem \<Rightarrow> flameItem \<Rightarrow> flameItem" where
  "AddChild (FlameItem name v cs) n = FlameItem name v (AList.update (flameName n) n cs)"

text \<open>The JSON form: a map of children becomes the array of its values.\<close>

fun flameJson :: "flameItem \<Rightarrow> 'v jval" where
  "flameJson (FlameItem name v cs) = JStruct (field ''n'' (JText name) @ field ''v'' (JInt v) @
     omitEmpty ''c'' (cs = []) (JArray (map (\<lambda>c. flameJson (snd c)) cs)))"

definition splitKey :: "bytes \<Rightarrow> bytes list \<Rightarrow> bytes list" where
  "splitKey s separators =
     (let sep = (if separators = [] then strlit '':'' else hd separators)
      in splitN (fold (\<lambda>old k. replaceAll k old sep) (tl separators) s) sep (- 1))"

text \<open>The walk: a missing child is added, the child's value grows, and the walk goes on from it.\<close>

fun addParts :: "int \<Rightarrow> bytes list \<Rightarrow> flameItem \<Rightarrow> flameItem" where
  "addParts sz [] node = node"
| "addParts sz (part # parts) node =
     (let node1 = (if map_of (flameChildren node) part = None then AddChild node (FlameItem part 0 []) else node);
          child = the (map_of (flameChildren node1) part);
          grown = FlameItem (flameName child) (flameValue child + sz) (flameChildren child)
      in FlameItem (flameName node1) (flameValue node1)
           (AList.update part (addParts sz parts grown) (flameChildren node1)))"

definition partsOf :: "bytes list \<Rightarrow> robj \<Rightarrow> bytes list" where
  "partsOf separators obj = (strlit ''db:'' @ itoa (GetDBIndex obj)) # splitKey (GetKey obj) separators"

definition addObject :: "bytes list \<Rightarrow> robj \<Rightarrow> flameItem \<Rightarrow> flameItem" where
  "addObject separators obj root = addParts (GetSize obj) (partsOf separators obj) root"

subsection \<open>Trimming\<close>

definition bigNodeThreshold :: int where
  "bigNodeThreshold = 1024 * 1024"

definition TrimThreshold :: int where
  "TrimThreshold = 1000"

definition smallLeaf :: "flameItem \<Rightarrow> bool" where
  "smallLeaf child \<longleftrightarrow> flameChildren child = [] \<and> flameValue child < bigNodeThreshold"

text \<open>
  The queue visits every node once, a node before its children, and a visit changes only the
  map of the node it is at; the recursion makes the same visits.
\<close>

fun trimData :: "flameItem \<Rightarrow> flameItem" where
  "trimData (FlameItem name v cs) =
     (let leafSum = sum_list (map (\<lambda>c. flameValue (snd c)) (filter (\<lambda>c. smallLeaf (snd c)) cs));
          node = FlameItem name v (map (\<lambda>c. (fst c, trimData (snd c))) (filter (\<lambda>c. \<not> smallLeaf (snd c)) cs))
      in if 0 < leafSum then AddChild node (FlameItem (strlit ''others'') leafSum []) else node)"

definition childTotal :: "flameItem \<Rightarrow> int" where
  "childTotal node = sum_list (map (\<lambda>c. flameValue (snd c)) (flameChildren node))"

definition flameCallback :: "bytes list \<Rightarrow> robj \<Rightarrow> (int \<times> flameItem, bool) gom" where
  "flameCallback separators obj s = (Inr True, (fst s + 1, addObject separators obj (snd s)))"

definition FlameGraph ::
  "helper_env \<Rightarrow> (bytes \<Rightarrow> bytes option) \<Rightarrow> bytes \<Rightarrow> int \<Rightarrow> bytes list \<Rightarrow> helper_option list \<Rightarrow> (flameItem \<times> int) res"
where
  "FlameGraph env fs rdbFilename port separators options =
     (if rdbFilename = [] then Inl (Msg ''src file path is required'')
      else case decodeFile env fs rdbFilename options (flameCallback separators) (0, FlameItem (strlit ''root'') 0 []) of
          Inl err \<Rightarrow> Inl err
        | Inr (keys, root) \<Rightarrow>
            (let total = FlameItem (flameName root) (childTotal root) (flameChildren root)
             in Inr (if TrimThreshold \<le> keys then trimData total else total, if port = 0 then 16379 else port)))"

subsection \<open>What the nodes hold\<close>

fun itemAt :: "bytes list \<Rightarrow> flameItem \<Rightarrow> flameItem option" where
  "itemAt [] node = Some node"
| "itemAt (part # parts) node = (case map_of (flameChildren node) part of
     None \<Rightarrow> None
   | Some child \<Rightarrow> itemAt parts child)"

definition labelAt :: "bytes list \<Rightarrow> flameItem \<Rightarrow> (bytes \<times> int) option" where
  "labelAt p node = map_option (\<lambda>n. (flameName n, flameValue n)) (itemAt p node)"

lemma labelAt_Cons: "labelAt (q # p) node =
    (case map_of (flameChildren node) q of None \<Rightarrow> None | Some child \<Rightarrow> labelAt p child)"
  by (simp add: labelAt_def split: option.split)

lemma labelAt_Nil: "labelAt [] node = Some (flameName node, flameValue node)"
  by (simp add: labelAt_def)

lemma AddChild_sel [simp]: "flameName (AddChild node n) = flameName node" "flameValue (AddChild node n) = flameValue node"
  "flameChildren (AddChild node n) = AList.update (flameName n) n (flameChildren node)"
  by (cases node, simp)+

lemma addParts_sel: "flameName (addParts sz parts node) = flameName node" "flameValue (addParts sz parts node) = flameValue node"
  by (induction parts arbitrary: node) (simp_all add: Let_def)

lemma addParts_child:
  "map_of (flameChildren (addParts sz (part # parts) node)) q =
     (if q = part then (case map_of (flameChildren node) part of
        None \<Rightarrow> Some (addParts sz parts (FlameItem part sz []))
      | Some c \<Rightarrow> Some (addParts sz parts (FlameItem (flameName c) (flameValue c + sz) (flameChildren c))))
      else map_of (flameChildren node) q)"
  by (auto simp: Let_def update_conv' split: option.split)

lemma labelAt_leaf: "labelAt p (FlameItem nm v []) = (if p = [] then Some (nm, v) else None)"
  by (cases p) (simp_all add: labelAt_Cons labelAt_Nil)

lemma labelAt_value: "p \<noteq> [] \<Longrightarrow> labelAt p (FlameItem nm v cs) = labelAt p (FlameItem nm' v' cs)"
  by (cases p) (simp_all add: labelAt_Cons)

lemma labelAt_add:
  assumes "p \<noteq> []"
  shows "labelAt p (addParts sz parts node) =
    (if take (length p) parts = p then Some (case labelAt p node of None \<Rightarrow> (last p, sz) | Some (nm, v) \<Rightarrow> (nm, v + sz))
     else labelAt p node)"
  using assms
proof (induction parts arbitrary: p node)
  case (Cons part parts)
  from Cons.prems obtain q p' where p: "p = q # p'" by (cases p) auto
  show ?case
  proof (cases "p' = []")
    case True
    with p show ?thesis
      by (auto simp: labelAt_Cons labelAt_Nil addParts_child addParts_sel simp del: addParts.simps split: option.split)
  next
    case False
    note IH = Cons.IH [OF False]
    have "labelAt p' (FlameItem (flameName c) v (flameChildren c)) = labelAt p' c" for c v
      using labelAt_value [OF False] by (cases c) simp
    with False p show ?thesis
      by (auto simp: labelAt_Cons addParts_child IH labelAt_leaf simp del: addParts.simps split: option.split)
  qed
qed simp

definition flameUnder :: "bytes list \<Rightarrow> bytes list \<Rightarrow> robj list \<Rightarrow> robj list" where
  "flameUnder separators p objs = filter (\<lambda>obj. take (length p) (partsOf separators obj) = p) objs"

definition graphOf :: "bytes list \<Rightarrow> robj list \<Rightarrow> flameItem" where
  "graphOf separators objs = fold (addObject separators) objs (FlameItem (strlit ''root'') 0 [])"

lemma labelAt_graph:
  "p \<noteq> [] \<Longrightarrow> labelAt p (graphOf separators objs) = (if flameUnder separators p objs = [] then None
     else Some (last p, sum_list (map GetSize (flameUnder separators p objs))))"
proof (induction objs rule: rev_induct)
  case Nil
  then show ?case by (simp add: graphOf_def flameUnder_def labelAt_leaf)
next
  case (snoc obj objs)
  have "graphOf separators (objs @ [obj]) = addObject separators obj (graphOf separators objs)" by (simp add: graphOf_def)
  with snoc show ?case by (simp add: addObject_def labelAt_add flameUnder_def)
qed


fun wellShaped :: "flameItem \<Rightarrow> bool" where
  "wellShaped (FlameItem name v cs) \<longleftrightarrow> distinct (map fst cs) \<and>
     (\<forall>c \<in> set cs. flameName (snd c) = fst c \<and> 0 \<le> flameValue (snd c) \<and> wellShaped (snd c))"

lemma wellShaped_iff:
  "wellShaped node \<longleftrightarrow> distinct (map fst (flameChildren node)) \<and>
     (\<forall>k c. map_of (flameChildren node) k = Some c \<longrightarrow> flameName c = k \<and> 0 \<le> flameValue c \<and> wellShaped c)"
  by (cases node) (fastforce simp: map_of_eq_Some_iff)

lemma distinct_addParts: "distinct (map fst (flameChildren node)) \<Longrightarrow> distinct (map fst (flameChildren (addParts sz parts node)))"
  by (cases parts) (simp_all add: Let_def distinct_update)

lemma wellShaped_add: "0 \<le> sz \<Longrightarrow> wellShaped node \<Longrightarrow> wellShaped (addParts sz parts node)"
proof (induction parts arbitrary: node)
  case (Cons part parts)
  have sub: "wellShaped (addParts sz parts (FlameItem nm v cs))" if "wellShaped (FlameItem nm' v' cs)" for nm v nm' v' cs
    using Cons.IH [of "FlameItem nm v cs"] Cons.prems(1) that by simp
  have leaf: "wellShaped (addParts sz parts (FlameItem part sz []))" using sub [of part 0 "[]"] by simp
  have node: "wellShaped (addParts sz parts (FlameItem (flameName c) (flameValue c + sz) (flameChildren c)))"
    if "wellShaped c" for c using that sub by (cases c) auto
  have d: "distinct (map fst (flameChildren (addParts sz (part # parts) node)))"
    using Cons.prems(2) distinct_addParts wellShaped_iff by blast
  have "flameName c = q \<and> 0 \<le> flameValue c \<and> wellShaped c"
    if "map_of (flameChildren (addParts sz (part # parts) node)) q = Some c" for q c
    using that Cons.prems leaf node unfolding addParts_child wellShaped_iff [of node]
    by (auto simp: addParts_sel split: if_splits option.splits)
  with d show ?case unfolding wellShaped_iff [of "addParts sz (part # parts) node"] by blast
qed simp

lemma sum_AList_update:
  "sum_list (map (\<lambda>c. f (snd c)) (AList.update k v cs)) =
    sum_list (map (\<lambda>c. f (snd c)) cs) + f v - (case map_of cs k of None \<Rightarrow> 0 | Some w \<Rightarrow> f w)" for f :: "'a \<Rightarrow> int"
  by (induction cs) (auto split: option.splits)

lemma childTotal_add: "childTotal (addParts sz (part # parts) node) = childTotal node + sz"
  by (auto simp: childTotal_def Let_def sum_AList_update addParts_sel update_conv' split: option.split)

lemma childTotal_graph: "childTotal (graphOf separators objs) = sum_list (map GetSize objs)"
  by (induction objs rule: rev_induct)
     (simp_all add: graphOf_def addObject_def partsOf_def childTotal_add childTotal_def [of "FlameItem _ _ []"] del: addParts.simps)

lemma wellShaped_graph: "(\<And>obj. obj \<in> set objs \<Longrightarrow> 0 \<le> GetSize obj) \<Longrightarrow> wellShaped (graphOf separators objs)"
  by (induction objs rule: rev_induct) (simp_all add: graphOf_def addObject_def wellShaped_add)

subsection \<open>What trimming keeps\<close>

fun keptPath :: "bytes list \<Rightarrow> flameItem \<Rightarrow> bool" where
  "keptPath [] node \<longleftrightarrow> True"
| "keptPath (part # parts) node \<longleftrightarrow> (case map_of (flameChildren node) part of
     None \<Rightarrow> False
   | Some child \<Rightarrow> \<not> smallLeaf child \<and> keptPath parts child)"

lemma trimData_sel [simp]: "flameName (trimData node) = flameName node" "flameValue (trimData node) = flameValue node"
  by (cases node, simp add: Let_def)+

lemma map_of_filtered:
  "distinct (map fst cs) \<Longrightarrow> map_of (map (\<lambda>c. (fst c, g (snd c))) (filter (\<lambda>c. P (snd c)) cs)) k =
    (case map_of cs k of None \<Rightarrow> None | Some c \<Rightarrow> if P c then Some (g c) else None)"
  by (induction cs) (force split: option.splits dest: map_of_SomeD)+

lemma trimData_child:
  assumes "wellShaped node" "q \<noteq> strlit ''others''"
  shows "map_of (flameChildren (trimData node)) q = (case map_of (flameChildren node) q of
    None \<Rightarrow> None | Some c \<Rightarrow> if smallLeaf c then None else Some (trimData c))"
  using assms
  by (cases node) (simp add: Let_def map_of_filtered [where P = "\<lambda>c. \<not> smallLeaf c"] update_conv' split: option.split)

lemma itemAt_trim:
  "wellShaped node \<Longrightarrow> strlit ''others'' \<notin> set p \<Longrightarrow>
    itemAt p (trimData node) = (if keptPath p node then map_option trimData (itemAt p node) else None)"
proof (induction p arbitrary: node)
  case (Cons q p)
  have "wellShaped c" if "map_of (flameChildren node) q = Some c" for c using that Cons.prems(1) wellShaped_iff by blast
  moreover have "q \<noteq> strlit ''others''" "strlit ''others'' \<notin> set p" using Cons.prems(2) by auto
  ultimately show ?case using Cons.IH Cons.prems(1) by (simp add: trimData_child split: option.split)
qed simp

lemma childTotal_trim:
  assumes w: "wellShaped node"
    and o: "\<And>c. map_of (flameChildren node) (strlit ''others'') = Some c \<Longrightarrow> smallLeaf c"
  shows "childTotal (trimData node) = childTotal node"
proof (cases node)
  case (FlameItem name v cs)
  let ?f = "\<lambda>c :: bytes \<times> flameItem. flameValue (snd c)"
  let ?small = "filter (\<lambda>c. smallLeaf (snd c)) cs"
  let ?big = "map (\<lambda>c. (fst c, trimData (snd c))) (filter (\<lambda>c. \<not> smallLeaf (snd c)) cs)"
  have split: "sum_list (map ?f ?small) + sum_list (map ?f ?big) = sum_list (map ?f cs)"
    by (induction cs) (simp_all add: o_def)
  have "0 \<le> ?f c" if "c \<in> set ?small" for c using that w FlameItem by auto
  then have "0 \<le> sum_list (map ?f ?small)" by (intro sum_list_nonneg) auto
  moreover have "map_of ?big (strlit ''others'') = None"
    using w o FlameItem by (auto simp: map_of_filtered [where P = "\<lambda>c. \<not> smallLeaf c"] split: option.split)
  ultimately show ?thesis using split FlameItem
    by (simp add: childTotal_def Let_def sum_AList_update)
qed


lemma itemAt_keeps:
  "itemAt p g = Some node \<Longrightarrow> wellShaped g \<Longrightarrow>
    wellShaped node \<and> (keptPath (p @ [k]) g \<longleftrightarrow> keptPath p g \<and> keptPath [k] node)"
proof (induction p arbitrary: g)
  case (Cons q p)
  then obtain c where c: "map_of (flameChildren g) q = Some c" "itemAt p c = Some node" by (auto split: option.splits)
  with Cons.prems(2) have "wellShaped c" using wellShaped_iff by blast
  with Cons.IH [OF c(2)] c(1) show ?case by simp
qed simp

lemma FlameGraph_graph:
  assumes "rdbFilename \<noteq> []" "fs rdbFilename = Some inp" "acceptsOptions env (settingsOf options)"
    and "coreDecoder (envParseFloat env) (globalMetaOpt (settingsOf options)) collect (newDecoder inp, []) = (Inr (), (d, objs))"
  shows "FlameGraph env fs rdbFilename port separators options =
    (let os = filter (passes env (settingsOf options)) objs;
         root = FlameItem (strlit ''root'') (sum_list (map GetSize os)) (flameChildren (graphOf separators os))
     in Inr (if TrimThreshold \<le> int (length os) then trimData root else root, if port = 0 then 16379 else port))"
proof -
  let ?h = "\<lambda>os. (int (length os), graphOf separators os)"
  have "flameCallback separators obj (?h os) = (Inr True, ?h (os @ [obj]))" for os obj
    by (simp add: flameCallback_def graphOf_def)
  with decodeFile_fold [of fs rdbFilename inp env options d objs "flameCallback separators" ?h] assms(2-4)
  have "decodeFile env fs rdbFilename options (flameCallback separators) (0, FlameItem (strlit ''root'') 0 []) =
      Inr (?h (filter (passes env (settingsOf options)) objs))"
    by (simp add: graphOf_def)
  moreover have "flameName (graphOf separators os) = strlit ''root''" for os
    by (induction os rule: rev_induct) (simp_all add: graphOf_def addObject_def addParts_sel)
  ultimately show ?thesis using assms(1) by (simp add: FlameGraph_def Let_def childTotal_graph)
qed

subsection \<open>Properties\<close>

text \<open>
  C28: the graph of a file that parses with fewer objects than the trimming threshold: the root
  holds the total size of the objects that pass the filters; there is a node at a path exactly
  if the parts of some of these objects begin with the path, it has the last part as its
  name, and it holds the total size of these objects.
\<close>

theorem flame_graph_values:
  assumes "rdbFilename \<noteq> []" and "fs rdbFilename = Some inp" and "acceptsOptions env (settingsOf options)"
    and "coreDecoder (envParseFloat env) (globalMetaOpt (settingsOf options)) collect (newDecoder inp, []) = (Inr (), (d, objs))"
    and "int (length (filter (passes env (settingsOf options)) objs)) < TrimThreshold"
  shows "\<exists>root. FlameGraph env fs rdbFilename port separators options = Inr (root, if port = 0 then 16379 else port) \<and>
    flameValue root = sum_list (map GetSize (filter (passes env (settingsOf options)) objs)) \<and>
    (\<forall>p. p \<noteq> [] \<longrightarrow> labelAt p root =
      (let under = flameUnder separators p (filter (passes env (settingsOf options)) objs)
       in if under = [] then None else Some (last p, sum_list (map GetSize under))))"
proof -
  let ?os = "filter (passes env (settingsOf options)) objs"
  let ?root = "FlameItem (strlit ''root'') (sum_list (map GetSize ?os)) (flameChildren (graphOf separators ?os))"
  have "labelAt p ?root = labelAt p (graphOf separators ?os)" if "p \<noteq> []" for p
    using labelAt_value [OF that] by (cases "graphOf separators ?os") simp
  then show ?thesis
    using FlameGraph_graph [of rdbFilename fs inp env options d objs port separators] assms
    by (intro exI [of _ ?root]) (simp add: labelAt_graph Let_def)
qed

theorem flame_graph_values_witness:
  "\<exists>inp root. FlameGraph \<lparr>compileRegex = \<lambda>_. None, nowNanos = 0, nowSeconds = 0, envParseFloat = \<lambda>_. None, envOutside = 0\<rparr>
     (\<lambda>_. Some inp) (strlit ''dump.rdb'') 0 [] [] = Inr (root, 16379) \<and> labelAt [strlit ''none''] root = None"
proof -
  let ?env = "\<lparr>compileRegex = \<lambda>_. None, nowNanos = 0, nowSeconds = 0, envParseFloat = \<lambda>_. None, envOutside = 0\<rparr>"
  have st: "settingsOf [] = \<lparr>regexOpt = None, noExpiredOpt = False, expirationOpt = [], sizeOpt = [], globalMetaOpt = False\<rparr>"
    by (simp add: settingsOf_def)
  obtain inp d objs where run: "coreDecoder (\<lambda>_. None) False collect (newDecoder inp, []) = (Inr (), (d, objs :: robj list))"
    and v: "map viewOf objs = [(0, strlit ''a'', None, DataContent (StringVal (strlit ''1''))),
      (0, strlit ''b'', None, DataContent (StringVal (strlit ''2'')))]"
    by (rule exE [OF two_key_file], elim exE conjE) (rule that)
  from arg_cong [OF v, of length] have len: "length objs = 2" by simp
  have "length (filter P objs) \<le> 2" for P using len length_filter_le [of P objs] by simp
  then have few: "int (length (filter P objs)) < TrimThreshold" for P by (simp add: TrimThreshold_def order.strict_trans1 [of _ 2])
  have none: "flameUnder [] [strlit ''none''] os = []" for os by (simp add: flameUnder_def partsOf_def strlit_def)
  have "acceptsOptions ?env (settingsOf [])" by (simp add: acceptsOptions_def st)
  with run few none show ?thesis
    using flame_graph_values [of "strlit ''dump.rdb''" "\<lambda>_. Some inp" inp ?env "[]" d objs 0 "[]"]
    by (intro exI [of _ inp]) (auto simp: st strlit_def)
qed

text \<open>
  C29: trimming the graph of objects of no negative size removes exactly the small leaves: at a
  path without a part called \<^verbatim>\<open>others\<close> there is a node exactly if there was one and no node on
  the path was a small leaf, it keeps its name and its value, and the values of its children
  still add up to the same total, unless a child that stays is called \<^verbatim>\<open>others\<close>.
\<close>

theorem flame_trim_keeps:
  assumes "\<And>obj. obj \<in> set objs \<Longrightarrow> 0 \<le> GetSize obj" and "strlit ''others'' \<notin> set p"
  shows "labelAt p (trimData (graphOf separators objs)) =
      (if keptPath p (graphOf separators objs) then labelAt p (graphOf separators objs) else None) \<and>
    (\<forall>node. itemAt p (graphOf separators objs) = Some node \<and> keptPath p (graphOf separators objs) \<and>
       \<not> keptPath (p @ [strlit ''others'']) (graphOf separators objs) \<longrightarrow>
       (\<exists>trimmed. itemAt p (trimData (graphOf separators objs)) = Some trimmed \<and> childTotal trimmed = childTotal node))"
proof -
  let ?g = "graphOf separators objs"
  have w: "wellShaped ?g" using assms(1) by (rule wellShaped_graph)
  note it = itemAt_trim [OF w assms(2)]
  have "childTotal (trimData node) = childTotal node"
    if "itemAt p ?g = Some node" "keptPath p ?g" "\<not> keptPath (p @ [strlit ''others'']) ?g" for node
    using itemAt_keeps [OF that(1) w, of "strlit ''others''"] that by (intro childTotal_trim) (auto split: option.splits)
  then have "\<exists>trimmed. itemAt p (trimData ?g) = Some trimmed \<and> childTotal trimmed = childTotal node"
    if "itemAt p ?g = Some node" "keptPath p ?g" "\<not> keptPath (p @ [strlit ''others'']) ?g" for node
    using that it by simp
  moreover have "labelAt p (trimData ?g) = (if keptPath p ?g then labelAt p ?g else None)"
    by (simp add: labelAt_def it option.map_comp o_def)
  ultimately show ?thesis by blast
qed

theorem flame_trim_keeps_witness:
  "\<exists>trimmed. itemAt [] (trimData (graphOf [] [StringObject (emptyBase\<lparr>baseSize := 5\<rparr>) []])) = Some trimmed \<and> childTotal trimmed = 5"
proof -
  let ?os = "[StringObject (emptyBase\<lparr>baseSize := 5\<rparr>) []] :: robj list"
  have "labelAt [strlit ''others''] (graphOf [] ?os) = None"
    by (simp add: labelAt_graph flameUnder_def partsOf_def strlit_def)
  then have "\<not> keptPath [strlit ''others''] (graphOf [] ?os)" by (simp add: labelAt_Cons labelAt_Nil split: option.splits)
  then show ?thesis
    using flame_trim_keeps [of ?os "[]" "[]"] childTotal_graph [of "[]" ?os]
    by (simp add: GetSize_def)
qed

end
