(* ===== verification/Cli.thy ===== *)
theory Cli
  imports JsonPipeline PrefixReport SepPrefix Flame
begin

section \<open>The command line (cmd.go)\<close>

text \<open>
  What \<^verbatim>\<open>main\<close> does once the flag package has filled in the flags: it collects the options
  of the helpers, opens the output and calls one of the helpers.  The environment gathers what
  the helpers leave to libraries and the files there are.  The JSON conversion is a relation,
  so that the outcome of a run is one too.
\<close>

record cli_flags =
  flagCmd :: bytes
  flagOutput :: bytes
  flagN :: int
  flagMaxDepth :: int
  flagPort :: int
  flagConcurrent :: int
  flagSeps :: "bytes list"
  flagRegex :: bytes
  flagExpire :: bytes
  flagSize :: bytes
  flagNoExpired :: bool
  flagPrefixSeps :: "bytes list"
  flagGlobalMeta :: bool
  flagSrc :: bytes

text \<open>The methods of the flag type \<^verbatim>\<open>separators\<close>.\<close>

definition separatorsString :: "bytes list \<Rightarrow> bytes" where
  "separatorsString s = joinWith (strlit '' '') s"

definition separatorsSet :: "bytes \<Rightarrow> bytes list \<Rightarrow> bytes list" where
  "separatorsSet val s = s @ [val]"

definition cliOptions :: "cli_flags \<Rightarrow> helper_option list" where
  "cliOptions fl =
     (if flagRegex fl \<noteq> [] then [WithRegexOption (flagRegex fl)] else []) @
     (if flagNoExpired fl then [WithNoExpiredOption] else []) @
     (if flagConcurrent fl \<noteq> 0 then [WithConcurrent (flagConcurrent fl)] else []) @
     (if flagExpire fl \<noteq> [] then [WithExpirationOption (flagExpire fl)] else []) @
     (if flagSize fl \<noteq> [] then [WithSizeOption (flagSize fl)] else []) @
     (if flagGlobalMeta fl then [WithGlobalMeta] else [])"

subsection \<open>The calls\<close>

text \<open>
  The append-only file gets the slice of the options as one option, of a type no helper
  knows.
\<close>

datatype helper_call =
    CallToJsons bytes bytes "helper_option list"
  | CallMemoryProfile bytes bytes "helper_option list"
  | CallToAOF bytes bytes "helper_option list"
  | CallFindBiggestKeys bytes int "helper_option list"
  | CallFindHotKeys bytes int "helper_option list"
  | CallSepPrefixAnalyse bytes int int "bytes list" "helper_option list"
  | CallPrefixAnalyse bytes int int "helper_option list"
  | CallFlameGraph bytes int "bytes list" "helper_option list"

definition helperCall :: "cli_flags \<Rightarrow> helper_call option" where
  "helperCall fl =
     (let src = flagSrc fl; options = cliOptions fl in
      if flagCmd fl = strlit ''json'' then Some (CallToJsons src (flagOutput fl) options)
      else if flagCmd fl = strlit ''memory'' then Some (CallMemoryProfile src (flagOutput fl) options)
      else if flagCmd fl = strlit ''aof'' then Some (CallToAOF src (flagOutput fl) [OtherHelperOption])
      else if flagCmd fl = strlit ''bigkey'' then Some (CallFindBiggestKeys src (flagN fl) options)
      else if flagCmd fl = strlit ''hotkey'' then Some (CallFindHotKeys src (flagN fl) options)
      else if flagCmd fl = strlit ''prefix'' then Some (
        if flagPrefixSeps fl \<noteq> [] then CallSepPrefixAnalyse src (flagN fl) (flagMaxDepth fl) (flagPrefixSeps fl) options
        else CallPrefixAnalyse src (flagN fl) (flagMaxDepth fl) options)
      else if flagCmd fl = strlit ''flamegraph'' then Some (CallFlameGraph src (flagPort fl) (flagSeps fl) options)
      else None)"

record cli_env =
  cliEnv :: helper_env
  cliFiles :: "bytes \<Rightarrow> bytes option"
  cliMarshal :: "robj \<Rightarrow> bytes option"
  cliFormatFloat :: "float64 \<Rightarrow> bytes"
  cliNilValue :: "robj \<Rightarrow> nat \<Rightarrow> bool"
  cliFormatTime :: "int \<Rightarrow> bytes"
  cliSorter :: "sep_entry list \<Rightarrow> sep_entry list"
  cliNumCPU :: int
  cliStdout :: out_file
  cliCreateReport :: "bytes \<Rightarrow> out_file option"
  cliCreate :: "bytes \<Rightarrow> byte_file option"

text \<open>An output that cannot be opened is a nil file, which takes nothing; the program goes on.\<close>

definition nilFile :: out_file where
  "nilFile = \<lparr>outLines = [], outRefuses = \<lambda>_ _. True, outSpills = \<lambda>_ _. 0\<rparr>"

definition outputFile :: "cli_env \<Rightarrow> bytes \<Rightarrow> out_file" where
  "outputFile e name = (if name = [] then cliStdout e
     else case cliCreateReport e name of None \<Rightarrow> nilFile | Some f \<Rightarrow> f)"

text \<open>What is left when the call returns: its error and the file it wrote, or the graph it serves.\<close>

datatype cli_result =
    ReportLeft "unit res" out_file
  | BytesLeft "unit res" byte_file
  | GraphServed "(flameItem \<times> int) res"

definition emptyOut :: out_file where
  "emptyOut = \<lparr>outLines = [], outRefuses = \<lambda>_ _. False, outSpills = \<lambda>_ _. 0\<rparr>"

definition emptyBytes :: byte_file where
  "emptyBytes = \<lparr>fileBytes = [], fileRefuses = \<lambda>_ _. None\<rparr>"

fun reportLeft :: "unit res \<times> out_file \<Rightarrow> cli_result" where
  "reportLeft (r, f) = ReportLeft r f"

fun bytesLeft :: "unit res \<times> byte_file \<Rightarrow> cli_result" where
  "bytesLeft (r, f) = BytesLeft r f"

inductive callsHelper :: "cli_env \<Rightarrow> out_file \<Rightarrow> helper_call \<Rightarrow> cli_result \<Rightarrow> bool" for e outp where
  json: "ToJsons (cliEnv e) (cliFiles e) (cliMarshal e) (cliNumCPU e) src name (cliCreate e) options emptyBytes r f \<Longrightarrow>
    callsHelper e outp (CallToJsons src name options) (BytesLeft r f)"
| memory: "callsHelper e outp (CallMemoryProfile src name options)
    (reportLeft (MemoryProfile (cliEnv e) (cliFiles e) (cliFormatTime e) src name (cliCreateReport e) options emptyOut))"
| aof: "callsHelper e outp (CallToAOF src name options)
    (bytesLeft (ToAOF (cliEnv e) (cliFiles e) (cliFormatFloat e) (cliNilValue e) src name (cliCreate e) options emptyBytes))"
| bigkey: "callsHelper e outp (CallFindBiggestKeys src n options)
    (reportLeft (FindBiggestKeys (cliEnv e) (cliFiles e) src n options outp))"
| hotkey: "callsHelper e outp (CallFindHotKeys src n options)
    (reportLeft (FindHotKeys (cliEnv e) (cliFiles e) src n options outp))"
| sepPrefix: "callsHelper e outp (CallSepPrefixAnalyse src n maxDepth seps options)
    (reportLeft (SepPrefixAnalyse (cliEnv e) (cliFiles e) (cliSorter e) src n maxDepth seps options outp))"
| prefix: "callsHelper e outp (CallPrefixAnalyse src n maxDepth options)
    (reportLeft (PrefixAnalyse (cliEnv e) (cliFiles e) src n maxDepth options outp))"
| flamegraph: "callsHelper e outp (CallFlameGraph src port seps options)
    (GraphServed (FlameGraph (cliEnv e) (cliFiles e) src port seps options))"

inductive_simps calls_simps: "callsHelper e outp (CallFindBiggestKeys src n options) r"
  "callsHelper e outp (CallToAOF src name options) r"

datatype cli_end = HelpShown | Refused string | Finished cli_result

inductive rdbMain :: "cli_env \<Rightarrow> cli_flags \<Rightarrow> cli_end \<Rightarrow> bool" for e fl where
  noCommand: "flagCmd fl = [] \<Longrightarrow> rdbMain e fl HelpShown"
| noSource: "flagCmd fl \<noteq> [] \<Longrightarrow> flagSrc fl = [] \<Longrightarrow> rdbMain e fl (Refused ''src file is required'')"
| unknown: "flagCmd fl \<noteq> [] \<Longrightarrow> flagSrc fl \<noteq> [] \<Longrightarrow> helperCall fl = None \<Longrightarrow>
    rdbMain e fl (Refused ''unknown command'')"
| called: "flagCmd fl \<noteq> [] \<Longrightarrow> flagSrc fl \<noteq> [] \<Longrightarrow> helperCall fl = Some call \<Longrightarrow>
    callsHelper e (outputFile e (flagOutput fl)) call r \<Longrightarrow> rdbMain e fl (Finished r)"

subsection \<open>The settings behind the flags\<close>

lemma settings_of_flags:
  "settingsOf (cliOptions fl) = \<lparr>regexOpt = (if flagRegex fl = [] then None else Some (flagRegex fl)),
     noExpiredOpt = flagNoExpired fl, expirationOpt = flagExpire fl, sizeOpt = flagSize fl, globalMetaOpt = flagGlobalMeta fl\<rparr>"
  by (simp add: settingsOf_def cliOptions_def WithRegexOption_def WithNoExpiredOption_def WithConcurrent_def
      WithExpirationOption_def WithSizeOption_def WithGlobalMeta_def)

lemma main_calls:
  assumes "flagCmd fl \<noteq> []" "flagSrc fl \<noteq> []" "helperCall fl = Some call"
  shows "rdbMain e fl end \<longleftrightarrow> (\<exists>r. end = Finished r \<and> callsHelper e (outputFile e (flagOutput fl)) call r)"
  using assms by (auto elim: rdbMain.cases intro: rdbMain.intros)

lemma wrapDecoder_other: "wrapDecoder env base [OtherHelperOption] = wrapDecoder env base []"
  by (simp add: wrapDecoder_def settingsOf_def)

lemma aofCallback_other: "aofCallback ff nl [OtherHelperOption] = aofCallback ff nl []"
  by (rule ext) (simp add: aofCallback_def [abs_def] ObjectToCmd_def)

lemma ToAOF_other: "ToAOF env fs ff nl src name create [OtherHelperOption] f = ToAOF env fs ff nl src name create [] f"
  unfolding ToAOF_def wrapDecoder_other aofCallback_other ..

lemma settings_default:
  "settingsOf [] = \<lparr>regexOpt = None, noExpiredOpt = False, expirationOpt = [], sizeOpt = [], globalMetaOpt = False\<rparr>"
  by (simp add: settingsOf_def)

lemma everything_passes: "filter (passes env (settingsOf [])) objs = objs" "acceptsOptions env (settingsOf [])"
  by (simp_all add: passes_def [abs_def] passesRegex_def passesExpired_def passesExpiration_def passesSize_def
      acceptsOptions_def settings_default)

definition exampleEnv :: "bytes \<Rightarrow> cli_env" where
  "exampleEnv inp = \<lparr>cliEnv = \<lparr>compileRegex = \<lambda>_. None, nowNanos = 0, nowSeconds = 0, envParseFloat = \<lambda>_. None, envOutside = 0\<rparr>,
     cliFiles = \<lambda>_. Some inp, cliMarshal = \<lambda>_. None, cliFormatFloat = \<lambda>_. [], cliNilValue = \<lambda>_ _. False, cliFormatTime = \<lambda>_. [], cliSorter = \<lambda>es. es,
     cliNumCPU = 1, cliStdout = emptyOut, cliCreateReport = \<lambda>_. None, cliCreate = \<lambda>_. Some emptyBytes\<rparr>"

definition exampleFlags :: "bytes \<Rightarrow> cli_flags" where
  "exampleFlags cmd = \<lparr>flagCmd = cmd, flagOutput = [], flagN = 5, flagMaxDepth = 0, flagPort = 0, flagConcurrent = 0,
     flagSeps = [], flagRegex = [], flagExpire = strlit ''noexpire'', flagSize = [], flagNoExpired = False,
     flagPrefixSeps = [], flagGlobalMeta = False, flagSrc = strlit ''dump.rdb''\<rparr>"

subsection \<open>Properties\<close>

text \<open>
  C18: the command \<^verbatim>\<open>bigkey\<close> applies every filter its flags name: a run on a file that parses
  has one outcome, no error and the report of the largest objects, in descending order, of
  those that pass the regular expression, the expiration and the size filter of the flags.
\<close>

theorem cli_bigkey_filtered:
  assumes "flagCmd fl = strlit ''bigkey''" and "flagSrc fl \<noteq> []" and "0 < flagN fl" and "cliFiles e (flagSrc fl) = Some inp"
    and "acceptsOptions (cliEnv e) (settingsOf (cliOptions fl))"
    and "coreDecoder (envParseFloat (cliEnv e)) (flagGlobalMeta fl) collect (newDecoder inp, []) = (Inr (), (d, objs))"
    and "\<And>ls l. \<not> outRefuses (outputFile e (flagOutput fl)) ls l"
  shows "rdbMain e fl end \<longleftrightarrow> end = Finished (ReportLeft (Inr ()) (outputFile e (flagOutput fl)\<lparr>outLines :=
    outLines (outputFile e (flagOutput fl)) @ bigKeyHeader # map bigKeyRow (take (nat (flagN fl)) (descending GetSize (rev
      (filter (passes (cliEnv e) \<lparr>regexOpt = (if flagRegex fl = [] then None else Some (flagRegex fl)),
         noExpiredOpt = flagNoExpired fl, expirationOpt = flagExpire fl, sizeOpt = flagSize fl,
         globalMetaOpt = flagGlobalMeta fl\<rparr>) objs))))\<rparr>))"
proof -
  have call: "helperCall fl = Some (CallFindBiggestKeys (flagSrc fl) (flagN fl) (cliOptions fl))"
    using assms(1) by (simp add: helperCall_def strlit_def)
  have "flagCmd fl \<noteq> []" using assms(1) by (simp add: strlit_def)
  note main = main_calls [OF this assms(2) call]
  have "globalMetaOpt (settingsOf (cliOptions fl)) = flagGlobalMeta fl" by (simp add: settings_of_flags)
  with FindBiggestKeys_report [of "flagSrc fl" "flagN fl" "cliFiles e" inp "cliEnv e" "cliOptions fl" d objs
    "outputFile e (flagOutput fl)"] assms(2-7)
  have "FindBiggestKeys (cliEnv e) (cliFiles e) (flagSrc fl) (flagN fl) (cliOptions fl) (outputFile e (flagOutput fl)) =
    (Inr (), outputFile e (flagOutput fl)\<lparr>outLines := outLines (outputFile e (flagOutput fl)) @ bigKeyHeader #
      map bigKeyRow (take (nat (flagN fl)) (descending GetSize (rev (filter (passes (cliEnv e) (settingsOf (cliOptions fl))) objs))))\<rparr>)"
    by simp
  then show ?thesis unfolding main settings_of_flags by (simp add: calls_simps)
qed

theorem cli_bigkey_filtered_witness:
  "\<exists>inp f. rdbMain (exampleEnv inp) (exampleFlags (strlit ''bigkey'')) (Finished (ReportLeft (Inr ()) f)) \<and>
     length (outLines f) = 3"
proof -
  obtain inp d objs where run: "coreDecoder (\<lambda>_. None) False collect (newDecoder inp, []) = (Inr (), (d, objs))"
    and v: "map viewOf objs = [(0, strlit ''a'', None, DataContent (StringVal (strlit ''1''))),
      (0, strlit ''b'', None, DataContent (StringVal (strlit ''2'')))]"
    by (rule exE [OF two_key_file], elim exE conjE) (rule that)
  let ?e = "exampleEnv inp" and ?fl = "exampleFlags (strlit ''bigkey'')"
  have persistent: "GetExpiration obj = None" if "obj \<in> set objs" for obj
    using imageI [OF that, of viewOf] by (simp flip: set_map add: v) (auto simp: viewOf_def)
  have two: "length objs = 2" using arg_cong [OF v, of length] by simp
  have ok: "acceptsOptions (cliEnv ?e) (settingsOf (cliOptions ?fl))"
    by (simp add: acceptsOptions_def settings_of_flags exampleFlags_def)
  have "filter (passes (cliEnv ?e) \<lparr>regexOpt = None, noExpiredOpt = False, expirationOpt = strlit ''noexpire'', sizeOpt = [],
      globalMetaOpt = False\<rparr>) objs = objs"
    using persistent by (auto simp: filter_id_conv passes_def passesRegex_def passesExpired_def passesExpiration_def passesSize_def)
  with cli_bigkey_filtered [of ?fl ?e inp d objs] run ok two show ?thesis
    by (intro exI [of _ inp]) (simp add: exampleEnv_def exampleFlags_def outputFile_def emptyOut_def descending_def strlit_def)
qed

text \<open>
  C19: the command \<^verbatim>\<open>aof\<close> ignores the filters: whatever the flags for the regular expression,
  the expiration and the size say, and even if they cannot be parsed, the append-only file of
  a file that parses holds the commands of all its objects.
\<close>

theorem cli_aof_unfiltered:
  assumes "flagCmd fl = strlit ''aof''" and "flagSrc fl \<noteq> []" and "flagOutput fl \<noteq> []" and "cliFiles e (flagSrc fl) = Some inp"
    and "cliCreate e (flagOutput fl) = Some emptyBytes"
    and "coreDecoder (envParseFloat (cliEnv e)) False collect (newDecoder inp, []) = (Inr (), (d, objs))"
    and "\<forall>obj \<in> set objs. hasCmds (cliFormatFloat e) (cliNilValue e) [] obj"
  shows "\<exists>f. (\<forall>end. rdbMain e fl end \<longleftrightarrow> end = Finished (BytesLeft (Inr ()) f)) \<and>
    fileBytes f = CmdLinesToResp (concat (map (cmdsOf (cliFormatFloat e) (cliNilValue e) []) objs))"
proof -
  have call: "helperCall fl = Some (CallToAOF (flagSrc fl) (flagOutput fl) [OtherHelperOption])"
    using assms(1) by (simp add: helperCall_def strlit_def)
  have "flagCmd fl \<noteq> []" using assms(1) by (simp add: strlit_def)
  note main = main_calls [OF this assms(2) call]
  have "globalMetaOpt (settingsOf []) = False" by (simp add: settings_default)
  with ToAOF_fold [of "flagSrc fl" "flagOutput fl" "cliFiles e" inp "cliCreate e" emptyBytes "cliEnv e" "[]" d objs
    "cliFormatFloat e" "cliNilValue e" emptyBytes] assms(2-7) everything_passes(2)
  have run: "ToAOF (cliEnv e) (cliFiles e) (cliFormatFloat e) (cliNilValue e) (flagSrc fl) (flagOutput fl) (cliCreate e) [OtherHelperOption] emptyBytes =
      (Inr (), writeAll (cliFormatFloat e) (cliNilValue e) [] objs emptyBytes)"
    by (simp add: ToAOF_other everything_passes(1))
  have "fileBytes (writeAll (cliFormatFloat e) (cliNilValue e) [] objs emptyBytes) = CmdLinesToResp (concat (map (cmdsOf (cliFormatFloat e) (cliNilValue e) []) objs))"
    by (simp add: emptyBytes_def writeAll_bytes)
  moreover have "rdbMain e fl end \<longleftrightarrow> end = Finished (BytesLeft (Inr ()) (writeAll (cliFormatFloat e) (cliNilValue e) [] objs emptyBytes))" for "end"
    unfolding main using run by (simp add: calls_simps)
  ultimately show ?thesis by blast
qed


theorem cli_aof_unfiltered_witness:
  "\<exists>inp f. rdbMain (exampleEnv inp) ((exampleFlags (strlit ''aof''))\<lparr>flagOutput := strlit ''dump.aof'', flagExpire := strlit ''anyexpire''\<rparr>)
     (Finished (BytesLeft (Inr ()) f)) \<and>
     fileBytes f = CmdLinesToResp [map Some [setCmd, strlit ''a'', strlit ''1''], map Some [setCmd, strlit ''b'', strlit ''2'']]"
proof -
  obtain inp d objs where run: "coreDecoder (\<lambda>_. None) False collect (newDecoder inp, []) = (Inr (), (d, objs))"
    and v: "map viewOf objs = [(0, strlit ''a'', None, DataContent (StringVal (strlit ''1''))),
      (0, strlit ''b'', None, DataContent (StringVal (strlit ''2'')))]"
    by (rule exE [OF two_key_file], elim exE conjE) (rule that)
  from v obtain x y where objs: "objs = [x, y]" and
    cmds: "ObjectToCmd (\<lambda>_. []) (\<lambda>_ _. False) [] x = Inr [map Some [setCmd, strlit ''a'', strlit ''1'']]"
      "ObjectToCmd (\<lambda>_. []) (\<lambda>_ _. False) [] y = Inr [map Some [setCmd, strlit ''b'', strlit ''2'']]"
    by (auto simp: map_eq_Cons_conv dest!: string_view_cmds [where ff = "\<lambda>_. []" and opts = "[]"])
  let ?fl = "(exampleFlags (strlit ''aof''))\<lparr>flagOutput := strlit ''dump.aof'', flagExpire := strlit ''anyexpire''\<rparr>"
  from cli_aof_unfiltered [of ?fl "exampleEnv inp" inp d objs] run cmds show ?thesis
    by (intro exI [of _ inp]) (auto simp: exampleEnv_def exampleFlags_def objs hasCmds_def cmdsOf_def strlit_def)
qed

end
