(* ===== verification/Spec2Isabelle.thy ===== *)
theory Spec2Isabelle
  imports Prelude Strconv Reader Crc64 Lzf EncoderState StringCodec ZipList ListPack Lists Sets Hashes
    Streams Model MemProfiler Encoder Module Decoder RoundTrip ParseLaws ByteFmt Filters TopList
    Radix PrefixReport Resp Replay Marshal JsonPipeline GoStrings SepPrefix Flame Cli
begin

text \<open>
  \<^bold>\<open>A verification library for the RDB tools\<close>

  The repository is a Go library and a command line that read and write Redis RDB files: a
  decoder that hands the objects of a file to a callback (\<^verbatim>\<open>core/decoder.go\<close>), an encoder that
  writes a file call by call (\<^verbatim>\<open>core/encoder.go\<close>), an estimate of the memory Redis uses for an
  object (\<^verbatim>\<open>memprofiler\<close>), and the helpers built on the decoder (\<^verbatim>\<open>helper\<close>): filters, reports
  of the largest, hottest and commonest keys, the conversions to JSON and to an append-only file,
  and a flame graph.  \<^verbatim>\<open>cmd.go\<close> selects one of them.

  \<^bold>\<open>How the parts interact\<close>

  Everything a file holds goes through the length and string codec.  The composite encodings
  (ziplist, listpack, intset, zipmap) are strings with a format of their own, read through a
  cursor over a buffer.  The decoder dispatches on a type flag to the readers of these
  encodings, fills in the object's base, asks the profiler for its size and calls the callback.
  The encoder guards each of its methods with a table of allowed state changes, feeds what it
  writes to a checksum and to the writer, and ends the file with the checksum.  A helper wraps the
  decoder in the filters its options name, parses with a callback on a state of its own (a bounded
  list, a tree, a map, a file) and writes that state when the parse has ended; only the memory
  profile and the append-only file are written while the file is parsed, and the JSON
  conversion hands the objects to other goroutines.

  \<^bold>\<open>Theories and sources\<close>

  \<^item> \<open>Prelude\<close>: bytes, errors and panics as values, state-and-error methods, byte orders.
    \<open>Strconv\<close>: package strconv on decimals.  \<open>GoStrings\<close>: Join, ReplaceAll and SplitN of package
    strings.
  \<^item> \<open>Reader\<close> (\<^verbatim>\<open>core/utils.go\<close>): the decoder's stream and the cursor over a buffer; the locales
    \<open>byte_source\<close> and \<open>item_codec\<close> are the contracts of a source of bytes and of a pair of writer
    and reader, interpreted on the stream, on a buffer, and on the receiving side of the Redis
    protocol.
  \<^item> \<open>Crc64\<close> (\<^verbatim>\<open>crc64jones/crc64.go\<close>), \<open>Lzf\<close> (\<^verbatim>\<open>lzf/lzf.go\<close>), \<open>StringCodec\<close> (\<^verbatim>\<open>core/string.go\<close>),
    \<open>ZipList\<close> (\<^verbatim>\<open>core/ziplist.go\<close>), \<open>ListPack\<close> (\<^verbatim>\<open>core/listpack.go\<close> and the listpack writer of
    \<^verbatim>\<open>core/stream.go\<close>).
  \<^item> \<open>Lists\<close>, \<open>Sets\<close>, \<open>Hashes\<close>, \<open>Streams\<close> (\<^verbatim>\<open>core/list.go\<close>, \<^verbatim>\<open>set.go\<close> and \<^verbatim>\<open>zset.go\<close>, \<^verbatim>\<open>hash.go\<close>,
    \<^verbatim>\<open>stream.go\<close>): the readers and writers of the values.
  \<^item> \<open>EncoderState\<close>, \<open>Encoder\<close> (\<^verbatim>\<open>core/encoder.go\<close> and the exported write methods of the other
    files): the record \<open>encoder\<close> has the struct's fields; \<open>enc_op\<close>, \<open>runOp\<close> and \<open>reachable\<close> are a
    client that calls the methods in any order, also after failures.  The locale \<open>byte_sink\<close> is the
    contract of what a method may append.
  \<^item> \<open>Model\<close>, \<open>Marshal\<close> (\<^verbatim>\<open>model\<close>): the objects, their methods and their JSON form.
    \<open>MemProfiler\<close> (\<^verbatim>\<open>memprofiler\<close>).  \<open>Module\<close> (\<^verbatim>\<open>core/module.go\<close>).
  \<^item> \<open>Decoder\<close> (\<^verbatim>\<open>core/decoder.go\<close>): the record \<open>dstate\<close> is the decoder's input and counters,
    \<open>dconfig\<close> its settings, \<open>loop_vars\<close> the variables of the parse loop.  \<open>RoundTrip\<close> composes the
    encoder with the decoder, \<open>ParseLaws\<close> holds what is true of the decoder on any input.
  \<^item> \<open>ByteFmt\<close> (\<^verbatim>\<open>bytefmt\<close>), \<open>Filters\<close> (\<^verbatim>\<open>helper/regex.go\<close>), \<open>TopList\<close> (\<^verbatim>\<open>helper/toplist.go\<close>,
    \<^verbatim>\<open>bigkey.go\<close>, \<^verbatim>\<open>hotkey.go\<close>, \<^verbatim>\<open>memory.go\<close>; the locale \<open>top_contract\<close> is what both bounded lists
    promise), \<open>Radix\<close> and \<open>PrefixReport\<close> (\<^verbatim>\<open>helper/radix.go\<close>, \<^verbatim>\<open>prefix.go\<close>), \<open>SepPrefix\<close>
    (\<^verbatim>\<open>helper/prefix_stream.go\<close>), \<open>Resp\<close> (\<^verbatim>\<open>helper/resp.go\<close>, \<^verbatim>\<open>converter.go\<close>), \<open>Replay\<close> (a reference
    of what a Redis server does with the commands, and what they leave there), \<open>JsonPipeline\<close>
    (\<^verbatim>\<open>helper/json.go\<close>), \<open>Flame\<close> (\<^verbatim>\<open>helper/flamegraph.go\<close> and the tree of \<^verbatim>\<open>d3flame/web.go\<close>),
    \<open>Cli\<close> (\<^verbatim>\<open>cmd.go\<close>).

  \<^bold>\<open>How the code is modelled\<close>

  \<^item> A method is a function from its receiver's state to a result and the state it leaves,
    \<open>('s, 'a) gom\<close>; an error keeps the changes made before it.  Errors are values of \<open>error\<close>; a run-time
    panic is the error \<open>GoPanic\<close>, which \<open>Parse\<close> turns into an error the way the deferred function of
    the code does.  Errors carry the text that tells the branches apart, not all arguments.
  \<^item> Fixed-width integers of the file format are words; a Go \<^verbatim>\<open>int\<close> is an unbounded integer where the
    code's value is bounded by the data in memory, and wraps explicitly where it comes from a file
    or an option (lengths read as \<^verbatim>\<open>int\<close>, expirations, depths).
  \<^item> An object does not tell an empty value from a nil one.  The commands made of it do, so which
    of its values are nil is a parameter of \<open>Resp\<close> (\<open>nl\<close>).  Every index expression
    of the LZF compressor is checked and panics out of range.  The capacity of a slice is its length.  \<^verbatim>\<open>make\<close> with a negative length or of more than \<open>maxAlloc\<close> = \<open>2 ^ 48\<close> bytes
    panics.  A Go map is an association list with distinct keys in its iteration order.
  \<^item> A reader is a finite sequence of bytes.  The writer of the encoder, and every file that is
    written, is what it has taken so far and an environment that may refuse any write after any
    of its bytes.
  \<^item> The callback is a method of the caller's own on a state of the caller's.  A module handler is
    any function that only reads on (the type \<open>handler\<close>).
  \<^item> Library code whose result the program only passes on is a parameter: \<^verbatim>\<open>FormatFloat\<close> (\<open>ff\<close>) and
    \<^verbatim>\<open>ParseFloat\<close> (\<open>pf\<close>), the regular expressions, the clock and the conversion of a float out of
    range (\<open>helper_env\<close>), \<^verbatim>\<open>Time.Format\<close>, the JSON encoder, \<^verbatim>\<open>sort.Slice\<close>, of which only used is that
    it permutes and sorts.  A CSV row is its list of fields; the CSV writer buffers rows, hands
    some of them to the file when the environment says that its buffer is full, and the rest in the
    deferred \<^verbatim>\<open>Flush\<close>, whose error is lost.
  \<^item> The goroutines of the JSON conversion are a step relation in which any of them may go on.  They
    share the variable \<^verbatim>\<open>err\<close>: the parser's assignment may come between another one's assignment and
    test of it.  Single accesses are taken to be atomic and sequentially consistent, which Go does
    not promise of a data race.
  \<^item> The nodes of the radix tree and of the flame graph are values of recursive datatypes; an
    update through a pointer is the rebuilt path.

  \<^bold>\<open>What is shown\<close>

  \<^item> Round trips: bytes, lengths, strings, LZF, ziplists, listpacks, every type of value, and whole
    files: what a client of the encoder wrote is what the decoder hands to its callback.  The
    conditions of the value round trips (\<open>zl_ok\<close>, \<open>lp_int_ok\<close>, \<open>file_ok\<close> and the like) are where the
    encoder writes something the decoder reads differently; they are listed as findings.
  \<^item> The encoder: whatever a client calls, the accepted calls begin a file, the output has the
    format of one, and the file can be finished.
  \<^item> The decoder on any input: it terminates, calls the callback only within its protocol, delivers
    typed objects, refuses other files, and reports files that are cut off, with one exception.
  \<^item> The helpers: filters select what they name; the bounded lists, the radix tree, the flat prefix
    map and the flame graph hold what their specifications say of the objects; the append-only
    file is read back as the commands of the objects, and these leave the objects' contents in a
    server; the JSON file is the same array for every schedule, up to order and to the one outcome
    of the race on \<^verbatim>\<open>err\<close>, and the conversion cannot get stuck.
  \<^item> The program: a run of the command line is the composition of these.

  \<^bold>\<open>Bounds and fuel\<close>

  No definition takes fuel: the loops are recursive on their data, on the input that is left
  (the parse loop consumes a byte or ends on every turn) or on a measure given with the
  definition.  \<open>parseFuel\<close> in \<open>ParseLaws\<close> counts the turns of the loop to state that as many as the
  bytes of the input and one more are enough.  The JSON steps make a run no longer than six
  steps per object and a few more.

  \<^bold>\<open>Not modelled\<close>

  The web server and page of \<^verbatim>\<open>d3flame\<close> (I/O and embedded assets), the aliases of \<^verbatim>\<open>parser\<close> and
  \<^verbatim>\<open>encoder\<close>, the examples, the help text and the parsing of the flags.  \<^verbatim>\<open>RandString\<close> and
  \<^verbatim>\<open>zsetRandomLevel\<close> are random and have no caller but tests.  The text the JSON library makes of a
  value, and its failures, are its own.  Closing files is left out.
\<close>

end
